(* ===== verification/Prelude.thy ===== *)
theory Prelude
  imports Main "HOL-Library.Word"
begin

text \<open>
  Shared vocabulary of the development: machine integers as words, byte buffers, Rust's
  \<open>Result\<close>, slices and their bounds, big-endian integers, durations, and the generic
  list and word facts the components use. Strings are HOL strings whose characters stand
  for the UTF-8 bytes of the Rust \<open>String\<close>.

  The proof collections are \<open>wire\<close> (sizes and shapes of encoded data) and \<open>slice\<close>
  (bounds of buffer reads).
\<close>

unbundle bit_operations_syntax

named_theorems wire \<open>lengths and round trips of encoded data\<close>
named_theorems slice \<open>reads inside and outside a buffer\<close>

section \<open>Types\<close>

type_synonym u8 = "8 word"
type_synonym u16 = "16 word"
type_synonym u32 = "32 word"
type_synonym u64 = "64 word"
type_synonym usize = nat
type_synonym bytes = "u8 list"

text \<open>\<open>Result<T, E>\<close>: \<open>Inr\<close> is \<open>Ok\<close>, \<open>Inl\<close> is \<open>Err\<close>.\<close>

type_synonym ('a, 'e) result = "'e + 'a"

text \<open>A point in time and a span of time, both in nanoseconds.\<close>

type_synonym instant = nat
type_synonym duration = nat

definition from_millis :: "u64 \<Rightarrow> duration" where
  "from_millis ms = unat ms * 1000000"

definition from_secs :: "nat \<Rightarrow> duration" where
  "from_secs s = s * 1000000000"

section \<open>Slices\<close>

text \<open>\<open>buf.get(i)\<close>.\<close>

definition get :: "'a list \<Rightarrow> nat \<Rightarrow> 'a option" where
  "get xs i = (if i < length xs then Some (xs ! i) else None)"

text \<open>\<open>buf.get(a..b)\<close>, with \<open>a \<le> b\<close> at every use.\<close>

definition get_range :: "'a list \<Rightarrow> nat \<Rightarrow> nat \<Rightarrow> 'a list option" where
  "get_range xs a b = (if a \<le> b \<and> b \<le> length xs then Some (take (b - a) (drop a xs)) else None)"

text \<open>\<open>v.drain(..n)\<close>, which panics past the end: \<open>None\<close> is the panic.\<close>

definition drain_front :: "nat \<Rightarrow> 'a list \<Rightarrow> 'a list option" where
  "drain_front n xs = (if n \<le> length xs then Some (drop n xs) else None)"

section \<open>Big-endian integers\<close>

fun be_value :: "bytes \<Rightarrow> nat" where
  "be_value [] = 0"
| "be_value (b # bs) = unat b * 256 ^ length bs + be_value bs"

fun be_digits :: "nat \<Rightarrow> nat \<Rightarrow> bytes" where
  "be_digits 0 n = []"
| "be_digits (Suc k) n = of_nat (n div 256 ^ k mod 256) # be_digits k n"

definition u16_from_be :: "u8 \<Rightarrow> u8 \<Rightarrow> u16" where
  "u16_from_be a b = of_nat (be_value [a, b])"

definition u16_to_be :: "u16 \<Rightarrow> bytes" where
  "u16_to_be w = be_digits 2 (unat w)"

definition u32_from_be :: "bytes \<Rightarrow> u32" where
  "u32_from_be bs = of_nat (be_value bs)"

definition u32_to_be :: "u32 \<Rightarrow> bytes" where
  "u32_to_be w = be_digits 4 (unat w)"

section \<open>Strings as bytes\<close>

definition byte_of_char :: "char \<Rightarrow> u8" where
  "byte_of_char c = of_nat (of_char c)"

definition char_of_byte :: "u8 \<Rightarrow> char" where
  "char_of_byte b = char_of (unat b)"

definition as_bytes :: "string \<Rightarrow> bytes" where
  "as_bytes s = map byte_of_char s"

section \<open>Facts\<close>

lemma get_Some_iff [slice]: "get xs i = Some x \<longleftrightarrow> i < length xs \<and> xs ! i = x"
  by (auto simp: get_def)

lemma get_None_iff [slice]: "get xs i = None \<longleftrightarrow> length xs \<le> i"
  by (auto simp: get_def)

lemma get_append_left [slice]: "i < length xs \<Longrightarrow> get (xs @ ys) i = get xs i"
  by (simp add: get_def nth_append)

lemma get_range_Some_iff [slice]:
  "get_range xs a b = Some ys \<longleftrightarrow> a \<le> b \<and> b \<le> length xs \<and> ys = take (b - a) (drop a xs)"
  by (auto simp: get_range_def)

lemma get_range_None_iff [slice]:
  "a \<le> b \<Longrightarrow> get_range xs a b = None \<longleftrightarrow> length xs < b"
  by (auto simp: get_range_def)

lemma get_range_append_left [slice]:
  "b \<le> length xs \<Longrightarrow> get_range (xs @ ys) a b = get_range xs a b"
  by (auto simp: get_range_def)

lemma get_range_middle [slice]:
  "get_range (xs @ ys @ zs) (length xs) (length xs + length ys) = Some ys"
  by (simp add: get_range_def)

lemma length_get_range [slice]: "get_range xs a b = Some ys \<Longrightarrow> length ys = b - a"
  by (auto simp: get_range_def split: if_splits)

lemma drain_front_append [simp]: "drain_front (length xs) (xs @ ys) = Some ys"
  by (simp add: drain_front_def)

lemma drop_3_Cons [simp]:
  "drop (3 + n) (a # b # c # t) = drop n t" "drop 3 (a # b # c # t) = t"
  by (simp_all add: numeral_3_eq_3)

lemma length_be_digits [simp, wire]: "length (be_digits k n) = k"
  by (induction k) auto

lemma unat_of_nat_u8 [simp]: "unat (of_nat (n mod 256) :: u8) = n mod 256"
  by (simp add: unat_of_nat)

lemma unat_u8_less [simp]: "unat (b :: u8) < 256"
  using unsigned_less [where ?'a = nat and w = b] by simp

lemma unat_u16_less [simp]: "unat (w :: u16) < 65536"
  using unsigned_less [where ?'a = nat and w = w] by simp

lemma unat_u32_less [simp]: "unat (w :: u32) < 4294967296"
  using unsigned_less [where ?'a = nat and w = w] by simp

lemma be_value_less: "be_value bs < 256 ^ length bs"
proof (induction bs)
  case Nil
  then show ?case by simp
next
  case (Cons b bs)
  have "unat b * 256 ^ length bs \<le> 255 * 256 ^ length bs"
    using unat_u8_less [of b] by (intro mult_right_mono) linarith+
  with Cons have "unat b * 256 ^ length bs + be_value bs < 255 * 256 ^ length bs + 256 ^ length bs"
    by (rule add_le_less_mono [rotated])
  then show ?case by simp
qed

lemma be_value_digits: "be_value (be_digits k n) = n mod 256 ^ k"
proof (induction k)
  case 0
  then show ?case by simp
next
  case (Suc k)
  have "n mod (256 ^ k * 256) = 256 ^ k * (n div 256 ^ k mod 256) + n mod 256 ^ k"
    by (rule mod_mult2_eq)
  with Suc show ?case by (simp add: mult.commute)
qed

lemma be_digits_add: "be_digits k (256 ^ k * m + n) = be_digits k n"
proof (induction k arbitrary: m)
  case 0
  then show ?case by simp
next
  case (Suc k)
  have shift: "256 ^ Suc k * m + n = 256 ^ k * (256 * m) + n" by simp
  have "(256 ^ k * (256 * m) + n) div 256 ^ k = 256 * m + n div 256 ^ k"
    by (simp add: div_mult_self4)
  with Suc show ?case by (simp add: shift del: power_Suc)
qed

lemma be_digits_value: "be_digits (length bs) (be_value bs) = bs"
proof (induction bs)
  case Nil
  then show ?case by simp
next
  case (Cons b bs)
  have top: "(unat b * 256 ^ length bs + be_value bs) div 256 ^ length bs mod 256 = unat b"
    using be_value_less [of bs] by (simp add: div_mult_self3)
  have low: "be_digits (length bs) (unat b * 256 ^ length bs + be_value bs) = bs"
    using be_digits_add [of "length bs" "unat b" "be_value bs"] Cons
    by (simp add: mult.commute)
  from top low show ?case by simp
qed

lemma length_u16_to_be [simp, wire]: "length (u16_to_be w) = 2"
  by (simp add: u16_to_be_def)

lemma length_u32_to_be [simp, wire]: "length (u32_to_be w) = 4"
  by (simp add: u32_to_be_def)

lemma u16_to_be_from_be [simp]: "u16_to_be (u16_from_be a b) = [a, b]"
proof -
  have "unat (u16_from_be a b) = be_value [a, b]"
    using be_value_less [of "[a, b]"]
    by (simp add: u16_from_be_def unat_of_nat del: be_value.simps)
  then show ?thesis
    using be_digits_value [of "[a, b]"]
    by (simp add: u16_to_be_def numeral_2_eq_2 del: be_digits.simps be_value.simps)
qed

lemma u16_from_be_to_be [simp]: "u16_from_be (u16_to_be w ! 0) (u16_to_be w ! 1) = w"
proof -
  obtain a b where ab: "u16_to_be w = [a, b]"
    by (auto simp: u16_to_be_def numeral_2_eq_2)
  have "be_value [a, b] = unat w"
    using be_value_digits [of 2 "unat w"] ab by (simp add: u16_to_be_def)
  with ab show ?thesis by (simp add: u16_from_be_def)
qed

lemma u32_from_be_to_be [simp]: "u32_from_be (u32_to_be w) = w"
  using be_value_digits [of 4 "unat w"] by (simp add: u32_from_be_def u32_to_be_def)

lemma u32_to_be_from_be: "length bs = 4 \<Longrightarrow> u32_to_be (u32_from_be bs) = bs"
proof -
  assume len: "length bs = 4"
  then have "unat (u32_from_be bs) = be_value bs"
    using be_value_less [of bs] by (simp add: u32_from_be_def unat_of_nat)
  with len show ?thesis
    using be_digits_value [of bs] by (simp add: u32_to_be_def del: be_digits.simps)
qed

lemma byte_of_char_of_byte [simp]: "byte_of_char (char_of_byte b) = b"
  by (simp add: byte_of_char_def char_of_byte_def)

lemma of_char_less_256: "(of_char c :: nat) < 256"
  by (metis char_of_char mod_less_divisor of_char_of zero_less_numeral)

lemma char_of_byte_of_char [simp]: "char_of_byte (byte_of_char c) = c"
  using of_char_less_256 [of c] by (simp add: byte_of_char_def char_of_byte_def unat_of_nat)

lemma length_as_bytes [simp, wire]: "length (as_bytes s) = length s"
  by (simp add: as_bytes_def)

lemma as_bytes_inverse [simp]: "map char_of_byte (as_bytes s) = s"
  by (simp add: as_bytes_def comp_def)

lemma as_bytes_map_char [simp]: "as_bytes (map char_of_byte bs) = bs"
  by (simp add: as_bytes_def comp_def)

lemma as_bytes_eq_iff: "as_bytes s = as_bytes t \<longleftrightarrow> s = t"
  by (metis as_bytes_inverse)

text \<open>Masking off the low bits compares the remaining high bits.\<close>

lemma and_not_mask: "a AND NOT (mask n) = push_bit n (drop_bit n a)" for a :: "'a::len word"
  by (rule bit_word_eqI) (auto simp: bit_simps)

lemma and_not_mask_eq:
  fixes a c :: "'a::len word"
  assumes "drop_bit n (push_bit n c) = c"
  shows "a AND NOT (mask n) = push_bit n c \<longleftrightarrow> drop_bit n a = c"
proof
  assume "a AND NOT (mask n) = push_bit n c"
  then have "drop_bit n (push_bit n (drop_bit n a)) = c" by (simp add: and_not_mask assms)
  moreover have "drop_bit n (push_bit n (drop_bit n a)) = drop_bit n a"
    by (rule bit_word_eqI) (auto simp: bit_simps dest: bit_imp_le_length)
  ultimately show "drop_bit n a = c" by simp
qed (simp add: and_not_mask)

end
