(* ===== verification/Std_Net.thy ===== *)
theory Std_Net
  imports Std_Text
begin

text \<open>
  The part of \<open>std::net\<close> the program computes with: IPv4 addresses as their four octets and in
  the order of \<open>Ipv4Addr\<close>,
  IPv6 addresses as their eight segments, \<open>IpAddr\<close>, \<open>SocketAddr\<close> (with the IPv6 flow
  label and scope id, which take part in equality), the address classes, the IPv4-in-IPv6
  conversions and the textual forms.
\<close>

unbundle bit_operations_syntax

section \<open>Addresses\<close>

datatype ipv4_addr = Ipv4 u8 u8 u8 u8

datatype ipv6_addr = Ipv6 u16 u16 u16 u16 u16 u16 u16 u16

datatype ip_addr = IpV4 ipv4_addr | IpV6 ipv6_addr

datatype socket_addr =
    SockV4 ipv4_addr u16
  | SockV6 ipv6_addr u16 u32 u32 \<comment> \<open>address, port, flow label, scope id\<close>

fun octets4 :: "ipv4_addr \<Rightarrow> bytes" where
  "octets4 (Ipv4 a b c d) = [a, b, c, d]"

fun segments :: "ipv6_addr \<Rightarrow> u16 list" where
  "segments (Ipv6 a b c d e f g h) = [a, b, c, d, e, f, g, h]"

definition octets6 :: "ipv6_addr \<Rightarrow> bytes" where
  "octets6 ip = concat (map u16_to_be (segments ip))"

text \<open>\<open>Ipv4Addr::from([u8; 4])\<close> and \<open>Ipv6Addr::from([u8; 16])\<close>.\<close>

definition ipv4_of_octets :: "bytes \<Rightarrow> ipv4_addr" where
  "ipv4_of_octets bs = Ipv4 (bs ! 0) (bs ! 1) (bs ! 2) (bs ! 3)"

definition ipv6_of_octets :: "bytes \<Rightarrow> ipv6_addr" where
  "ipv6_of_octets bs =
     (let seg = (\<lambda>i. u16_from_be (bs ! (2 * i)) (bs ! (2 * i + 1)))
      in Ipv6 (seg 0) (seg 1) (seg 2) (seg 3) (seg 4) (seg 5) (seg 6) (seg 7))"

text \<open>An IPv4 address as a number; \<open>Ipv4Addr\<close> is ordered by it.\<close>

definition ip_num :: "ipv4_addr \<Rightarrow> nat" where
  "ip_num ip = be_value (octets4 ip)"

lemma ip_num_eq: "ip_num ip = ip_num ip' \<longleftrightarrow> ip = ip'"
  using be_digits_value [of "octets4 ip"] be_digits_value [of "octets4 ip'"]
  by (cases ip; cases ip') (auto simp: ip_num_def simp del: be_value.simps)

instantiation ipv4_addr :: linorder
begin

definition less_eq_ipv4_addr :: "ipv4_addr \<Rightarrow> ipv4_addr \<Rightarrow> bool" where
  "ip \<le> ip' \<longleftrightarrow> ip_num ip \<le> ip_num ip'"

definition less_ipv4_addr :: "ipv4_addr \<Rightarrow> ipv4_addr \<Rightarrow> bool" where
  "ip < ip' \<longleftrightarrow> ip_num ip < ip_num ip'"

instance
  by standard (auto simp: less_eq_ipv4_addr_def less_ipv4_addr_def ip_num_eq)

end

definition ipv4_unspecified :: ipv4_addr where
  "ipv4_unspecified = Ipv4 0 0 0 0"

definition ipv6_unspecified :: ipv6_addr where
  "ipv6_unspecified = Ipv6 0 0 0 0 0 0 0 0"

fun sock_ip :: "socket_addr \<Rightarrow> ip_addr" where
  "sock_ip (SockV4 ip p) = IpV4 ip"
| "sock_ip (SockV6 ip p f s) = IpV6 ip"

fun sock_port :: "socket_addr \<Rightarrow> u16" where
  "sock_port (SockV4 ip p) = p"
| "sock_port (SockV6 ip p f s) = p"

text \<open>\<open>SocketAddr::new\<close>.\<close>

fun sock_new :: "ip_addr \<Rightarrow> u16 \<Rightarrow> socket_addr" where
  "sock_new (IpV4 ip) p = SockV4 ip p"
| "sock_new (IpV6 ip) p = SockV6 ip p 0 0"

section \<open>Classes and conversions\<close>

fun is_ipv4 :: "ip_addr \<Rightarrow> bool" where
  "is_ipv4 (IpV4 ip) = True"
| "is_ipv4 (IpV6 ip) = False"

fun v4_is_unspecified :: "ipv4_addr \<Rightarrow> bool" where
  "v4_is_unspecified (Ipv4 a b c d) \<longleftrightarrow> a = 0 \<and> b = 0 \<and> c = 0 \<and> d = 0"

fun v4_is_loopback :: "ipv4_addr \<Rightarrow> bool" where
  "v4_is_loopback (Ipv4 a b c d) \<longleftrightarrow> a = 127"

fun v4_is_link_local :: "ipv4_addr \<Rightarrow> bool" where
  "v4_is_link_local (Ipv4 a b c d) \<longleftrightarrow> a = 169 \<and> b = 254"

fun v4_is_private :: "ipv4_addr \<Rightarrow> bool" where
  "v4_is_private (Ipv4 a b c d) \<longleftrightarrow>
     a = 10 \<or> (a = 172 \<and> u8_between 16 31 b) \<or> (a = 192 \<and> b = 168)"

fun v4_is_multicast :: "ipv4_addr \<Rightarrow> bool" where
  "v4_is_multicast (Ipv4 a b c d) \<longleftrightarrow> u8_between 224 239 a"

definition v6_is_unspecified :: "ipv6_addr \<Rightarrow> bool" where
  "v6_is_unspecified ip \<longleftrightarrow> ip = Ipv6 0 0 0 0 0 0 0 0"

definition v6_is_loopback :: "ipv6_addr \<Rightarrow> bool" where
  "v6_is_loopback ip \<longleftrightarrow> ip = Ipv6 0 0 0 0 0 0 0 1"

fun v6_is_multicast :: "ipv6_addr \<Rightarrow> bool" where
  "v6_is_multicast (Ipv6 a b c d e f g h) \<longleftrightarrow> drop_bit 8 a = 255"

fun ip_is_unspecified :: "ip_addr \<Rightarrow> bool" where
  "ip_is_unspecified (IpV4 ip) = v4_is_unspecified ip"
| "ip_is_unspecified (IpV6 ip) = v6_is_unspecified ip"

fun ip_is_multicast :: "ip_addr \<Rightarrow> bool" where
  "ip_is_multicast (IpV4 ip) = v4_is_multicast ip"
| "ip_is_multicast (IpV6 ip) = v6_is_multicast ip"

definition ipv4_of_segments :: "u16 \<Rightarrow> u16 \<Rightarrow> ipv4_addr" where
  "ipv4_of_segments g h = ipv4_of_octets (u16_to_be g @ u16_to_be h)"

text \<open>\<open>Ipv6Addr::to_ipv4\<close>: mapped and compatible forms.\<close>

fun v6_to_ipv4 :: "ipv6_addr \<Rightarrow> ipv4_addr option" where
  "v6_to_ipv4 (Ipv6 a b c d e f g h) =
     (if a = 0 \<and> b = 0 \<and> c = 0 \<and> d = 0 \<and> e = 0 \<and> (f = 0 \<or> f = 0xFFFF)
      then Some (ipv4_of_segments g h) else None)"

text \<open>\<open>Ipv6Addr::to_ipv4_mapped\<close>: the mapped form only.\<close>

fun v6_to_ipv4_mapped :: "ipv6_addr \<Rightarrow> ipv4_addr option" where
  "v6_to_ipv4_mapped (Ipv6 a b c d e f g h) =
     (if a = 0 \<and> b = 0 \<and> c = 0 \<and> d = 0 \<and> e = 0 \<and> f = 0xFFFF
      then Some (ipv4_of_segments g h) else None)"

text \<open>\<open>IpAddr::to_canonical\<close>.\<close>

fun to_canonical :: "ip_addr \<Rightarrow> ip_addr" where
  "to_canonical (IpV4 ip) = IpV4 ip"
| "to_canonical (IpV6 ip) =
     (case v6_to_ipv4_mapped ip of Some v4 \<Rightarrow> IpV4 v4 | None \<Rightarrow> IpV6 ip)"

section \<open>Textual forms\<close>

fun show_ipv4 :: "ipv4_addr \<Rightarrow> string" where
  "show_ipv4 (Ipv4 a b c d) =
     show_nat (unat a) @ ''.'' @ show_nat (unat b) @ ''.'' @ show_nat (unat c) @ ''.''
     @ show_nat (unat d)"

text \<open>The first longest run of zero segments, as (start, length).\<close>

fun zero_span :: "nat \<Rightarrow> nat \<times> nat \<Rightarrow> nat \<times> nat \<Rightarrow> u16 list \<Rightarrow> nat \<times> nat" where
  "zero_span i longest cur [] = longest"
| "zero_span i longest cur (s # ss) =
     (if s = 0 then
        (let cur' = (if snd cur = 0 then i else fst cur, snd cur + 1)
         in zero_span (i + 1) (if snd cur' > snd longest then cur' else longest) cur' ss)
      else zero_span (i + 1) longest (0, 0) ss)"

fun join_colon :: "string list \<Rightarrow> string" where
  "join_colon [] = []"
| "join_colon [x] = x"
| "join_colon (x # y # xs) = x @ '':'' @ join_colon (y # xs)"

definition show_segments :: "u16 list \<Rightarrow> string" where
  "show_segments ss = join_colon (map (\<lambda>s. show_hex (unat s)) ss)"

definition show_ipv6 :: "ipv6_addr \<Rightarrow> string" where
  "show_ipv6 ip =
     (case v6_to_ipv4_mapped ip of
        Some v4 \<Rightarrow> ''::ffff:'' @ show_ipv4 v4
      | None \<Rightarrow>
          (let ss = segments ip; z = zero_span 0 (0, 0) (0, 0) ss
           in if snd z > 1
              then show_segments (take (fst z) ss) @ ''::'' @ show_segments (drop (fst z + snd z) ss)
              else show_segments ss))"

fun show_ip :: "ip_addr \<Rightarrow> string" where
  "show_ip (IpV4 ip) = show_ipv4 ip"
| "show_ip (IpV6 ip) = show_ipv6 ip"

fun show_sock :: "socket_addr \<Rightarrow> string" where
  "show_sock (SockV4 ip p) = show_ipv4 ip @ '':'' @ show_nat (unat p)"
| "show_sock (SockV6 ip p f s) =
     ''['' @ show_ipv6 ip @ (if s = 0 then [] else ''%'' @ show_nat (unat s)) @ '']:''
     @ show_nat (unat p)"

section \<open>Facts\<close>

lemma length_octets4 [simp, wire]: "length (octets4 ip) = 4"
  by (cases ip) simp

lemma length_octets6 [simp, wire]: "length (octets6 ip) = 16"
  by (cases ip) (simp add: octets6_def)

lemma ipv4_of_octets_octets4 [simp, wire]: "ipv4_of_octets (octets4 ip) = ip"
  by (cases ip) (simp add: ipv4_of_octets_def numeral_2_eq_2 numeral_3_eq_3)

lemma octets4_of_octets [wire]: "length bs = 4 \<Longrightarrow> octets4 (ipv4_of_octets bs) = bs"
  by (auto simp: ipv4_of_octets_def numeral_eq_Suc length_Suc_conv)

lemma u16_to_be_cases: obtains a b where "u16_to_be w = [a, b]" "u16_from_be a b = w"
  using u16_from_be_to_be [of w] by (auto simp: u16_to_be_def numeral_2_eq_2)

lemma ipv6_of_octets_octets6 [simp, wire]: "ipv6_of_octets (octets6 ip) = ip"
proof (cases ip)
  case (Ipv6 a b c d e f g h)
  have two: "u16_to_be w = [u16_to_be w ! 0, u16_to_be w ! 1]" for w
    by (rule u16_to_be_cases [of w]) simp
  have "octets6 ip =
      [u16_to_be a ! 0, u16_to_be a ! 1, u16_to_be b ! 0, u16_to_be b ! 1,
       u16_to_be c ! 0, u16_to_be c ! 1, u16_to_be d ! 0, u16_to_be d ! 1,
       u16_to_be e ! 0, u16_to_be e ! 1, u16_to_be f ! 0, u16_to_be f ! 1,
       u16_to_be g ! 0, u16_to_be g ! 1, u16_to_be h ! 0, u16_to_be h ! 1]"
    by (simp only: octets6_def Ipv6 segments.simps list.map concat.simps append_Nil2)
      (subst two [of a], subst two [of b], subst two [of c], subst two [of d],
       subst two [of e], subst two [of f], subst two [of g], subst two [of h], simp)
  then show ?thesis
    by (simp add: Ipv6 ipv6_of_octets_def Let_def nth_Cons_numeral del: One_nat_def)
qed

lemma octets6_of_octets [wire]: "length bs = 16 \<Longrightarrow> octets6 (ipv6_of_octets bs) = bs"
  by (auto simp: ipv6_of_octets_def octets6_def Let_def numeral_eq_Suc length_Suc_conv)

lemma sock_ip_new [simp]: "sock_ip (sock_new ip p) = ip"
  by (cases ip) simp_all

lemma sock_port_new [simp]: "sock_port (sock_new ip p) = p"
  by (cases ip) simp_all

lemma to_canonical_idem [simp]: "to_canonical (to_canonical ip) = to_canonical ip"
  by (cases ip) (auto split: option.splits)

end
