(* ===== verification/Std_Net_Parse.thy ===== *)
theory Std_Net_Parse
  imports Std_Net
begin

text \<open>
  \<open>FromStr\<close> of \<open>IpAddr\<close> and \<open>SocketAddr\<close>, as the recursive-descent parser of
  \<open>core::net\<close> reads them. Every reader takes the remaining input and returns the value
  with what is left, or \<open>None\<close> with nothing consumed.
\<close>

section \<open>Model\<close>

type_synonym 'a reader = "string \<Rightarrow> ('a \<times> string) option"

definition to_digit :: "nat \<Rightarrow> char \<Rightarrow> nat option" where
  "to_digit radix c =
     (let n = of_char c :: nat;
          d = (if 48 \<le> n \<and> n \<le> 57 then Some (n - 48)
               else if 97 \<le> n \<and> n \<le> 122 then Some (n - 87)
               else if 65 \<le> n \<and> n \<le> 90 then Some (n - 55)
               else None)
      in case d of Some v \<Rightarrow> if v < radix then Some v else None | None \<Rightarrow> None)"

text \<open>All leading digits, as (value, count, rest).\<close>

fun take_digits :: "nat \<Rightarrow> nat \<Rightarrow> nat \<Rightarrow> string \<Rightarrow> nat \<times> nat \<times> string" where
  "take_digits radix acc count [] = (acc, count, [])"
| "take_digits radix acc count (c # cs) =
     (case to_digit radix c of
        None \<Rightarrow> (acc, count, c # cs)
      | Some d \<Rightarrow> take_digits radix (acc * radix + d) (count + 1) cs)"

text \<open>\<open>read_number\<close>: a digit limit (if any), an exclusive bound on the value, and
  whether a leading zero may be followed by more digits.\<close>

definition read_number :: "nat \<Rightarrow> nat option \<Rightarrow> bool \<Rightarrow> nat \<Rightarrow> nat reader" where
  "read_number radix max_digits allow_zero_prefix bound s =
     (let (v, count, rest) = take_digits radix 0 0 s
      in if count = 0 \<or> (case max_digits of Some m \<Rightarrow> count > m | None \<Rightarrow> False)
            \<or> (\<not> allow_zero_prefix \<and> s ! 0 = CHR ''0'' \<and> count > 1) \<or> bound \<le> v
         then None else Some (v, rest))"

fun read_given_char :: "char \<Rightarrow> unit reader" where
  "read_given_char c [] = None"
| "read_given_char c (x # xs) = (if x = c then Some ((), xs) else None)"

definition read_separator :: "char \<Rightarrow> nat \<Rightarrow> 'a reader \<Rightarrow> 'a reader" where
  "read_separator sep i inner s =
     (if i = 0 then inner s
      else (case read_given_char sep s of None \<Rightarrow> None | Some (_, r) \<Rightarrow> inner r))"

definition read_octet :: "nat \<Rightarrow> u8 reader" where
  "read_octet i s =
     map_option (map_prod of_nat id)
       (read_separator CHR ''.'' i (read_number 10 (Some 3) False 256) s)"

definition read_ipv4_addr :: "ipv4_addr reader" where
  "read_ipv4_addr s =
     (case read_octet 0 s of None \<Rightarrow> None | Some (a, s1) \<Rightarrow>
      case read_octet 1 s1 of None \<Rightarrow> None | Some (b, s2) \<Rightarrow>
      case read_octet 2 s2 of None \<Rightarrow> None | Some (c, s3) \<Rightarrow>
      case read_octet 3 s3 of None \<Rightarrow> None | Some (d, s4) \<Rightarrow> Some (Ipv4 a b c d, s4))"

text \<open>\<open>read_groups\<close> for slots \<open>i, i + 1, \<dots>\<close> with \<open>k\<close> slots left: the groups read
  and whether the last two came from an embedded IPv4 address.\<close>

fun read_groups :: "nat \<Rightarrow> nat \<Rightarrow> string \<Rightarrow> u16 list \<times> bool \<times> string" where
  "read_groups i 0 s = ([], False, s)"
| "read_groups i (Suc k) s =
     (case (if k = 0 then None else read_separator CHR '':'' i read_ipv4_addr s) of
        Some (v4, r) \<Rightarrow>
          (let o4 = octets4 v4
           in ([u16_from_be (o4 ! 0) (o4 ! 1), u16_from_be (o4 ! 2) (o4 ! 3)], True, r))
      | None \<Rightarrow>
          (case read_separator CHR '':'' i (read_number 16 (Some 4) True 65536) s of
             None \<Rightarrow> ([], False, s)
           | Some (g, r) \<Rightarrow>
               (let (gs, emb, r') = read_groups (i + 1) k r in (of_nat g # gs, emb, r'))))"

definition ipv6_of_segments :: "u16 list \<Rightarrow> ipv6_addr" where
  "ipv6_of_segments ss =
     Ipv6 (ss ! 0) (ss ! 1) (ss ! 2) (ss ! 3) (ss ! 4) (ss ! 5) (ss ! 6) (ss ! 7)"

definition read_ipv6_addr :: "ipv6_addr reader" where
  "read_ipv6_addr s =
     (let (head, head_ipv4, r) = read_groups 0 8 s
      in if length head = 8 then Some (ipv6_of_segments head, r)
         else if head_ipv4 then None
         else
           (case read_given_char CHR '':'' r of None \<Rightarrow> None | Some (_, r1) \<Rightarrow>
            case read_given_char CHR '':'' r1 of None \<Rightarrow> None | Some (_, r2) \<Rightarrow>
              (let (tail, _, r3) = read_groups 0 (8 - (length head + 1)) r2
               in Some (ipv6_of_segments
                          (head @ replicate (8 - length head - length tail) 0 @ tail), r3))))"

definition read_ip_addr :: "ip_addr reader" where
  "read_ip_addr s =
     (case read_ipv4_addr s of
        Some (v4, r) \<Rightarrow> Some (IpV4 v4, r)
      | None \<Rightarrow> map_option (map_prod IpV6 id) (read_ipv6_addr s))"

definition read_port :: "u16 reader" where
  "read_port s =
     (case read_given_char CHR '':'' s of None \<Rightarrow> None
      | Some (_, r) \<Rightarrow> map_option (map_prod of_nat id) (read_number 10 None True 65536 r))"

definition read_scope_id :: "u32 reader" where
  "read_scope_id s =
     (case read_given_char CHR ''%'' s of None \<Rightarrow> None
      | Some (_, r) \<Rightarrow> map_option (map_prod of_nat id) (read_number 10 None True 4294967296 r))"

definition read_socket_addr_v4 :: "socket_addr reader" where
  "read_socket_addr_v4 s =
     (case read_ipv4_addr s of None \<Rightarrow> None | Some (ip, r) \<Rightarrow>
      case read_port r of None \<Rightarrow> None | Some (p, r') \<Rightarrow> Some (SockV4 ip p, r'))"

definition read_socket_addr_v6 :: "socket_addr reader" where
  "read_socket_addr_v6 s =
     (case read_given_char CHR ''['' s of None \<Rightarrow> None | Some (_, r) \<Rightarrow>
      case read_ipv6_addr r of None \<Rightarrow> None | Some (ip, r1) \<Rightarrow>
      (let (scope, r2) = (case read_scope_id r1 of None \<Rightarrow> (0, r1) | Some sc \<Rightarrow> sc)
       in case read_given_char CHR '']'' r2 of None \<Rightarrow> None | Some (_, r3) \<Rightarrow>
          case read_port r3 of None \<Rightarrow> None | Some (p, r4) \<Rightarrow> Some (SockV6 ip p 0 scope, r4)))"

text \<open>\<open>parse_with\<close>: the whole input must be consumed.\<close>

definition parse_whole :: "'a reader \<Rightarrow> string \<Rightarrow> 'a option" where
  "parse_whole rd s =
     (case rd s of Some (v, r) \<Rightarrow> if r = [] then Some v else None | None \<Rightarrow> None)"

definition parse_ip :: "string \<Rightarrow> ip_addr option" where
  "parse_ip = parse_whole read_ip_addr"

definition parse_sock :: "string \<Rightarrow> socket_addr option" where
  "parse_sock s =
     parse_whole (\<lambda>t. case read_socket_addr_v4 t of Some v \<Rightarrow> Some v | None \<Rightarrow> read_socket_addr_v6 t) s"

section \<open>Texts that are no address\<close>

lemma read_number_no_digit: "to_digit radix c = None \<Longrightarrow> read_number radix md z bound (c # cs) = None"
  by (simp add: read_number_def)

text \<open>A text that starts with a letter after \<open>f\<close> is no address.\<close>

lemma parse_not_address:
  assumes "to_digit 16 c = None" and "to_digit 10 c = None" and "c \<notin> {CHR '':'', CHR ''[''}"
  shows "parse_ip (c # cs) = None" "parse_sock (c # cs) = None"
proof -
  have v4: "read_ipv4_addr (c # cs) = None"
    using read_number_no_digit [OF assms(2)] by (simp add: read_ipv4_addr_def read_octet_def read_separator_def)
  have "read_groups 0 (Suc k) (c # cs) = ([], False, c # cs)" for k
    using assms(3) read_number_no_digit [OF assms(1)] v4 by (simp add: read_separator_def)
  from this [of 7] have groups: "read_groups 0 8 (c # cs) = ([], False, c # cs)" by simp
  have v6: "read_ipv6_addr (c # cs) = None"
    using assms(3) by (simp add: read_ipv6_addr_def groups)
  show "parse_ip (c # cs) = None" by (simp add: parse_ip_def parse_whole_def read_ip_addr_def v4 v6)
  show "parse_sock (c # cs) = None" using assms(3)
    by (simp add: parse_sock_def parse_whole_def read_socket_addr_v4_def read_socket_addr_v6_def v4)
qed

section \<open>Reading back a printed IPv4 address\<close>

lemma to_digit_digit_char: "d < 10 \<Longrightarrow> to_digit 10 (digit_char d) = Some d"
  by (simp add: to_digit_def digit_char_def)

definition stops :: "string \<Rightarrow> bool" where
  "stops s \<longleftrightarrow> (case s of [] \<Rightarrow> True | c # _ \<Rightarrow> to_digit 10 c = None)"

lemma take_digits_stop: "stops s \<Longrightarrow> take_digits 10 acc n s = (acc, n, s)"
  by (cases s) (auto simp: stops_def)

lemma show_base_ten:
  "n < 10 \<Longrightarrow> show_base 10 n = [digit_char n]"
  "\<not> n < 10 \<Longrightarrow> show_base 10 n = show_base 10 (n div 10) @ [digit_char (n mod 10)]"
  by (subst show_base.simps, simp)+

lemma take_digits_base:
  "take_digits 10 a c (show_base 10 n @ t) =
     take_digits 10 (a * 10 ^ length (show_base 10 n) + n) (c + length (show_base 10 n)) t"
proof (induction n arbitrary: t rule: less_induct)
  case (less n)
  show ?case
  proof (cases "n < 10")
    case True
    then show ?thesis by (simp add: show_base_ten to_digit_digit_char)
  next
    case False
    then have "n div 10 < n" by simp
    from less.IH [OF this, of "digit_char (n mod 10) # t"] False
    show ?thesis by (simp add: show_base_ten to_digit_digit_char algebra_simps)
  qed
qed

lemma length_show_base: "n < 10 ^ Suc k \<Longrightarrow> length (show_base 10 n) \<le> Suc k"
proof (induction k arbitrary: n)
  case 0
  then show ?case by (simp add: show_base_ten)
next
  case (Suc k)
  show ?case
  proof (cases "n < 10")
    case True
    then show ?thesis by (simp add: show_base_ten)
  next
    case False
    have "n div 10 < 10 ^ Suc k" using Suc.prems by (simp add: div_less_iff_less_mult)
    then have "length (show_base 10 (n div 10)) \<le> Suc k" by (rule Suc.IH)
    with False show ?thesis by (simp add: show_base_ten)
  qed
qed

lemma show_base_leading: "show_base 10 n ! 0 = CHR ''0'' \<Longrightarrow> n = 0"
proof (induction n rule: less_induct)
  case (less n)
  show ?case
  proof (cases "n < 10")
    case True
    with less.prems have "digit_char n = CHR ''0''" by (simp add: show_base_ten)
    moreover have "to_digit 10 CHR ''0'' = Some 0" by (simp add: to_digit_def)
    ultimately show ?thesis using True to_digit_digit_char [of n] by simp
  next
    case False
    then have "show_base 10 (n div 10) ! 0 = CHR ''0''"
      using less.prems by (simp add: show_base_ten nth_append)
    then have "n div 10 = 0" using False by (intro less.IH) auto
    with False show ?thesis by simp
  qed
qed

lemma read_number_show:
  assumes "stops rest" and "n < 10 ^ Suc k" and "n < bound"
  shows "read_number 10 (Some (Suc k)) False bound (show_nat n @ rest) = Some (n, rest)"
proof -
  have td: "take_digits 10 0 0 (show_nat n @ rest) = (n, length (show_nat n), rest)"
    using take_digits_base [of 0 0 n rest] take_digits_stop [OF assms(1)] by (simp add: show_nat_def)
  have "(show_nat n @ rest) ! 0 = CHR ''0'' \<Longrightarrow> length (show_nat n) \<le> 1"
    using show_base_leading [of n] by (auto simp: show_nat_def nth_append show_base_ten)
  with td length_show_base [OF assms(2)] assms(3) show ?thesis
    by (auto simp: read_number_def Let_def show_nat_def split: if_splits)
qed

lemma stops_simps: "stops []" "stops (CHR ''.'' # s)" "stops (CHR '':'' # s)"
  by (simp_all add: stops_def to_digit_def)

lemma read_octet_show:
  assumes "stops rest"
  shows "read_octet 0 (show_nat (unat (b :: u8)) @ rest) = Some (b, rest)"
    and "0 < i \<Longrightarrow> read_octet i (CHR ''.'' # show_nat (unat b) @ rest) = Some (b, rest)"
proof -
  have "unat b < 10 ^ Suc 2" using unat_u8_less [of b] by (simp del: unat_u8_less)
  then have "read_number 10 (Some (Suc 2)) False 256 (show_nat (unat b) @ rest) = Some (unat b, rest)"
    using assms by (intro read_number_show) simp_all
  then show "read_octet 0 (show_nat (unat b) @ rest) = Some (b, rest)"
    and "0 < i \<Longrightarrow> read_octet i (CHR ''.'' # show_nat (unat b) @ rest) = Some (b, rest)"
    by (simp_all add: read_octet_def read_separator_def)
qed

lemma read_ipv4_show: "stops rest \<Longrightarrow> read_ipv4_addr (show_ipv4 ip @ rest) = Some (ip, rest)"
  by (cases ip) (simp add: read_ipv4_addr_def read_octet_show stops_simps)

lemma parse_ip_show_ipv4: "parse_ip (show_ipv4 ip) = Some (IpV4 ip)"
  using read_ipv4_show [of "[]" ip]
  by (simp add: parse_ip_def parse_whole_def read_ip_addr_def stops_simps)

end
