(* ===== verification/Errors.thy ===== *)
theory Errors
  imports Prelude
begin

text \<open>
  \<open>src/error.rs\<close>: the SOCKS5 failure conditions, their RFC 1928 reply codes, and the
  mapping from I/O errors. \<open>io_error_kind\<close> lists the kinds of \<open>std::io::ErrorKind\<close> the
  program distinguishes; \<open>OtherKind\<close> stands for every kind it does not name.
\<close>

datatype socks5_error =
    General
  | NotAllowed
  | NetworkUnreachable
  | HostUnreachable
  | ConnectionRefused
  | TtlExpired
  | CommandNotSupported
  | AddressNotSupported

datatype io_error_kind =
    IoNetworkUnreachable
  | IoHostUnreachable
  | IoConnectionRefused
  | IoTimedOut
  | IoAddrNotAvailable
  | IoAddrInUse
  | IoPermissionDenied
  | IoNotFound
  | IoAlreadyExists
  | IoWouldBlock
  | IoUnexpectedEof
  | OtherKind

text \<open>An \<open>std::io::Error\<close> with its kind and its text.\<close>

datatype io_error = IoError io_error_kind string

fun reply_code :: "socks5_error \<Rightarrow> u8" where
  "reply_code General = 0x01"
| "reply_code NotAllowed = 0x02"
| "reply_code NetworkUnreachable = 0x03"
| "reply_code HostUnreachable = 0x04"
| "reply_code ConnectionRefused = 0x05"
| "reply_code TtlExpired = 0x06"
| "reply_code CommandNotSupported = 0x07"
| "reply_code AddressNotSupported = 0x08"

fun from_io :: "io_error_kind \<Rightarrow> socks5_error" where
  "from_io IoNetworkUnreachable = NetworkUnreachable"
| "from_io IoHostUnreachable = HostUnreachable"
| "from_io IoConnectionRefused = ConnectionRefused"
| "from_io IoTimedOut = TtlExpired"
| "from_io IoAddrNotAvailable = HostUnreachable"
| "from_io _ = General"

lemma reply_code_inj: "reply_code e = reply_code f \<longleftrightarrow> e = f"
  by (cases e; cases f) simp_all

lemma reply_code_range: "1 \<le> unat (reply_code e) \<and> unat (reply_code e) \<le> 8"
  by (cases e) simp_all

lemma reply_code_not_success: "reply_code e \<noteq> 0"
  by (cases e) simp_all

lemma reply_code_surj: "1 \<le> unat c \<Longrightarrow> unat c \<le> 8 \<Longrightarrow> \<exists>e. reply_code e = c"
proof -
  assume c: "1 \<le> unat c" "unat c \<le> 8"
  have c': "c = of_nat (unat c)" by simp
  from c consider "unat c = 1" | "unat c = 2" | "unat c = 3" | "unat c = 4"
    | "unat c = 5" | "unat c = 6" | "unat c = 7" | "unat c = 8" by linarith
  then show ?thesis
    by cases (metis c' of_nat_numeral of_nat_1 reply_code.simps)+
qed

text \<open>The failure conditions and the reply codes 0x01 to 0x08 correspond one to one.\<close>

theorem reply_codes_exact: "bij_betw reply_code UNIV {c. 1 \<le> unat c \<and> unat c \<le> 8}"
  unfolding bij_betw_def
proof
  show "inj reply_code" by (simp add: inj_def reply_code_inj)
  show "range reply_code = {c. 1 \<le> unat c \<and> unat c \<le> 8}"
    using reply_code_range reply_code_surj by fastforce
qed

end
