(* ===== verification/Config.thy ===== *)
theory Config
  imports Std_Net_Parse Errors
begin

text \<open>
  \<open>src/config.rs\<close>: the configuration records with their defaults, the parsers of the
  values that are not plain TOML scalars (port range, advertised host, DNS servers), the
  egress policy, and loading with command-line overrides. Reading the file and the TOML
  deserializer are parameters of \<open>load\<close>.
\<close>

unbundle bit_operations_syntax

section \<open>Records\<close>

datatype auth_method = AuthNone | AuthPassword

record user =
  username :: string
  password :: string

record auth_config =
  auth_method :: auth_method
  users :: "user list"

record dns_config =
  servers :: "socket_addr list"

record admin_config =
  enabled :: bool
  socket :: "string option"

record timeouts_config =
  handshake_ms :: u64
  connect_ms :: u64
  tcp_idle_ms :: u64
  udp_idle_ms :: u64

record port_range =
  range_start :: u16
  range_end :: u16

datatype advertise_host =
    AdvertiseIp ip_addr
  | AdvertiseDomain string

record udp_config =
  port_range :: "port_range option"
  advertise :: "advertise_host option"

record limits_config =
  max_connections :: "usize option"
  max_per_ip :: "usize option"
  udp_max_targets :: usize
  udp_rate_pps :: "u32 option"

record egress =
  block_loopback :: bool
  block_link_local :: bool
  block_private :: bool

record config =
  listen :: string
  auth :: auth_config
  timeouts :: timeouts_config
  limits :: limits_config
  udp :: udp_config
  dns :: dns_config
  admin :: admin_config
  cfg_egress :: egress

section \<open>Defaults\<close>

definition default_true :: bool where "default_true = True"

definition default_handshake_ms :: u64 where "default_handshake_ms = 10000"

definition default_udp_max_targets :: usize where "default_udp_max_targets = 1024"

definition admin_default :: admin_config where
  "admin_default = \<lparr>enabled = True, socket = None\<rparr>"

definition auth_default :: auth_config where
  "auth_default = \<lparr>auth_method = AuthNone, users = []\<rparr>"

definition timeouts_default :: timeouts_config where
  "timeouts_default =
     \<lparr>handshake_ms = default_handshake_ms, connect_ms = 10000, tcp_idle_ms = 300000,
      udp_idle_ms = 60000\<rparr>"

definition limits_default :: limits_config where
  "limits_default =
     \<lparr>max_connections = None, max_per_ip = None, udp_max_targets = default_udp_max_targets,
      udp_rate_pps = None\<rparr>"

definition egress_default :: egress where
  "egress_default = \<lparr>block_loopback = True, block_link_local = True, block_private = True\<rparr>"

definition permissive :: egress where
  "permissive = \<lparr>block_loopback = False, block_link_local = False, block_private = False\<rparr>"

definition DEFAULT_ADMIN_SOCKET :: string where
  "DEFAULT_ADMIN_SOCKET = ''/run/next-socks5/admin.sock''"

definition default_config :: config where
  "default_config =
     \<lparr>listen = ''127.0.0.1:1080'', auth = auth_default, timeouts = timeouts_default,
      limits = limits_default, udp = \<lparr>port_range = None, advertise = None\<rparr>,
      dns = \<lparr>servers = []\<rparr>, admin = admin_default, cfg_egress = egress_default\<rparr>"

section \<open>Value parsers\<close>

text \<open>\<open>PortRange::parse\<close>; the error strings as their reasons.\<close>

datatype port_range_error =
    ExpectedStartEnd string
  | InvalidStartPort string
  | InvalidEndPort string
  | StartPortZero
  | StartAfterEnd u16 u16

definition port_range_parse :: "string \<Rightarrow> (port_range, port_range_error) result" where
  "port_range_parse s =
     (case split_once CHR ''-'' s of
        None \<Rightarrow> Inl (ExpectedStartEnd s)
      | Some (st, en) \<Rightarrow>
          (case parse_u16 (trim st) of
             None \<Rightarrow> Inl (InvalidStartPort st)
           | Some start \<Rightarrow>
               (case parse_u16 (trim en) of
                  None \<Rightarrow> Inl (InvalidEndPort en)
                | Some e \<Rightarrow>
                    if start = 0 then Inl StartPortZero
                    else if e < start then Inl (StartAfterEnd start e)
                    else Inr \<lparr>range_start = start, range_end = e\<rparr>)))"

text \<open>\<open>is_valid_dns_name\<close>: the checks on one label, then on the whole name.\<close>

definition valid_dns_label :: "string \<Rightarrow> bool" where
  "valid_dns_label label \<longleftrightarrow>
     label \<noteq> [] \<and> length label \<le> 63 \<and>
     (label \<noteq> [] \<and> is_ascii_alphanumeric (hd label)) \<and>
     (label \<noteq> [] \<and> is_ascii_alphanumeric (last label)) \<and>
     (\<forall>c \<in> set label. is_ascii_alphanumeric c \<or> c = CHR ''-'')"

definition is_valid_dns_name :: "string \<Rightarrow> bool" where
  "is_valid_dns_name s =
     (let name = (case strip_suffix CHR ''.'' s of Some n \<Rightarrow> n | None \<Rightarrow> s)
      in name \<noteq> [] \<and> length name \<le> 253 \<and>
         (\<exists>c \<in> set (last (split_on CHR ''.'' name)). is_ascii_alphabetic c) \<and>
         (\<forall>label \<in> set (split_on CHR ''.'' name). valid_dns_label label))"

definition parse_advertise_host :: "string \<Rightarrow> (advertise_host, string) result" where
  "parse_advertise_host s =
     (case parse_ip s of
        Some ip \<Rightarrow> Inr (AdvertiseIp ip)
      | None \<Rightarrow>
          (case parse_sock s of
             Some sa \<Rightarrow> Inr (AdvertiseIp (sock_ip sa))
           | None \<Rightarrow>
               if is_valid_dns_name s then Inr (AdvertiseDomain s) else Inl s))"

text \<open>The closure of \<open>deserialize_dns_servers\<close>, and the collecting of its results.\<close>

datatype dns_server_error =
    InvalidDnsServer string
  | ScopedDnsServer

definition parse_dns_server :: "string \<Rightarrow> (socket_addr, dns_server_error) result" where
  "parse_dns_server value =
     (case (case parse_ip value of
              Some ip \<Rightarrow> Some (sock_new ip 53)
            | None \<Rightarrow> parse_sock value) of
        None \<Rightarrow> Inl (InvalidDnsServer value)
      | Some a \<Rightarrow>
          if (case a of SockV6 _ _ _ scope \<Rightarrow> scope \<noteq> 0 | SockV4 _ _ \<Rightarrow> False)
          then Inl ScopedDnsServer
          else if sock_port a = 0 \<or> ip_is_unspecified (sock_ip a) \<or> ip_is_multicast (sock_ip a)
          then Inl (InvalidDnsServer value)
          else Inr a)"

fun deserialize_dns_servers :: "string list \<Rightarrow> (socket_addr list, dns_server_error) result" where
  "deserialize_dns_servers [] = Inr []"
| "deserialize_dns_servers (v # vs) =
     (case parse_dns_server v of
        Inl e \<Rightarrow> Inl e
      | Inr a \<Rightarrow>
          (case deserialize_dns_servers vs of Inl e \<Rightarrow> Inl e | Inr as \<Rightarrow> Inr (a # as)))"

text \<open>The deserializers of a port range and of \<open>[udp].advertise\<close>, on what \<open>String::deserialize\<close> makes
  of the value; the error of either stage.\<close>

datatype ('p, 'e) de_error = DeString 'p | DeCustom 'e

definition deserialize_port_range ::
  "(string, 'p) result \<Rightarrow> (port_range, ('p, port_range_error) de_error) result" where
  "deserialize_port_range v =
     (case v of
        Inl e \<Rightarrow> Inl (DeString e)
      | Inr s \<Rightarrow> (case port_range_parse s of Inl e \<Rightarrow> Inl (DeCustom e) | Inr r \<Rightarrow> Inr r))"

definition de_advertise_host ::
  "(string, 'p) result \<Rightarrow> (advertise_host option, ('p, string) de_error) result" where
  "de_advertise_host v =
     (case v of
        Inl e \<Rightarrow> Inl (DeString e)
      | Inr s \<Rightarrow> (case parse_advertise_host s of Inl e \<Rightarrow> Inl (DeCustom e) | Inr h \<Rightarrow> Inr (Some h)))"

section \<open>Egress policy\<close>

text \<open>\<open>Egress::is_blocked\<close>: the IPv4 rules, then the whole function.\<close>

definition v4_blocked :: "egress \<Rightarrow> ipv4_addr \<Rightarrow> bool" where
  "v4_blocked e v4 =
     (let oct = octets4 v4
      in v4_is_unspecified v4
         \<or> (block_loopback e \<and> (v4_is_loopback v4 \<or> oct ! 0 = 0))
         \<or> (block_link_local e \<and> v4_is_link_local v4)
         \<or> (block_private e \<and> (v4_is_private v4 \<or> (oct ! 0 = 100 \<and> (oct ! 1 AND 0xC0) = 64))))"

fun is_blocked :: "egress \<Rightarrow> ip_addr \<Rightarrow> bool" where
  "is_blocked e (IpV4 v4) = v4_blocked e v4"
| "is_blocked e (IpV6 v6) =
     (if v6_is_unspecified v6
         \<or> (block_loopback e \<and> v6_is_loopback v6)
         \<or> (block_link_local e \<and> (segments v6 ! 0 AND 0xFFC0) = 0xFE80)
         \<or> (block_private e \<and> (segments v6 ! 0 AND 0xFE00) = 0xFC00)
      then True
      else (case v6_to_ipv4 v6 of Some v4 \<Rightarrow> v4_blocked e v4 | None \<Rightarrow> False))"

section \<open>Command line and loading\<close>

datatype cli_command = Serve | Attach "string option"

record cli =
  cli_command :: "cli_command option"
  cli_config :: "string option"
  cli_listen :: "string option"
  no_tui :: bool
  no_admin :: bool
  admin_socket :: "string option"
  mock :: bool

datatype 'p config_error =
    ConfigIo io_error_kind
  | ConfigParse 'p

definition apply_overrides :: "config \<Rightarrow> cli \<Rightarrow> config" where
  "apply_overrides cfg c =
     (let cfg1 = (case cli_listen c of Some l \<Rightarrow> cfg\<lparr>listen := l\<rparr> | None \<Rightarrow> cfg);
          cfg2 = (if no_admin c then cfg1\<lparr>admin := (admin cfg1)\<lparr>enabled := False\<rparr>\<rparr> else cfg1)
      in case admin_socket c of
           Some sock \<Rightarrow> cfg2\<lparr>admin := (admin cfg2)\<lparr>socket := Some sock\<rparr>\<rparr>
         | None \<Rightarrow> cfg2)"

text \<open>\<open>read_to_string\<close> is \<open>std::fs::read_to_string\<close>, \<open>from_toml_str\<close> the TOML deserializer.\<close>

definition load ::
  "(string \<Rightarrow> (string, io_error_kind) result) \<Rightarrow> (string \<Rightarrow> (config, 'p) result) \<Rightarrow> cli
   \<Rightarrow> (config, 'p config_error) result" where
  "load read_to_string from_toml_str c =
     (case (case cli_config c of
              Some path \<Rightarrow>
                (case read_to_string path of
                   Inl e \<Rightarrow> Inl (ConfigIo e)
                 | Inr contents \<Rightarrow>
                     (case from_toml_str contents of Inl e \<Rightarrow> Inl (ConfigParse e) | Inr cfg \<Rightarrow> Inr cfg))
            | None \<Rightarrow> Inr default_config) of
        Inl e \<Rightarrow> Inl e
      | Inr cfg \<Rightarrow> Inr (apply_overrides cfg c))"

section \<open>The egress policy as address blocks\<close>

text \<open>Membership in a CIDR block.\<close>

definition in_cidr :: "ipv4_addr \<Rightarrow> nat \<Rightarrow> ipv4_addr \<Rightarrow> bool" where
  "in_cidr base len ip \<longleftrightarrow> ip_num ip div 2 ^ (32 - len) = ip_num base div 2 ^ (32 - len)"

text \<open>The blocks each switch of the policy covers.\<close>

definition loopback_blocks :: "(ipv4_addr \<times> nat) list" where
  "loopback_blocks = [(Ipv4 0 0 0 0, 8), (Ipv4 127 0 0 0, 8)]"

definition link_local_blocks :: "(ipv4_addr \<times> nat) list" where
  "link_local_blocks = [(Ipv4 169 254 0 0, 16)]"

definition private_blocks :: "(ipv4_addr \<times> nat) list" where
  "private_blocks =
     [(Ipv4 10 0 0 0, 8), (Ipv4 172 16 0 0, 12), (Ipv4 192 168 0 0, 16), (Ipv4 100 64 0 0, 10)]"

definition in_blocks :: "(ipv4_addr \<times> nat) list \<Rightarrow> ipv4_addr \<Rightarrow> bool" where
  "in_blocks bs ip \<longleftrightarrow> (\<exists>b \<in> set bs. in_cidr (fst b) (snd b) ip)"

text \<open>A block is an interval in the order of \<open>Ipv4Addr\<close>.\<close>

lemma div_eq_between:
  fixes n w q :: nat
  assumes "0 < w"
  shows "n div w = q \<longleftrightarrow> q * w \<le> n \<and> n < Suc q * w"
proof -
  have "n div w = q \<longleftrightarrow> q \<le> n div w \<and> n div w < Suc q" by linarith
  also have "\<dots> \<longleftrightarrow> q * w \<le> n \<and> n < Suc q * w"
    using assms by (simp only: less_eq_div_iff_mult_less_eq div_less_iff_less_mult)
  finally show ?thesis .
qed

lemma in_cidr_interval:
  assumes "ip_num lo = ip_num base div 2 ^ (32 - len) * 2 ^ (32 - len)"
    and "ip_num hi = ip_num lo + (2 ^ (32 - len) - 1)"
  shows "in_cidr base len ip \<longleftrightarrow> ip \<in> {lo..hi}"
proof -
  have "0 < (2 :: nat) ^ (32 - len)" by simp
  then show ?thesis
    using assms div_eq_between [of "2 ^ (32 - len)" "ip_num ip" "ip_num base div 2 ^ (32 - len)"]
    unfolding in_cidr_def less_eq_ipv4_addr_def atLeastAtMost_iff mult_Suc by linarith
qed

lemma block_intervals:
  "in_blocks loopback_blocks ip \<longleftrightarrow>
     ip \<in> {Ipv4 0 0 0 0 .. Ipv4 0 255 255 255} \<union> {Ipv4 127 0 0 0 .. Ipv4 127 255 255 255}"
  "in_blocks link_local_blocks ip \<longleftrightarrow> ip \<in> {Ipv4 169 254 0 0 .. Ipv4 169 254 255 255}"
  "in_blocks private_blocks ip \<longleftrightarrow>
     ip \<in> {Ipv4 10 0 0 0 .. Ipv4 10 255 255 255} \<union> {Ipv4 172 16 0 0 .. Ipv4 172 31 255 255} \<union>
          {Ipv4 192 168 0 0 .. Ipv4 192 168 255 255} \<union> {Ipv4 100 64 0 0 .. Ipv4 100 127 255 255}"
  using in_cidr_interval [of "Ipv4 0 0 0 0" "Ipv4 0 0 0 0" 8 "Ipv4 0 255 255 255" ip]
    in_cidr_interval [of "Ipv4 127 0 0 0" "Ipv4 127 0 0 0" 8 "Ipv4 127 255 255 255" ip]
    in_cidr_interval [of "Ipv4 169 254 0 0" "Ipv4 169 254 0 0" 16 "Ipv4 169 254 255 255" ip]
    in_cidr_interval [of "Ipv4 10 0 0 0" "Ipv4 10 0 0 0" 8 "Ipv4 10 255 255 255" ip]
    in_cidr_interval [of "Ipv4 172 16 0 0" "Ipv4 172 16 0 0" 12 "Ipv4 172 31 255 255" ip]
    in_cidr_interval [of "Ipv4 192 168 0 0" "Ipv4 192 168 0 0" 16 "Ipv4 192 168 255 255" ip]
    in_cidr_interval [of "Ipv4 100 64 0 0" "Ipv4 100 64 0 0" 10 "Ipv4 100 127 255 255" ip]
  by (simp_all add: in_blocks_def loopback_blocks_def link_local_blocks_def private_blocks_def ip_num_def
      del: atLeastAtMost_iff)

lemma u8_eq_unat: "a = b \<longleftrightarrow> unat a = unat b" for a b :: u8
  by (rule word_eq_iff_unsigned)

lemma ip_num_shift:
  "ip_num (Ipv4 a b c d) div 16777216 = unat a"
  "ip_num (Ipv4 a b c d) div 65536 = unat a * 256 + unat b"
  "ip_num (Ipv4 a b c d) div 1048576 = unat a * 16 + unat b div 16"
  "ip_num (Ipv4 a b c d) div 4194304 = unat a * 4 + unat b div 64"
  using unat_u8_less [of b] unat_u8_less [of c] unat_u8_less [of d]
  by (simp_all add: ip_num_def del: unat_u8_less)

lemma base_split:
  fixes x y q r b :: nat
  assumes "q < b" "r < b"
  shows "x * b + q = y * b + r \<longleftrightarrow> x = y \<and> q = r"
proof
  assume eq: "x * b + q = y * b + r"
  have "(x * b + q) div b = x" "(y * b + r) div b = y" using assms by simp_all
  with eq show "x = y \<and> q = r" by simp
qed simp

lemma cgnat_bits: "(b AND 0xC0) = (64 :: u8) \<longleftrightarrow> unat b div 64 = 1"
proof -
  have "(b AND NOT (mask 6)) = push_bit 6 (1 :: u8) \<longleftrightarrow> drop_bit 6 b = 1"
    by (rule and_not_mask_eq) simp
  moreover have "NOT (mask 6) = (0xC0 :: u8)" "push_bit 6 (1 :: u8) = 64"
    by (simp_all add: mask_numeral)
  moreover have "drop_bit 6 b = 1 \<longleftrightarrow> unat b div 64 = 1"
    by (simp add: u8_eq_unat drop_bit_eq_div unat_div_distrib)
  ultimately show ?thesis by simp
qed

lemma v4_blocked_blocks:
  "v4_blocked e ip \<longleftrightarrow>
     ip = Ipv4 0 0 0 0
     \<or> (block_loopback e \<and> in_blocks loopback_blocks ip)
     \<or> (block_link_local e \<and> in_blocks link_local_blocks ip)
     \<or> (block_private e \<and> in_blocks private_blocks ip)"
proof (cases ip)
  case (Ipv4 a b c d)
  have lo: "in_blocks loopback_blocks ip \<longleftrightarrow> a = 127 \<or> a = 0"
    by (auto simp: Ipv4 in_blocks_def loopback_blocks_def in_cidr_def ip_num_shift u8_eq_unat)
  have ll: "in_blocks link_local_blocks ip \<longleftrightarrow> a = 169 \<and> b = 254"
    using base_split [of "unat b" 256 254 "unat a" 169]
    by (simp add: Ipv4 in_blocks_def link_local_blocks_def in_cidr_def ip_num_shift u8_eq_unat)
  have twelve: "unat a * 16 + unat b div 16 = 172 * 16 + 1 \<longleftrightarrow> unat a = 172 \<and> u8_between 16 31 b"
    using base_split [of "unat b div 16" 16 1 "unat a" 172] unat_u8_less [of b]
    by (simp add: u8_between_def del: unat_u8_less) linarith
  have ten: "unat a * 4 + unat b div 64 = 100 * 4 + 1 \<longleftrightarrow> unat a = 100 \<and> unat b div 64 = 1"
    using base_split [of "unat b div 64" 4 1 "unat a" 100] unat_u8_less [of b]
    by (simp del: unat_u8_less)
  have pr: "in_blocks private_blocks ip \<longleftrightarrow>
      a = 10 \<or> (a = 172 \<and> u8_between 16 31 b) \<or> (a = 192 \<and> b = 168)
      \<or> (a = 100 \<and> (b AND 0xC0) = 64)"
    using base_split [of "unat b" 256 168 "unat a" 192] twelve ten cgnat_bits [of b]
    by (simp add: Ipv4 in_blocks_def private_blocks_def in_cidr_def ip_num_shift u8_eq_unat)
  have "v4_blocked e ip \<longleftrightarrow> (a = 0 \<and> b = 0 \<and> c = 0 \<and> d = 0)
      \<or> (block_loopback e \<and> (a = 127 \<or> a = 0)) \<or> (block_link_local e \<and> a = 169 \<and> b = 254)
      \<or> (block_private e \<and> (a = 10 \<or> (a = 172 \<and> u8_between 16 31 b) \<or> (a = 192 \<and> b = 168)
          \<or> (a = 100 \<and> (b AND 0xC0) = 64)))"
    unfolding v4_blocked_def Let_def Ipv4 by simp
  moreover have "ip = Ipv4 0 0 0 0 \<longleftrightarrow> a = 0 \<and> b = 0 \<and> c = 0 \<and> d = 0" by (simp add: Ipv4)
  ultimately show ?thesis unfolding lo ll pr by argo
qed

lemma blocked_v4_zero: "v4_blocked e (Ipv4 0 0 0 0)"
  by (simp add: v4_blocked_def)

text \<open>Native IPv6 classes by the high bits of the first segment.\<close>

lemma u16_eq_unat: "a = b \<longleftrightarrow> unat a = unat b" for a b :: u16
  by (rule word_eq_iff_unsigned)

lemma fe80_bits: "(s AND 0xFFC0) = (0xFE80 :: u16) \<longleftrightarrow> unat s div 64 = 0xFE80 div 64"
proof -
  have "(s AND NOT (mask 6)) = push_bit 6 (1018 :: u16) \<longleftrightarrow> drop_bit 6 s = 1018"
    by (rule and_not_mask_eq) simp
  moreover have "NOT (mask 6) = (0xFFC0 :: u16)" "push_bit 6 (1018 :: u16) = 0xFE80"
    by (simp_all add: mask_numeral)
  moreover have "drop_bit 6 s = 1018 \<longleftrightarrow> unat s div 64 = 1018"
    by (simp add: u16_eq_unat drop_bit_eq_div unat_div_distrib)
  ultimately show ?thesis by simp
qed

lemma fc00_bits: "(s AND 0xFE00) = (0xFC00 :: u16) \<longleftrightarrow> unat s div 512 = 0xFC00 div 512"
proof -
  have "(s AND NOT (mask 9)) = push_bit 9 (126 :: u16) \<longleftrightarrow> drop_bit 9 s = 126"
    by (rule and_not_mask_eq) simp
  moreover have "NOT (mask 9) = (0xFE00 :: u16)" "push_bit 9 (126 :: u16) = 0xFC00"
    by (simp_all add: mask_numeral)
  moreover have "drop_bit 9 s = 126 \<longleftrightarrow> unat s div 512 = 126"
    by (simp add: u16_eq_unat drop_bit_eq_div unat_div_distrib)
  ultimately show ?thesis by simp
qed

lemma blocked_mapped: "v6_to_ipv4_mapped v6 = Some v4 \<Longrightarrow> is_blocked e (IpV6 v6) = is_blocked e (IpV4 v4)"
  by (cases v6) (auto simp: v6_is_unspecified_def v6_is_loopback_def split: if_splits)

lemma blocked_canonical: "is_blocked e (to_canonical ip) = is_blocked e ip"
proof (cases ip)
  case (IpV6 v6)
  then show ?thesis using blocked_mapped [of v6]
    by (cases "v6_to_ipv4_mapped v6") (simp_all del: is_blocked.simps)
qed simp

lemma blocked_mono:
  assumes "block_loopback e \<longrightarrow> block_loopback f" "block_link_local e \<longrightarrow> block_link_local f"
    "block_private e \<longrightarrow> block_private f"
  shows "is_blocked e ip \<Longrightarrow> is_blocked f ip"
proof (cases ip)
  case (IpV4 v4)
  then show "is_blocked e ip \<Longrightarrow> is_blocked f ip"
    using assms by (auto simp: v4_blocked_blocks)
next
  case (IpV6 v6)
  then show "is_blocked e ip \<Longrightarrow> is_blocked f ip"
    using assms by (auto simp: v4_blocked_blocks split: if_splits option.splits)
qed

section \<open>Value parsers\<close>

lemma port_range_parse_sound:
  "port_range_parse s = Inr r \<Longrightarrow> 0 < range_start r \<and> range_start r \<le> range_end r"
  by (auto simp: port_range_parse_def word_neq_0_conv split: option.splits if_splits)

lemma strip_one_None: "s \<noteq> [] \<Longrightarrow> (\<forall>w \<in> set ws. w \<noteq> [] \<and> hd w \<noteq> hd s) \<Longrightarrow> strip_one ws s = None"
proof (induction ws)
  case Nil
  then show ?case by simp
next
  case (Cons w ws)
  then have "take (length w) s \<noteq> w" by (cases s; cases w) auto
  with Cons show ?case by simp
qed

definition digit_string :: "string \<Rightarrow> bool" where
  "digit_string s \<longleftrightarrow> s \<noteq> [] \<and> list_all is_ascii_digit s"

lemma digit_string_ends: "digit_string s \<Longrightarrow> is_ascii_digit (hd s) \<and> is_ascii_digit (hd (rev s))"
  by (auto simp: digit_string_def list_all_iff hd_rev)

lemma whitespace_ends:
  "\<forall>w \<in> set (map (map char_of_byte) whitespace_encodings).
     w \<noteq> [] \<and> \<not> is_ascii_digit (hd w) \<and> \<not> is_ascii_digit (hd (rev w))"
  by (simp add: whitespace_encodings_def is_ascii_digit_def u8_between_def)

lemma trim_digit_string: "digit_string s \<Longrightarrow> trim s = s"
proof -
  assume d: "digit_string s"
  let ?ws = "map (map char_of_byte) whitespace_encodings"
  have "s \<noteq> []" using d by (simp add: digit_string_def)
  then have "strip_one ?ws s = None" "strip_one (map rev ?ws) (rev s) = None"
    using whitespace_ends digit_string_ends [OF d]
    by (intro strip_one_None; force)+
  then have "strip_all ?ws s = s" "strip_all (map rev ?ws) (rev s) = rev s"
    by (subst strip_all.simps, simp)+
  then show ?thesis by (simp add: trim_def Let_def)
qed

lemma is_ascii_digit_digit_char: "d < 10 \<Longrightarrow> is_ascii_digit (digit_char d)"
proof -
  assume "d < 10"
  then have "unat (byte_of_char (digit_char d)) = 48 + d"
    by (simp add: byte_of_char_def digit_char_def unat_of_nat del: of_nat_add)
  with \<open>d < 10\<close> show ?thesis by (simp add: is_ascii_digit_def u8_between_def)
qed

lemma digit_string_show_nat: "digit_string (show_nat n)"
  using show_base_digits [of 10 n]
  by (auto simp: digit_string_def show_nat_def list_all_iff intro: is_ascii_digit_digit_char)

lemma not_digit [simp]: "\<not> is_ascii_digit CHR ''+''" "\<not> is_ascii_digit CHR ''-''"
  by (simp_all add: is_ascii_digit_def byte_of_char_def u8_between_def)

lemma parse_u16_show: "parse_u16 (show_nat (unat p)) = Some p"
proof -
  have "hd (show_nat (unat p)) \<noteq> CHR ''+''"
    using digit_string_ends [OF digit_string_show_nat [of "unat p"]] by auto
  then have "(case show_nat (unat p) of c # r \<Rightarrow> if c = CHR ''+'' then r else show_nat (unat p)
      | [] \<Rightarrow> show_nat (unat p)) = show_nat (unat p)"
    by (cases "show_nat (unat p)") auto
  then show ?thesis
    using parse_digits_show_nat [of "unat p" 65536] digit_string_show_nat [of "unat p"]
    by (simp add: parse_u16_def digit_string_def)
qed

lemma port_range_parse_show:
  assumes "0 < a" and "a \<le> b"
  shows "port_range_parse (show_nat (unat a) @ ''-'' @ show_nat (unat b)) =
    Inr \<lparr>range_start = a, range_end = b\<rparr>"
proof -
  have "CHR ''-'' \<notin> set (show_nat (unat a))"
    using digit_string_show_nat [of "unat a"] by (auto simp: digit_string_def list_all_iff)
  then have "split_once CHR ''-'' (show_nat (unat a) @ ''-'' @ show_nat (unat b)) =
      Some (show_nat (unat a), show_nat (unat b))"
    by (simp add: split_once_Some)
  with assms show ?thesis
    by (simp add: port_range_parse_def trim_digit_string digit_string_show_nat parse_u16_show
        word_neq_0_conv [symmetric] not_less)
qed

lemma parse_dns_server_ok:
  assumes "parse_dns_server v = Inr a"
  shows "sock_port a \<noteq> 0 \<and> \<not> ip_is_unspecified (sock_ip a) \<and> \<not> ip_is_multicast (sock_ip a)
    \<and> a = sock_new (sock_ip a) (sock_port a)"
proof -
  have flow: "parse_sock w = Some (SockV6 ip p f sc) \<Longrightarrow> f = 0" for w ip p f sc
    by (auto simp: parse_sock_def parse_whole_def read_socket_addr_v4_def read_socket_addr_v6_def
        Let_def split: option.splits if_splits prod.splits)
  have "parse_ip v = None \<Longrightarrow> parse_sock v = Some a" "parse_ip v = Some ip \<Longrightarrow> a = sock_new ip 53" for ip
    using assms by (auto simp: parse_dns_server_def split: option.splits if_splits)
  with assms flow show ?thesis
    by (cases a; cases "parse_ip v")
      (auto simp: parse_dns_server_def split: option.splits if_splits)
qed

lemma split_on_covers: "c \<in> set s \<Longrightarrow> c = sep \<or> (\<exists>label \<in> set (split_on sep s). c \<in> set label)"
  by (induction s) (auto split: list.splits)

text \<open>A host name accepted for advertising fits the address codec and holds ASCII letters, digits,
  hyphens and dots only.\<close>

lemma valid_dns_name_text:
  assumes "is_valid_dns_name s"
  shows "s \<noteq> [] \<and> length s \<le> 254 \<and> (\<forall>c \<in> set s. is_ascii_alphanumeric c \<or> c \<in> {CHR ''-'', CHR ''.''})"
proof -
  define name where "name = (case strip_suffix CHR ''.'' s of Some n \<Rightarrow> n | None \<Rightarrow> s)"
  have "s = butlast s @ ''.''" if "s \<noteq> []" "last s = CHR ''.''" using append_butlast_last_id [OF that(1)] that(2) by simp
  then have s: "s = name \<or> s = name @ ''.''" unfolding name_def strip_suffix_def by (simp split: if_splits)
  have v: "name \<noteq> []" "length name \<le> 253" "\<forall>label \<in> set (split_on CHR ''.'' name). valid_dns_label label"
    using assms by (auto simp: is_valid_dns_name_def name_def [symmetric])
  have "is_ascii_alphanumeric c \<or> c \<in> {CHR ''-'', CHR ''.''}" if "c \<in> set name" for c
    using split_on_covers [OF that, of "CHR ''.''"] v(3) by (auto simp: valid_dns_label_def)
  then have "is_ascii_alphanumeric c \<or> c \<in> {CHR ''-'', CHR ''.''}" if "c \<in> set s" for c
    using s that by fastforce
  moreover have "s \<noteq> []" "length s \<le> 254" using s v(1,2) by auto
  ultimately show ?thesis by blast
qed

section \<open>Properties\<close>

text \<open>C40: the egress policy blocks an IPv4 address exactly when it is 0.0.0.0 or lies in one
  of the CIDR blocks of an enabled switch, each of them an interval in the order of addresses: 0.0.0.0/8 and 127.0.0.0/8 for loopback,
  169.254.0.0/16 for link-local, and 10.0.0.0/8, 172.16.0.0/12, 192.168.0.0/16 and
  100.64.0.0/10 for private addresses. It blocks an IPv6 address exactly when it is
  unspecified, or in fe80::/10, fc00::/7 or the loopback address with the switch for it on,
  or embeds a blocked IPv4 address; so an IPv4-mapped address is treated as the IPv4 address
  it stands for, and turning switches on only blocks more.\<close>

theorem egress_blocks:
  "(is_blocked e (IpV4 v4) \<longleftrightarrow>
      v4 = Ipv4 0 0 0 0
      \<or> (block_loopback e \<and> v4 \<in> {Ipv4 0 0 0 0 .. Ipv4 0 255 255 255} \<union> {Ipv4 127 0 0 0 .. Ipv4 127 255 255 255})
      \<or> (block_link_local e \<and> v4 \<in> {Ipv4 169 254 0 0 .. Ipv4 169 254 255 255})
      \<or> (block_private e \<and> v4 \<in> {Ipv4 10 0 0 0 .. Ipv4 10 255 255 255} \<union> {Ipv4 172 16 0 0 .. Ipv4 172 31 255 255} \<union>
          {Ipv4 192 168 0 0 .. Ipv4 192 168 255 255} \<union> {Ipv4 100 64 0 0 .. Ipv4 100 127 255 255})) \<and>
   (is_blocked e (IpV6 v6) \<longleftrightarrow>
      v6_is_unspecified v6
      \<or> (block_loopback e \<and> v6_is_loopback v6)
      \<or> (block_link_local e \<and> unat (segments v6 ! 0) div 2 ^ 6 = 0xFE80 div 2 ^ 6)
      \<or> (block_private e \<and> unat (segments v6 ! 0) div 2 ^ 9 = 0xFC00 div 2 ^ 9)
      \<or> (\<exists>v4. v6_to_ipv4 v6 = Some v4 \<and> is_blocked e (IpV4 v4))) \<and>
   is_blocked e (to_canonical ip) = is_blocked e ip \<and>
   ((block_loopback e \<longrightarrow> block_loopback f) \<and> (block_link_local e \<longrightarrow> block_link_local f) \<and>
     (block_private e \<longrightarrow> block_private f) \<and> is_blocked e ip \<longrightarrow> is_blocked f ip)"
proof (rule conjI)
  show "is_blocked e (IpV4 v4) \<longleftrightarrow>
      v4 = Ipv4 0 0 0 0
      \<or> (block_loopback e \<and> v4 \<in> {Ipv4 0 0 0 0 .. Ipv4 0 255 255 255} \<union> {Ipv4 127 0 0 0 .. Ipv4 127 255 255 255})
      \<or> (block_link_local e \<and> v4 \<in> {Ipv4 169 254 0 0 .. Ipv4 169 254 255 255})
      \<or> (block_private e \<and> v4 \<in> {Ipv4 10 0 0 0 .. Ipv4 10 255 255 255} \<union> {Ipv4 172 16 0 0 .. Ipv4 172 31 255 255} \<union>
          {Ipv4 192 168 0 0 .. Ipv4 192 168 255 255} \<union> {Ipv4 100 64 0 0 .. Ipv4 100 127 255 255})"
    by (simp only: is_blocked.simps(1) v4_blocked_blocks block_intervals)
qed (use blocked_canonical [of e ip] blocked_mono [of e f ip]
    fe80_bits [of "segments v6 ! 0"] fc00_bits [of "segments v6 ! 0"]
  in \<open>auto split: option.splits if_splits\<close>)

theorem egress_blocks_witness:
  "is_blocked egress_default (IpV4 (Ipv4 0 0 0 0))"
proof (rule conjunct2 [OF conjunct2 [OF conjunct2 [OF egress_blocks]], THEN mp])
  show "(block_loopback permissive \<longrightarrow> block_loopback egress_default) \<and>
    (block_link_local permissive \<longrightarrow> block_link_local egress_default) \<and>
    (block_private permissive \<longrightarrow> block_private egress_default) \<and>
    is_blocked permissive (IpV4 (Ipv4 0 0 0 0))"
    by (simp add: permissive_def blocked_v4_zero)
qed

text \<open>A port range is accepted only with a non-zero start that is not after its end, and
  the textual form of every such range is accepted as that range.\<close>

theorem port_range_exact:
  "(port_range_parse s = Inr r \<longrightarrow> 0 < range_start r \<and> range_start r \<le> range_end r) \<and>
   (0 < a \<and> a \<le> b \<longrightarrow>
      port_range_parse (show_nat (unat a) @ ''-'' @ show_nat (unat b)) =
        Inr \<lparr>range_start = a, range_end = b\<rparr>)"
  using port_range_parse_sound [of s r] port_range_parse_show [of a b] by blast

theorem port_range_exact_witness:
  "port_range_parse (show_nat (unat (5000 :: u16)) @ ''-'' @ show_nat (unat (6000 :: u16))) =
     Inr \<lparr>range_start = 5000, range_end = 6000\<rparr>"
  using port_range_exact [of "[]" "\<lparr>range_start = 1, range_end = 1\<rparr>" 5000 6000] by simp

text \<open>What an accepted port range says, and that the width \<open>bind_with_retry\<close> computes from it is
  the number of its ports: neither the subtraction nor the sum wraps.\<close>

lemma port_range_parse_iff:
  "port_range_parse s = Inr r \<longleftrightarrow>
     (\<exists>st en. s = st @ ''-'' @ en \<and> CHR ''-'' \<notin> set st \<and>
        parse_u16 (trim st) = Some (range_start r) \<and> parse_u16 (trim en) = Some (range_end r)) \<and>
     0 < range_start r \<and> range_start r \<le> range_end r"
proof -
  have "port_range_parse s = Inr r \<longleftrightarrow>
    (\<exists>st en. split_once CHR ''-'' s = Some (st, en) \<and>
       parse_u16 (trim st) = Some (range_start r) \<and> parse_u16 (trim en) = Some (range_end r)) \<and>
     0 < range_start r \<and> range_start r \<le> range_end r"
    by (cases r) (auto simp: port_range_parse_def word_neq_0_conv not_less split: option.splits if_splits)
  then show ?thesis by (auto simp: split_once_Some)
qed

lemma deserialize_port_range_iff:
  "deserialize_port_range v = Inr r \<longleftrightarrow> (\<exists>s. v = Inr s \<and> port_range_parse s = Inr r)"
  by (auto simp: deserialize_port_range_def split: sum.splits)

lemma port_range_width:
  fixes a b :: u16
  assumes "a \<le> b"
  shows "unat ((ucast (b - a) :: u32) + 1) = unat b + 1 - unat a"
proof -
  have "unat (b - a) = unat b - unat a" using assms by (simp add: unat_sub)
  moreover have "unat (b - a) < 2 ^ LENGTH(16)" by (rule unsigned_less)
  then have lt: "unat (b - a) < 2 ^ 16" by simp
  moreover have "unat ((ucast (b - a) :: u32) + 1) = (unat (b - a) + 1) mod 2 ^ 32"
  proof -
    have "take_bit 32 (unat (b - a)) = unat (b - a)" using lt by (intro take_bit_nat_eq_self order.strict_trans [OF lt]) simp
    then show ?thesis by (simp add: unat_word_ariths unsigned_ucast_eq)
  qed
  ultimately show ?thesis using assms by (simp add: word_le_nat_alt)
qed

text \<open>The servers, entry by entry.\<close>

definition dns_entry :: "string \<Rightarrow> socket_addr \<Rightarrow> bool" where
  "dns_entry v a \<longleftrightarrow>
     (case parse_ip v of Some ip \<Rightarrow> a = sock_new ip 53 | None \<Rightarrow> parse_sock v = Some a) \<and>
     sock_port a \<noteq> 0 \<and> \<not> ip_is_unspecified (sock_ip a) \<and> \<not> ip_is_multicast (sock_ip a) \<and>
     a = sock_new (sock_ip a) (sock_port a)"

lemma parse_dns_server_iff: "parse_dns_server v = Inr a \<longleftrightarrow> dns_entry v a"
proof
  assume "parse_dns_server v = Inr a"
  from this parse_dns_server_ok [OF this] show "dns_entry v a"
    by (auto simp: dns_entry_def parse_dns_server_def split: option.splits if_splits)
next
  assume "dns_entry v a"
  then show "parse_dns_server v = Inr a"
  proof -
    have e: "(case parse_ip v of Some ip \<Rightarrow> Some (sock_new ip 53) | None \<Rightarrow> parse_sock v) = Some a"
      and ok: "sock_port a \<noteq> 0" "\<not> ip_is_unspecified (sock_ip a)" "\<not> ip_is_multicast (sock_ip a)"
      and new: "a = sock_new (sock_ip a) (sock_port a)"
      using \<open>dns_entry v a\<close> by (auto simp: dns_entry_def split: option.splits)
    have "\<not> (case a of SockV6 x p f scope \<Rightarrow> scope \<noteq> 0 | SockV4 x p \<Rightarrow> False)" using new by (cases a) auto
    with ok show ?thesis unfolding parse_dns_server_def e by simp
  qed
qed

lemma deserialize_dns_servers_iff:
  "deserialize_dns_servers vs = Inr as \<longleftrightarrow> list_all2 dns_entry vs as"
proof (induction vs arbitrary: as)
  case (Cons v vs)
  have "deserialize_dns_servers (v # vs) = Inr as \<longleftrightarrow>
    (\<exists>a as'. parse_dns_server v = Inr a \<and> deserialize_dns_servers vs = Inr as' \<and> as = a # as')"
    by (auto split: sum.splits)
  then show ?case unfolding Cons.IH parse_dns_server_iff by (auto simp: list_all2_Cons1)
qed auto

text \<open>C36: the values a loaded configuration can hold, exactly. A port range is accepted when it is two
  16-bit numbers around the first hyphen, with a non-zero start not after its end, and then
  the width the UDP relay computes for it, in 32 bits, is the number of its ports. An advertised host name
  is a valid DNS name, neither an IP literal nor a socket address, of at most 254 ASCII
  letters, digits, hyphens and dots. The list of DNS servers is accepted when each entry is an address, with port
  53 if it names none, that is usable: unicast, with a non-zero port and no IPv6 scope or
  flow label; the result has one server per entry, in order.\<close>

theorem config_values_typed:
  "(deserialize_port_range v = Inr r \<longleftrightarrow>
      (\<exists>st en. v = Inr (st @ ''-'' @ en) \<and> CHR ''-'' \<notin> set st \<and>
         parse_u16 (trim st) = Some (range_start r) \<and> parse_u16 (trim en) = Some (range_end r)) \<and>
      0 < range_start r \<and> range_start r \<le> range_end r \<and>
      unat ((ucast (range_end r - range_start r) :: u32) + 1) = unat (range_end r) + 1 - unat (range_start r)) \<and>
   (de_advertise_host v = Inr (Some (AdvertiseDomain d)) \<longleftrightarrow>
      v = Inr d \<and> is_valid_dns_name d \<and> parse_ip d = None \<and> parse_sock d = None \<and> d \<noteq> [] \<and> length d \<le> 254 \<and>
      list_all (\<lambda>c. is_ascii_alphanumeric c \<or> c \<in> {CHR ''-'', CHR ''.''}) d) \<and>
   de_advertise_host v \<noteq> Inr None \<and>
   (deserialize_dns_servers vs = Inr as \<longleftrightarrow>
      list_all2 (\<lambda>v a.
        (case parse_ip v of Some ip \<Rightarrow> a = sock_new ip 53 | None \<Rightarrow> parse_sock v = Some a) \<and>
        sock_port a \<noteq> 0 \<and> \<not> ip_is_unspecified (sock_ip a) \<and> \<not> ip_is_multicast (sock_ip a) \<and>
        a = sock_new (sock_ip a) (sock_port a)) vs as)"
proof (intro conjI)
  show "deserialize_port_range v = Inr r \<longleftrightarrow>
      (\<exists>st en. v = Inr (st @ ''-'' @ en) \<and> CHR ''-'' \<notin> set st \<and>
         parse_u16 (trim st) = Some (range_start r) \<and> parse_u16 (trim en) = Some (range_end r)) \<and>
      0 < range_start r \<and> range_start r \<le> range_end r \<and>
      unat ((ucast (range_end r - range_start r) :: u32) + 1) = unat (range_end r) + 1 - unat (range_start r)"
    unfolding deserialize_port_range_iff port_range_parse_iff
    using port_range_width [of "range_start r" "range_end r"] by blast
  show "de_advertise_host v = Inr (Some (AdvertiseDomain d)) \<longleftrightarrow>
      v = Inr d \<and> is_valid_dns_name d \<and> parse_ip d = None \<and> parse_sock d = None \<and> d \<noteq> [] \<and> length d \<le> 254 \<and>
      list_all (\<lambda>c. is_ascii_alphanumeric c \<or> c \<in> {CHR ''-'', CHR ''.''}) d"
    using valid_dns_name_text [of d]
    by (auto simp: list_all_iff de_advertise_host_def parse_advertise_host_def split: sum.splits option.splits if_splits)
  show "de_advertise_host v \<noteq> Inr None" by (simp add: de_advertise_host_def split: sum.split)
  show "deserialize_dns_servers vs = Inr as \<longleftrightarrow>
      list_all2 (\<lambda>v a.
        (case parse_ip v of Some ip \<Rightarrow> a = sock_new ip 53 | None \<Rightarrow> parse_sock v = Some a) \<and>
        sock_port a \<noteq> 0 \<and> \<not> ip_is_unspecified (sock_ip a) \<and> \<not> ip_is_multicast (sock_ip a) \<and>
        a = sock_new (sock_ip a) (sock_port a)) vs as"
    unfolding deserialize_dns_servers_iff by (simp only: dns_entry_def [abs_def])
qed

theorem config_values_typed_witness:
  "list_all2 (\<lambda>v a. parse_ip v = Some (sock_ip a) \<and> sock_port a = 53) [''1.1.1.1'', ''9.9.9.9'']
     [SockV4 (Ipv4 1 1 1 1) 53, SockV4 (Ipv4 9 9 9 9) 53] \<and>
   is_valid_dns_name ''r.io'' \<and> range_start \<lparr>range_start = 5000, range_end = 6000\<rparr> > 0"
proof (intro conjI)
  have 1: "deserialize_dns_servers [''1.1.1.1'', ''9.9.9.9''] = Inr [SockV4 (Ipv4 1 1 1 1) 53, SockV4 (Ipv4 9 9 9 9) 53]"
    and ip: "parse_ip ''1.1.1.1'' = Some (IpV4 (Ipv4 1 1 1 1))" "parse_ip ''9.9.9.9'' = Some (IpV4 (Ipv4 9 9 9 9))"
    by code_simp+
  from 1 show "list_all2 (\<lambda>v a. parse_ip v = Some (sock_ip a) \<and> sock_port a = 53) [''1.1.1.1'', ''9.9.9.9'']
     [SockV4 (Ipv4 1 1 1 1) 53, SockV4 (Ipv4 9 9 9 9) 53]"
    unfolding config_values_typed [of "Inl ()" undefined undefined, THEN conjunct2, THEN conjunct2, THEN conjunct2]
    by (simp add: ip)
  have 2: "de_advertise_host (Inr ''r.io'' :: (string, unit) result)
    = Inr (Some (AdvertiseDomain ''r.io''))"
  proof -
    have "to_digit 16 CHR ''r'' = None" "to_digit 10 CHR ''r'' = None" by code_simp+
    from parse_not_address [OF this, of "''.io''"]
    have "parse_ip ''r.io'' = None" "parse_sock ''r.io'' = None" by simp_all
    moreover have "is_valid_dns_name ''r.io''"
      by (simp add: is_valid_dns_name_def strip_suffix_def valid_dns_label_def is_ascii_alphabetic_def
          is_ascii_alphanumeric_def u8_between_def byte_of_char_def)
    ultimately show ?thesis by (simp add: de_advertise_host_def parse_advertise_host_def)
  qed
  then show "is_valid_dns_name ''r.io''" using config_values_typed [THEN conjunct2, THEN conjunct1] by blast
  have "port_range_parse (show_nat (unat (5000 :: u16)) @ ''-'' @ show_nat (unat (6000 :: u16)))
    = Inr \<lparr>range_start = 5000, range_end = 6000\<rparr>" by (rule port_range_parse_show) simp_all
  then have 3: "deserialize_port_range (Inr (show_nat (unat (5000 :: u16)) @ ''-'' @ show_nat (unat (6000 :: u16))) :: (string, unit) result)
    = Inr \<lparr>range_start = 5000, range_end = 6000\<rparr>" by (simp add: deserialize_port_range_def)
  then show "0 < range_start \<lparr>range_start = 5000, range_end = 6000\<rparr>" using config_values_typed [THEN conjunct1] by blast
qed

end
