(* ===== verification/Dns.thy ===== *)
theory Dns
  imports Config
begin

text \<open>
  \<open>src/dns.rs\<close>: the per-family lookups. The resolver itself is the \<open>hickory_resolver\<close>
  package: what one \<open>lookup_ip\<close> returns, the server entry it makes for an address and the
  building of a resolver are arguments of the definitions.
\<close>

section \<open>Model\<close>

datatype lookup_strategy = Ipv4Only | Ipv6Only

text \<open>What \<open>NameServerConfig\<close> and the resolver's options hold that this program sets.\<close>

record name_server =
  ns_ip :: ip_addr
  ns_ports :: "u16 list" \<comment> \<open>one per connection of the entry\<close>

record resolver_options =
  upstreams :: "name_server list option" \<comment> \<open>\<open>None\<close>: the system's configuration\<close>
  ip_strategy :: lookup_strategy
  hosts_always :: bool
  cache_size :: nat

record 'r dns_resolver =
  res_ipv4 :: 'r
  res_ipv6 :: 'r

definition name_server_for :: "(ip_addr \<Rightarrow> name_server) \<Rightarrow> socket_addr \<Rightarrow> name_server" where
  "name_server_for udp_and_tcp address =
     (let server = udp_and_tcp (sock_ip address)
      in server\<lparr>ns_ports := map (\<lambda>_. sock_port address) (ns_ports server)\<rparr>)"

text \<open>\<open>builder_tokio\<close> reads the system configuration and may fail; \<open>builder_build\<close> is \<open>builder.build()\<close>.\<close>

definition dns_build ::
  "(ip_addr \<Rightarrow> name_server) \<Rightarrow> 'e option \<Rightarrow> (resolver_options \<Rightarrow> 'e + 'r) \<Rightarrow> dns_config
   \<Rightarrow> lookup_strategy \<Rightarrow> 'e + 'r" where
  "dns_build udp_and_tcp builder_tokio builder_build dc strategy =
     (case (if servers dc = []
            then (case builder_tokio of Some e \<Rightarrow> Inl e | None \<Rightarrow> Inr None)
            else Inr (Some (map (name_server_for udp_and_tcp) (servers dc)))) of
        Inl e \<Rightarrow> Inl e
      | Inr ups \<Rightarrow>
          builder_build \<lparr>upstreams = ups, ip_strategy = strategy, hosts_always = True, cache_size = 128\<rparr>)"

definition dns_new ::
  "(ip_addr \<Rightarrow> name_server) \<Rightarrow> 'e option \<Rightarrow> (resolver_options \<Rightarrow> 'e + 'r) \<Rightarrow> dns_config
   \<Rightarrow> 'e + 'r dns_resolver" where
  "dns_new udp_and_tcp builder_tokio builder_build dc =
     (case dns_build udp_and_tcp builder_tokio builder_build dc Ipv4Only of
        Inl e \<Rightarrow> Inl e
      | Inr r4 \<Rightarrow>
          (case dns_build udp_and_tcp builder_tokio builder_build dc Ipv6Only of
             Inl e \<Rightarrow> Inl e
           | Inr r6 \<Rightarrow> Inr \<lparr>res_ipv4 = r4, res_ipv6 = r6\<rparr>))"

text \<open>The outcome of \<open>timeout_at(deadline, resolver.lookup_ip(host))\<close>. A failure carries the
  text the package prints for it.\<close>

datatype response_code = NoError | OtherCode string

datatype lookup_failure =
    NoRecordsFound response_code string
  | OtherFailure string

datatype lookup_outcome =
    LookupTimeout
  | LookupErr lookup_failure
  | LookupOk "ip_addr list"

fun lookup_failure_reason :: "lookup_failure \<Rightarrow> string" where
  "lookup_failure_reason (NoRecordsFound NoError err) = ''no addresses returned (NOERROR)''"
| "lookup_failure_reason (NoRecordsFound (OtherCode code) err) = code @ '': '' @ err"
| "lookup_failure_reason (OtherFailure err) = err"

text \<open>The loop over the answer: canonical form, first occurrences only.\<close>

fun collect_addresses :: "ip_addr list \<Rightarrow> ip_addr list \<Rightarrow> ip_addr list" where
  "collect_addresses addresses [] = addresses"
| "collect_addresses addresses (ip # ips) =
     (let ip = to_canonical ip
      in collect_addresses (if ip \<in> set addresses then addresses else addresses @ [ip]) ips)"

fun query :: "lookup_outcome \<Rightarrow> (ip_addr list, string) result" where
  "query LookupTimeout = Inl ''timed out''"
| "query (LookupErr failure) = Inl (lookup_failure_reason failure)"
| "query (LookupOk ips) =
     (let addresses = collect_addresses [] ips
      in if addresses = [] then Inl ''no addresses returned'' else Inr addresses)"

record resolve_error =
  re_host :: string
  re_elapsed_ms :: nat
  re_reason :: string

definition show_resolve_error :: "resolve_error \<Rightarrow> string" where
  "show_resolve_error e =
     ''DNS lookup for '' @ re_host e @ '' failed after '' @ show_nat (re_elapsed_ms e) @ '' ms: ''
     @ re_reason e"

definition as_millis :: "duration \<Rightarrow> nat" where
  "as_millis d = d div 1000000"

text \<open>\<open>lookup_ip\<close> answers at \<open>now\<close> for the resolver it is asked on.\<close>

definition lookup ::
  "('r \<Rightarrow> string \<Rightarrow> lookup_outcome) \<Rightarrow> 'r dns_resolver \<Rightarrow> string \<Rightarrow> u16 \<Rightarrow> instant \<Rightarrow> instant \<Rightarrow> bool
   \<Rightarrow> (socket_addr list, resolve_error) result" where
  "lookup lookup_ip rs host port started now ipv4 =
     (let resolver = (if ipv4 then res_ipv4 rs else res_ipv6 rs)
      in case query (lookup_ip resolver host) of
           Inr addresses \<Rightarrow> Inr (map (\<lambda>ip. sock_new ip port) addresses)
         | Inl reason \<Rightarrow>
             Inl \<lparr>re_host = host, re_elapsed_ms = as_millis (now - started), re_reason = reason\<rparr>)"

section \<open>Facts\<close>

lemma collect_addresses_set:
  "set (collect_addresses acc ips) = set acc \<union> to_canonical ` set ips"
  by (induction acc ips rule: collect_addresses.induct) (auto simp: Let_def)

lemma collect_addresses_distinct: "distinct acc \<Longrightarrow> distinct (collect_addresses acc ips)"
  by (induction acc ips rule: collect_addresses.induct) (auto simp: Let_def)

lemma query_Inr:
  "query out = Inr as \<longleftrightarrow> (\<exists>ips. out = LookupOk ips \<and> ips \<noteq> [] \<and> as = collect_addresses [] ips)"
proof (cases out)
  case (LookupOk ips)
  have "collect_addresses [] ips = [] \<longleftrightarrow> ips = []"
    using collect_addresses_set [of "[]" ips] by auto
  with LookupOk show ?thesis by (auto simp: Let_def)
qed auto

lemma inj_sock_new: "sock_new ip p = sock_new ip' p \<longleftrightarrow> ip = ip'"
  by (cases ip; cases ip') simp_all

lemma lookup_Inr:
  "lookup lookup_ip rs host port started now ipv4 = Inr as \<longleftrightarrow>
     (\<exists>ips. query (lookup_ip (if ipv4 then res_ipv4 rs else res_ipv6 rs) host) = Inr ips \<and>
        as = map (\<lambda>ip. sock_new ip port) ips)"
proof (cases "query (lookup_ip (if ipv4 then res_ipv4 rs else res_ipv6 rs) host)")
  case (Inr ips)
  then show ?thesis unfolding lookup_def Let_def by (simp del: query.simps) blast
qed (simp add: lookup_def)

section \<open>Properties\<close>

text \<open>C27: a successful lookup gives, with the asked port, exactly the canonical forms of the
  addresses the resolver answered, without repetition and never none; since an
  IPv4-mapped answer becomes the IPv4 address, the egress policy sees through it. A lookup
  fails exactly when the resolver fails, times out or answers nothing.\<close>

theorem lookup_answers:
  assumes "q = lookup_ip (if ipv4 then res_ipv4 rs else res_ipv6 rs) host"
  shows "(\<forall>as. lookup lookup_ip rs host port started now ipv4 = Inr as \<longrightarrow>
      (\<exists>ips. q = LookupOk ips \<and> distinct as \<and> as \<noteq> [] \<and>
         set as = (\<lambda>ip. sock_new (to_canonical ip) port) ` set ips)) \<and>
    ((\<exists>e. lookup lookup_ip rs host port started now ipv4 = Inl e) \<longleftrightarrow>
       (\<forall>ips. q = LookupOk ips \<longrightarrow> ips = []))"
proof -
  let ?as = "collect_addresses [] "
  have ok: "lookup lookup_ip rs host port started now ipv4 = Inr as \<longleftrightarrow>
      (\<exists>ips. q = LookupOk ips \<and> ips \<noteq> [] \<and> as = map (\<lambda>ip. sock_new ip port) (?as ips))" for as
    unfolding lookup_Inr assms [symmetric] query_Inr by metis
  have "distinct (map (\<lambda>ip. sock_new ip port) (?as ips))" for ips
    using collect_addresses_distinct [of "[]" ips] by (simp add: distinct_map inj_on_def inj_sock_new)
  moreover have "set (map (\<lambda>ip. sock_new ip port) (?as ips)) =
      (\<lambda>ip. sock_new (to_canonical ip) port) ` set ips" for ips
    using collect_addresses_set [of "[]" ips] by (auto simp: image_image)
  moreover have "?as ips \<noteq> []" if "ips \<noteq> []" for ips
    using collect_addresses_set [of "[]" ips] that by auto
  moreover have "(\<exists>e. lookup lookup_ip rs host port started now ipv4 = Inl e) \<longleftrightarrow>
      \<not> (\<exists>as. lookup lookup_ip rs host port started now ipv4 = Inr as)"
    by (cases "lookup lookup_ip rs host port started now ipv4") auto
  ultimately show ?thesis unfolding ok by auto
qed

theorem lookup_answers_witness:
  "\<exists>e. lookup (\<lambda>(_ :: unit) host. LookupTimeout) \<lparr>res_ipv4 = (), res_ipv6 = ()\<rparr> ''a'' 80 0 5 True = Inl e"
  using lookup_answers [of LookupTimeout "\<lambda>_ _. LookupTimeout" True "\<lparr>res_ipv4 = (), res_ipv6 = ()\<rparr>" "''a''" 80 0 5]
  by simp

end
