(* ===== verification/Interfaces.thy ===== *)
theory Interfaces
  imports Prelude "HOL-Library.Multiset"
begin

text \<open>
  The contracts between components, as locales. Each is interpreted on the model's own
  definitions in the theory of the component that provides it.

  \<^item> \<open>prefix_codec\<close>: a self-delimiting encoding, the contract of the address codec that
    requests, replies and UDP datagrams are built on.
  \<^item> \<open>incremental_parser\<close>: a message parser that a read loop may call again after every
    read, the contract of the greeting, credential and request parsers towards the
    negotiation loop. A \<open>prefix_codec\<close> provides one.
  \<^item> \<open>bounded_log\<close>: an append-only buffer that drops its oldest entry at capacity, the
    contract of the admin event ring, the dashboard log and the throughput history.
  \<^item> \<open>id_registry\<close>: a table of live sessions under fresh identifiers, the contract of the
    metrics registry towards the CONNECT and UDP handlers, which register a session at its
    start and unregister it on every path out.
  \<^item> \<open>permit_pool\<close>: a counter of slots handed out and taken back, the contract of the
    admission control towards the accept loop.
  \<^item> \<open>simulation\<close>: a transition system that follows an abstract one, the contract between
    the accept loop and its specification.
  \<^item> \<open>stuttering_simulation\<close>: the same with steps the abstract system does not see, the
    contract between the server with its event bus and the server without.
\<close>

section \<open>Self-delimiting codecs\<close>

locale prefix_codec =
  fixes enc :: "'a \<Rightarrow> bytes"
    and dec :: "bytes \<Rightarrow> 'e + ('a \<times> nat)"
    and wf :: "'a \<Rightarrow> bool"
    and short :: 'e
    and max_len :: nat
  assumes dec_enc: "wf a \<Longrightarrow> dec (enc a @ rest) = Inr (a, length (enc a))"
    and enc_dec: "dec bs = Inr (a, n) \<Longrightarrow> wf a \<and> n \<le> length bs \<and> enc a = take n bs"
    and err_stable: "dec bs = Inl e \<Longrightarrow> e \<noteq> short \<Longrightarrow> dec (bs @ x) = Inl e"
    and short_strict: "wf a \<Longrightarrow> n < length (enc a) \<Longrightarrow> dec (take n (enc a)) = Inl short"
    and short_bound: "dec bs = Inl short \<Longrightarrow> length bs < max_len"
begin

lemma dec_split: "dec bs = Inr (a, n) \<Longrightarrow> bs = enc a @ drop n bs \<and> n = length (enc a)"
  by (metis append_take_drop_id enc_dec length_take min.absorb2)

lemma ok_stable: "dec bs = Inr (a, n) \<Longrightarrow> dec (bs @ x) = Inr (a, n)"
proof -
  assume ok: "dec bs = Inr (a, n)"
  then have n: "n = length (enc a)" and bs: "bs = enc a @ drop n bs"
    using dec_split by blast+
  have "dec (enc a @ (drop n bs @ x)) = Inr (a, length (enc a))"
    using enc_dec [OF ok] by (intro dec_enc) simp
  moreover have "enc a @ (drop n bs @ x) = bs @ x"
    by (metis append.assoc bs)
  ultimately have "dec (bs @ x) = Inr (a, length (enc a))" by metis
  with n show ?thesis by simp
qed

lemma enc_unique: "wf a \<Longrightarrow> wf b \<Longrightarrow> enc a @ x = enc b @ y \<Longrightarrow> a = b \<and> x = y"
proof -
  assume wf: "wf a" "wf b" and eq: "enc a @ x = enc b @ y"
  from wf(1) have "dec (enc a @ x) = Inr (a, length (enc a))" by (rule dec_enc)
  moreover from wf(2) have "dec (enc b @ y) = Inr (b, length (enc b))" by (rule dec_enc)
  ultimately have "a = b" using eq by simp
  with eq show ?thesis by simp
qed

end

section \<open>Incremental parsers\<close>

locale incremental_parser =
  fixes parse :: "bytes \<Rightarrow> 'e + 'a"
    and need :: "'e \<Rightarrow> bool" \<comment> \<open>the error means: more bytes are needed\<close>
    and size_of :: "'a \<Rightarrow> nat" \<comment> \<open>how many bytes the caller removes after success\<close>
    and cap :: nat \<comment> \<open>a buffer longer than this is never undecided\<close>
  assumes parse_ok: "parse bs = Inr a \<Longrightarrow> parse (bs @ x) = Inr a"
    and parse_err: "parse bs = Inl e \<Longrightarrow> \<not> need e \<Longrightarrow> parse (bs @ x) = Inl e"
    and size_le: "parse bs = Inr a \<Longrightarrow> size_of a \<le> length bs"
    and need_cap: "parse bs = Inl e \<Longrightarrow> need e \<Longrightarrow> length bs \<le> cap"
begin

text \<open>The verdict on a stream does not depend on where the reads cut it.\<close>

lemma verdict_prefix:
  assumes "parse bs = r" and "\<forall>e. r = Inl e \<longrightarrow> \<not> need e"
  shows "parse (bs @ x) = r"
  using assms by (cases r) (auto dest: parse_ok parse_err)

lemma prefix_undecided:
  assumes "parse (bs @ x) = Inl e" and "need e"
  shows "\<exists>e'. parse bs = Inl e' \<and> need e'"
  using assms by (cases "parse bs") (auto dest: parse_ok [of _ _ x] parse_err [of _ _ x])

lemma prefix_decides:
  assumes "parse (bs @ x) = r"
  shows "parse bs = r \<or> (\<exists>e. parse bs = Inl e \<and> need e)"
proof (cases "parse bs")
  case (Inl e)
  then show ?thesis using assms parse_err [of bs e x] by (cases "need e") auto
next
  case (Inr a)
  then show ?thesis using assms parse_ok [of bs a x] by auto
qed

end

text \<open>Every self-delimiting codec is an incremental parser.\<close>

sublocale prefix_codec \<subseteq> incremental: incremental_parser
  "\<lambda>bs. map_sum id fst (dec bs)" "\<lambda>e. e = short" "\<lambda>a. length (enc a)" max_len
proof
  fix bs a x
  assume "map_sum id fst (dec bs) = Inr a"
  then obtain n where "dec bs = Inr (a, n)" by (cases "dec bs") auto
  then show "map_sum id fst (dec (bs @ x)) = Inr a" by (simp add: ok_stable)
next
  fix bs e x
  assume "map_sum id fst (dec bs) = Inl e" and "e \<noteq> short"
  then have "dec bs = Inl e" by (cases "dec bs") auto
  with \<open>e \<noteq> short\<close> show "map_sum id fst (dec (bs @ x)) = Inl e" by (simp add: err_stable)
next
  fix bs a
  assume "map_sum id fst (dec bs) = Inr a"
  then obtain n where "dec bs = Inr (a, n)" by (cases "dec bs") auto
  then show "length (enc a) \<le> length bs" using enc_dec dec_split by blast
next
  fix bs e
  assume "map_sum id fst (dec bs) = Inl e" and "e = short"
  then have "dec bs = Inl short" by (cases "dec bs") auto
  then show "length bs \<le> max_len" using short_bound by (simp add: less_imp_le)
qed

section \<open>Bounded logs\<close>

locale bounded_log =
  fixes push :: "'x \<Rightarrow> 'r \<Rightarrow> 'r"
    and entries :: "'r \<Rightarrow> 'x list"
    and capacity :: "'r \<Rightarrow> nat"
    and valid :: "'r \<Rightarrow> bool"
  assumes valid_bound: "valid r \<Longrightarrow> 0 < capacity r \<and> length (entries r) \<le> capacity r"
    and push_valid: "valid r \<Longrightarrow> valid (push x r)"
    and push_capacity: "valid r \<Longrightarrow> capacity (push x r) = capacity r"
    and push_entries: "valid r \<Longrightarrow>
      entries (push x r) =
        (if length (entries r) = capacity r then tl (entries r) else entries r) @ [x]"
begin

lemma length_push: "valid r \<Longrightarrow> length (entries (push x r)) = min (length (entries r) + 1) (capacity r)"
  using push_entries [of r x] valid_bound [of r] by auto

lemma entries_fold:
  assumes "valid r"
  shows "valid (fold push xs r) \<and> capacity (fold push xs r) = capacity r \<and>
    entries (fold push xs r) =
      drop (length (entries r) + length xs - capacity r) (entries r @ xs)"
  using assms
proof (induction xs arbitrary: r)
  case Nil
  then show ?case using valid_bound by simp
next
  case (Cons x xs)
  let ?p = "push x r"
  have pv: "valid ?p" and pc: "capacity ?p = capacity r"
    using Cons.prems push_valid push_capacity by auto
  have b: "0 < capacity r" "length (entries r) \<le> capacity r"
    using valid_bound Cons.prems by auto
  have ents: "drop (length (entries ?p) + length xs - capacity r) (entries ?p @ xs)
      = drop (length (entries r) + length (x # xs) - capacity r) (entries r @ x # xs)"
  proof (cases "length (entries r) = capacity r")
    case True
    then obtain y ys where "entries r = y # ys" using b by (cases "entries r") auto
    then show ?thesis using push_entries [OF Cons.prems, of x] True by simp
  next
    case False
    then show ?thesis using push_entries [OF Cons.prems, of x] by simp
  qed
  show ?case using Cons.IH [OF pv] pc ents by simp
qed

text \<open>After any sequence of pushes the log holds the newest entries, in order.\<close>

lemma entries_fold_empty:
  assumes "valid r" and "entries r = []"
  shows "entries (fold push xs r) = drop (length xs - capacity r) xs"
  using entries_fold [OF assms(1), of xs] assms(2) by simp

lemma push_newest: "valid r \<Longrightarrow> last (entries (push x r)) = x"
  by (simp add: push_entries)

end

section \<open>Session registries\<close>

locale id_registry =
  fixes reg :: "'c \<Rightarrow> 's \<Rightarrow> 'i \<times> 's"
    and unreg :: "'i \<Rightarrow> 's \<Rightarrow> 's"
    and live :: "'s \<Rightarrow> 'i set"
    and valid :: "'s \<Rightarrow> bool"
    and ready :: "'s \<Rightarrow> bool" \<comment> \<open>there is an identifier left to hand out\<close>
  assumes reg_fresh: "valid s \<Longrightarrow> ready s \<Longrightarrow> reg c s = (i, s') \<Longrightarrow> i \<notin> live s"
    and reg_live: "valid s \<Longrightarrow> ready s \<Longrightarrow> reg c s = (i, s') \<Longrightarrow> live s' = insert i (live s)"
    and reg_valid: "valid s \<Longrightarrow> ready s \<Longrightarrow> reg c s = (i, s') \<Longrightarrow> valid s'"
    and unreg_live: "valid s \<Longrightarrow> live (unreg i s) = live s - {i}"
    and unreg_valid: "valid s \<Longrightarrow> valid (unreg i s)"
begin

text \<open>A handler that registers, works without touching the table of live sessions, and
  unregisters leaves the table as it found it.\<close>

lemma bracket:
  assumes "valid s" and "ready s" and "reg c s = (i, s1)"
    and "valid s2" and "live s2 = live s1"
  shows "live (unreg i s2) = live s \<and> valid (unreg i s2)"
  using assms reg_fresh [OF assms(1-3)] reg_live [OF assms(1-3)]
  by (simp add: unreg_live unreg_valid)

text \<open>Sessions never share an identifier.\<close>

lemma reg_distinct:
  assumes "valid s" and "ready s" and "reg c s = (i, s1)" and "ready s1" and "reg d s1 = (j, s2)"
  shows "i \<noteq> j"
  using reg_fresh [OF reg_valid [OF assms(1-3)] assms(4,5)] reg_live [OF assms(1-3)] by blast

end

section \<open>Permit pools\<close>

locale permit_pool =
  fixes admit :: "'k \<Rightarrow> 's \<Rightarrow> 's option"
    and release :: "'k \<Rightarrow> 's \<Rightarrow> 's option" \<comment> \<open>\<open>None\<close> is a panic\<close>
    and held :: "'s \<Rightarrow> 'k multiset"
    and valid :: "'s \<Rightarrow> bool"
    and fits :: "'k multiset \<Rightarrow> bool" \<comment> \<open>the caps\<close>
  assumes admit_iff: "valid s \<Longrightarrow> admit k s \<noteq> None \<longleftrightarrow> fits (add_mset k (held s))"
    and admit_held: "valid s \<Longrightarrow> admit k s = Some s' \<Longrightarrow> valid s' \<and> held s' = add_mset k (held s)"
    and release_held: "valid s \<Longrightarrow> k \<in># held s \<Longrightarrow>
      \<exists>s'. release k s = Some s' \<and> valid s' \<and> held s' = held s - {#k#}"
    and fits_mono: "fits (add_mset k M) \<Longrightarrow> fits M"
begin

lemma admit_fits: "valid s \<Longrightarrow> admit k s = Some s' \<Longrightarrow> fits (held s')"
  using admit_iff [of s k] admit_held [of s k s'] by auto

lemma release_fits:
  assumes "valid s" and "k \<in># held s" and "fits (held s)" and "release k s = Some s'"
  shows "valid s' \<and> held s' = held s - {#k#} \<and> fits (held s')"
proof -
  have "held s = add_mset k (held s - {#k#})" using assms(2) by simp
  then have "fits (held s - {#k#})" using assms(3) fits_mono by metis
  then show ?thesis using release_held [OF assms(1,2)] assms(4) by auto
qed

text \<open>A slot that was given back can be taken again.\<close>

lemma release_admit:
  assumes "valid s" and "k \<in># held s" and "fits (held s)" and "release k s = Some s'"
  shows "\<exists>s''. admit k s' = Some s'' \<and> held s'' = held s"
proof -
  have r: "valid s'" "held s' = held s - {#k#}" using release_fits [OF assms] by auto
  then have "add_mset k (held s') = held s" using assms(2) by simp
  then show ?thesis using admit_iff [OF r(1), of k] admit_held [OF r(1), of k] assms(3) by auto
qed

end

section \<open>Transition systems\<close>

text \<open>The states a system reaches over a sequence of events.\<close>

inductive steps :: "('s \<Rightarrow> 'e \<Rightarrow> 's \<Rightarrow> bool) \<Rightarrow> 's \<Rightarrow> 'e list \<Rightarrow> 's \<Rightarrow> bool" for step where
  steps_Nil: "steps step s [] s"
| steps_snoc: "steps step s es t \<Longrightarrow> step t e u \<Longrightarrow> steps step s (es @ [e]) u"

lemma steps_invariant:
  assumes "steps step s es t" and "I s" and "\<And>t e u. I t \<Longrightarrow> step t e u \<Longrightarrow> I u"
  shows "I t"
  using assms by (induction rule: steps.induct) auto

lemma steps_one: "step s e t \<Longrightarrow> steps step s [e] t"
  using steps_snoc [OF steps_Nil, of step s e t] by simp

lemma steps_append:
  assumes "steps step t fs u" and "steps step s es t"
  shows "steps step s (es @ fs) u"
  using assms
proof (induction rule: steps.induct)
  case (steps_snoc t fs' u e v)
  then show ?case using steps.steps_snoc [of step s "es @ fs'" u e v] by simp
qed simp

lemma steps_Cons: "step s e t \<Longrightarrow> steps step t es u \<Longrightarrow> steps step s (e # es) u"
  using steps_append [of step t es u s "[e]"] steps_one [of step s e t] by simp

lemma steps_invariant_on:
  assumes "steps step s es t" and "list_all P es" and "I s"
    and "\<And>t e u. I t \<Longrightarrow> step t e u \<Longrightarrow> P e \<Longrightarrow> I u"
  shows "I t"
  using assms by (induction rule: steps.induct) auto

locale simulation =
  fixes cstep :: "'c \<Rightarrow> 'e \<Rightarrow> 'c \<Rightarrow> bool"
    and astep :: "'a \<Rightarrow> 'e \<Rightarrow> 'a \<Rightarrow> bool"
    and abs :: "'c \<Rightarrow> 'a"
    and inv :: "'c \<Rightarrow> bool"
  assumes step_inv: "inv c \<Longrightarrow> cstep c e c' \<Longrightarrow> inv c'"
    and step_sim: "inv c \<Longrightarrow> cstep c e c' \<Longrightarrow> astep (abs c) e (abs c')"
begin

lemma run_inv: "steps cstep c es c' \<Longrightarrow> inv c \<Longrightarrow> inv c'"
  using steps_invariant [of cstep c es c' inv] step_inv by blast

text \<open>Every run of the concrete system is a run of the abstract one, event by event.\<close>

lemma run_sim: "steps cstep c es c' \<Longrightarrow> inv c \<Longrightarrow> steps astep (abs c) es (abs c')"
proof (induction rule: steps.induct)
  case (steps_Nil c)
  show ?case by (rule steps.steps_Nil)
next
  case (steps_snoc c es d e d')
  have "inv d" using run_inv [OF steps_snoc.hyps(1) steps_snoc.prems] .
  then have "astep (abs d) e (abs d')" using steps_snoc.hyps(2) by (rule step_sim)
  with steps_snoc.IH [OF steps_snoc.prems] show ?case by (rule steps.steps_snoc)
qed

end

lemma length_map_filter: "length (List.map_filter f xs) \<le> length xs"
  by (simp add: List.map_filter_def)

text \<open>A system that also takes steps of its own, which the abstract one does not see.\<close>

locale stuttering_simulation =
  fixes cstep :: "'c \<Rightarrow> 'e \<Rightarrow> 'c \<Rightarrow> bool"
    and astep :: "'a \<Rightarrow> 'f \<Rightarrow> 'a \<Rightarrow> bool"
    and abs :: "'c \<Rightarrow> 'a"
    and vis :: "'e \<Rightarrow> 'f option" \<comment> \<open>what the abstract system sees of an event\<close>
  assumes step_sim: "cstep c e c' \<Longrightarrow>
      (case vis e of None \<Rightarrow> abs c' = abs c | Some f \<Rightarrow> astep (abs c) f (abs c'))"
begin

lemma run_sim: "steps cstep c es c' \<Longrightarrow> steps astep (abs c) (List.map_filter vis es) (abs c')"
proof (induction rule: steps.induct)
  case (steps_Nil c)
  show ?case by (simp add: map_filter_simps steps.steps_Nil)
next
  case (steps_snoc c es d e d')
  have "List.map_filter vis (es @ [e]) =
      List.map_filter vis es @ (case vis e of None \<Rightarrow> [] | Some f \<Rightarrow> [f])"
    by (simp add: List.map_filter_def split: option.split)
  then show ?case using steps_snoc.IH step_sim [OF steps_snoc.hyps(2)] steps.steps_snoc
    by (fastforce split: option.splits)
qed

end

end
