(* ===== verification/Address.thy ===== *)
theory Address
  imports Std_Net Interfaces
begin

text \<open>
  \<open>src/protocol/address.rs\<close>: the SOCKS5 address codec (ATYP, address, port). \<open>decode\<close>
  returns the address and the number of bytes consumed; \<open>encode\<close> appends to a vector. The
  codec is shown to be self-delimiting (\<open>addr: prefix_codec\<close>) on well-formed addresses,
  that is, domains of at most 255 bytes; every decoded address is well-formed.
\<close>

section \<open>Model\<close>

datatype address =
    V4 ipv4_addr u16
  | V6 ipv6_addr u16
  | Domain string u16

datatype addr_error =
    AddrTruncated
  | BadAtyp u8
  | BadDomain

definition ATYP_V4 :: u8 where "ATYP_V4 = 0x01"
definition ATYP_DOMAIN :: u8 where "ATYP_DOMAIN = 0x03"
definition ATYP_V6 :: u8 where "ATYP_V6 = 0x04"

definition address_decode :: "bytes \<Rightarrow> (address \<times> nat, addr_error) result" where
  "address_decode buf =
     (case get buf 0 of
        None \<Rightarrow> Inl AddrTruncated
      | Some atyp \<Rightarrow>
          if atyp = ATYP_V4 then
            (if length buf < 7 then Inl AddrTruncated
             else
               let octets = take 4 (drop 1 buf);
                   port = u16_from_be (buf ! 5) (buf ! 6)
               in Inr (V4 (ipv4_of_octets octets) port, 7))
          else if atyp = ATYP_V6 then
            (if length buf < 19 then Inl AddrTruncated
             else
               let octets = take 16 (drop 1 buf);
                   port = u16_from_be (buf ! 17) (buf ! 18)
               in Inr (V6 (ipv6_of_octets octets) port, 19))
          else if atyp = ATYP_DOMAIN then
            (case get buf 1 of
               None \<Rightarrow> Inl AddrTruncated
             | Some l \<Rightarrow>
                 let len = unat l; total = 2 + len + 2
                 in if length buf < total then Inl AddrTruncated
                    else
                      (case from_utf8 (take len (drop 2 buf)) of
                         None \<Rightarrow> Inl BadDomain
                       | Some domain \<Rightarrow>
                           let port = u16_from_be (buf ! (2 + len)) (buf ! (2 + len + 1))
                           in Inr (Domain domain port, total)))
          else Inl (BadAtyp atyp))"

text \<open>\<open>domain.len() as u8\<close> keeps the low eight bits of the length.\<close>

fun address_encode :: "address \<Rightarrow> bytes \<Rightarrow> bytes" where
  "address_encode (V4 ip port) out = out @ [ATYP_V4] @ octets4 ip @ u16_to_be port"
| "address_encode (V6 ip port) out = out @ [ATYP_V6] @ octets6 ip @ u16_to_be port"
| "address_encode (Domain domain port) out =
     out @ [ATYP_DOMAIN] @ [of_nat (length domain)] @ as_bytes domain @ u16_to_be port"

text \<open>The bytes an address occupies on the wire.\<close>

definition address_bytes :: "address \<Rightarrow> bytes" where
  "address_bytes a = address_encode a []"

text \<open>Well-formed: what the wire format can carry.\<close>

fun wf_address :: "address \<Rightarrow> bool" where
  "wf_address (V4 ip port) = True"
| "wf_address (V6 ip port) = True"
| "wf_address (Domain domain port) \<longleftrightarrow> valid_str domain \<and> length domain \<le> 255"

text \<open>\<open>addr_from_socket\<close> of \<open>src/server/udp.rs\<close> and \<open>socket_addr_to_address\<close> of
  \<open>src/server/connect.rs\<close>, two copies of the same function.\<close>

fun addr_from_socket :: "socket_addr \<Rightarrow> address" where
  "addr_from_socket (SockV4 ip p) = V4 ip p"
| "addr_from_socket (SockV6 ip p f s) = V6 ip p"

section \<open>The codec laws\<close>

lemmas atyp_defs = ATYP_V4_def ATYP_DOMAIN_def ATYP_V6_def

lemma address_encode_append [wire]: "address_encode a out = out @ address_bytes a"
  by (cases a) (simp_all add: address_bytes_def)

lemma address_bytes_simps [simp, wire]:
  "address_bytes (V4 ip port) = ATYP_V4 # octets4 ip @ u16_to_be port"
  "address_bytes (V6 ip6 port) = ATYP_V6 # octets6 ip6 @ u16_to_be port"
  "address_bytes (Domain domain port) =
     ATYP_DOMAIN # of_nat (length domain) # as_bytes domain @ u16_to_be port"
  by (simp_all add: address_bytes_def)

lemma length_address_bytes [wire]:
  "length (address_bytes a) = (case a of V4 _ _ \<Rightarrow> 7 | V6 _ _ \<Rightarrow> 19 | Domain d _ \<Rightarrow> length d + 4)"
  by (cases a) simp_all

lemma address_bytes_nonempty [simp]: "address_bytes a \<noteq> []"
  by (cases a) simp_all

lemma wf_addr_from_socket [simp]: "wf_address (addr_from_socket sa)"
  by (cases sa) simp_all

lemma unat_of_nat_255: "n \<le> 255 \<Longrightarrow> unat (of_nat n :: u8) = n"
  by (simp add: unat_of_nat)

lemma port_at:
  "length xs = n \<Longrightarrow> u16_from_be ((xs @ u16_to_be p @ r) ! n) ((xs @ u16_to_be p @ r) ! Suc n) = p"
  using u16_from_be_to_be [of p] by (simp add: nth_append)

lemma decode_encode_v4: "address_decode (address_bytes (V4 ip p) @ rest) = Inr (V4 ip p, 7)"
  using port_at [of "octets4 ip" 4 p rest]
  by (simp add: address_decode_def get_def Let_def)

lemma decode_encode_v6: "address_decode (address_bytes (V6 ip p) @ rest) = Inr (V6 ip p, 19)"
  using port_at [of "octets6 ip" 16 p rest]
  by (simp add: address_decode_def get_def Let_def atyp_defs)

lemma decode_encode_domain:
  assumes "valid_str d" and "length d \<le> 255"
  shows "address_decode (address_bytes (Domain d p) @ rest) = Inr (Domain d p, length d + 4)"
  using assms port_at [of "as_bytes d" "length d" p rest]
  by (simp add: address_decode_def get_def Let_def atyp_defs unat_of_nat_255)

lemma take_with_port: "Suc n < length bs \<Longrightarrow> take n bs @ [bs ! n, bs ! Suc n] = take (n + 2) bs"
  by (simp add: take_Suc_conv_app_nth)

lemma take_head: "bs \<noteq> [] \<Longrightarrow> bs ! 0 # take n (drop 1 bs) = take (Suc n) bs"
  by (cases bs) simp_all

lemma decode_domain:
  assumes l: "l = unat (bs ! 1)" "2 + l + 2 \<le> length bs" and d: "from_utf8 (take l (drop 2 bs)) = Some d"
  shows "valid_str d \<and> length d = l \<and>
    [bs ! 0, bs ! 1] @ as_bytes d @ [bs ! (2 + l), bs ! Suc (2 + l)] = take (2 + l + 2) bs"
proof -
  have s: "valid_str d" "as_bytes d = take l (drop 2 bs)" using from_utf8_valid [OF d] by blast+
  then have "length d = length (take l (drop 2 bs))" by (metis length_as_bytes)
  then have "length d = l" using l(2) by simp
  moreover have "[bs ! 0, bs ! 1] @ take l (drop 2 bs) = take (2 + l) bs"
    using l(2) by (cases bs; cases "tl bs") auto
  moreover have "take (2 + l) bs @ [bs ! (2 + l), bs ! Suc (2 + l)] = take (2 + l + 2) bs"
    using l(2) by (intro take_with_port) simp
  ultimately show ?thesis using s by (metis append.assoc)
qed

lemma decode_inv:
  assumes "address_decode bs = Inr (a, n)"
  shows "wf_address a \<and> n \<le> length bs \<and> address_bytes a = take n bs"
proof -
  from assms have ne: "bs \<noteq> []"
    by (auto simp: address_decode_def get_def split: if_splits)
  let ?t = "bs ! 0"
  from assms ne consider
      (v4) "?t = ATYP_V4" "\<not> length bs < 7" "n = 7"
        "a = V4 (ipv4_of_octets (take 4 (drop 1 bs))) (u16_from_be (bs ! 5) (bs ! 6))"
    | (v6) "?t = ATYP_V6" "\<not> length bs < 19" "n = 19"
        "a = V6 (ipv6_of_octets (take 16 (drop 1 bs))) (u16_from_be (bs ! 17) (bs ! 18))"
    | (dom) d where "?t = ATYP_DOMAIN" "1 < length bs" "\<not> length bs < 2 + unat (bs ! 1) + 2"
        "from_utf8 (take (unat (bs ! 1)) (drop 2 bs)) = Some d" "n = 2 + unat (bs ! 1) + 2"
        "a = Domain d (u16_from_be (bs ! (2 + unat (bs ! 1))) (bs ! (2 + unat (bs ! 1) + 1)))"
    by (auto simp: address_decode_def get_def Let_def split: if_splits option.splits)
  then show ?thesis
  proof cases
    case v4
    then have "address_bytes a = (?t # take 4 (drop 1 bs)) @ [bs ! 5, bs ! 6]"
      by (simp add: octets4_of_octets)
    also have "\<dots> = take 5 bs @ [bs ! 5, bs ! Suc 5]" using ne take_head [of bs 4] by simp
    finally have "address_bytes a = take n bs"
      using v4(2,3) take_with_port [of 5 bs] by simp
    moreover have "wf_address a" using v4(4) by simp
    ultimately show ?thesis using v4(2,3) by simp
  next
    case v6
    then have "address_bytes a = (?t # take 16 (drop 1 bs)) @ [bs ! 17, bs ! 18]"
      by (simp add: octets6_of_octets)
    also have "\<dots> = take 17 bs @ [bs ! 17, bs ! Suc 17]" using ne take_head [of bs 16] by simp
    finally have "address_bytes a = take n bs"
      using v6(2,3) take_with_port [of 17 bs] by simp
    moreover have "wf_address a" using v6(4) by simp
    ultimately show ?thesis using v6(2,3) by simp
  next
    case dom
    let ?l = "unat (bs ! 1)"
    have d: "valid_str d" "length d = ?l"
      "[?t, bs ! 1] @ as_bytes d @ [bs ! (2 + ?l), bs ! Suc (2 + ?l)] = take (2 + ?l + 2) bs"
      using decode_domain [OF refl _ dom(4)] dom(3) by simp_all
    then have "address_bytes a = take n bs" using dom(1,5,6) by simp
    moreover have "wf_address a"
      using dom(6) d(1,2) unat_u8_less [of "bs ! 1"] by (simp del: unat_u8_less)
    ultimately show ?thesis using dom(3,5) by simp
  qed
qed

lemma decode_err_stable:
  assumes "address_decode bs = Inl e" and "e \<noteq> AddrTruncated"
  shows "address_decode (bs @ x) = Inl e"
proof -
  from assms consider
      (atyp) "bs \<noteq> []" "bs ! 0 \<noteq> ATYP_V4" "bs ! 0 \<noteq> ATYP_V6" "bs ! 0 \<noteq> ATYP_DOMAIN" "e = BadAtyp (bs ! 0)"
    | (dom) "bs \<noteq> []" "bs ! 0 = ATYP_DOMAIN" "1 < length bs" "4 + unat (bs ! 1) \<le> length bs"
        "from_utf8 (take (unat (bs ! 1)) (drop 2 bs)) = None" "e = BadDomain"
    by (auto simp: address_decode_def get_def Let_def split: if_splits option.splits)
  then show ?thesis
  proof cases
    case atyp
    then show ?thesis by (simp add: address_decode_def get_def nth_append)
  next
    case dom
    then show ?thesis by (simp add: address_decode_def get_def Let_def nth_append atyp_defs)
  qed
qed

lemma decode_short_strict:
  assumes "wf_address a" and "n < length (address_bytes a)"
  shows "address_decode (take n (address_bytes a)) = Inl AddrTruncated"
proof (cases n)
  case 0
  then show ?thesis by (simp add: address_decode_def get_def)
next
  case (Suc m)
  with assms show ?thesis
    by (cases a; cases m)
      (auto simp: address_decode_def get_def Let_def atyp_defs unat_of_nat_255)
qed

lemma decode_short_cases:
  "address_decode bs = Inl AddrTruncated \<Longrightarrow> length bs < 19 \<or> length bs < 4 + unat (bs ! 1)"
  by (auto simp: address_decode_def get_def Let_def split: if_splits option.splits)

lemma decode_short_bound: "address_decode bs = Inl AddrTruncated \<Longrightarrow> length bs < 259"
  using decode_short_cases [of bs] unat_u8_less [of "bs ! 1"] by linarith

interpretation addr: prefix_codec address_bytes address_decode wf_address AddrTruncated 259
proof
  fix a rest
  assume "wf_address a"
  then show "address_decode (address_bytes a @ rest) = Inr (a, length (address_bytes a))"
    by (cases a) (simp_all only: decode_encode_v4 decode_encode_v6 decode_encode_domain
        wf_address.simps length_address_bytes address.case)
qed (fact decode_inv decode_err_stable decode_short_strict decode_short_bound)+

section \<open>Properties\<close>

text \<open>C35: decoding what \<open>encode\<close> writes, with anything after it, gives the address back and
  consumes exactly its bytes; and whatever \<open>decode\<close> accepts is the encoding of a
  well-formed address, so every address has one encoding.\<close>

theorem address_roundtrip:
  "(wf_address a \<longrightarrow>
      address_decode (address_encode a [] @ rest) = Inr (a, length (address_encode a []))) \<and>
   (address_decode bs = Inr (b, n) \<longrightarrow>
      wf_address b \<and> n \<le> length bs \<and> address_encode b [] = take n bs)"
  using addr.dec_enc [of a rest] addr.enc_dec [of bs b n] by (auto simp: address_bytes_def)

theorem address_roundtrip_witness:
  "address_decode (address_encode (Domain ''ab'' 80) [] @ [9]) = Inr (Domain ''ab'' 80, 6)"
proof -
  have "wf_address (Domain ''ab'' 80)" by code_simp
  with address_roundtrip [of "Domain ''ab'' 80" "[9]" "[]" "Domain [] 0" 0] show ?thesis by simp
qed

text \<open>A proper prefix of an encoded address is reported as truncated, never as malformed
  or as another address; any other error stays the same whatever follows; and a buffer of
  259 bytes is never truncated.\<close>

theorem address_incremental:
  "(wf_address a \<and> n < length (address_encode a []) \<longrightarrow>
      address_decode (take n (address_encode a [])) = Inl AddrTruncated) \<and>
   (address_decode bs = Inl e \<and> e \<noteq> AddrTruncated \<longrightarrow> address_decode (bs @ x) = Inl e) \<and>
   (address_decode bs = Inl AddrTruncated \<longrightarrow> length bs < 259)"
  using addr.short_strict [of a n] addr.err_stable [of bs e x] addr.short_bound [of bs]
  by (auto simp: address_bytes_def)

theorem address_incremental_witness:
  "address_decode (take 6 (address_encode (V4 (Ipv4 1 2 3 4) 80) [])) = Inl AddrTruncated"
  using address_incremental [of "V4 (Ipv4 1 2 3 4) 80" 6 "[]" BadDomain "[]"] by simp

end
