(* ===== verification/Establish.thy ===== *)
theory Establish
  imports Dns Address Errors
begin

text \<open>
  \<open>src/server/connect.rs\<close>, reaching the target: both DNS families are looked up while the
  candidates already known are dialled one after the other. The body of the loop is split as
  the source has it: its head starts the next attempt or gives up, and \<open>select!\<close> then takes
  one ready branch. A branch is an event with the time it fires at; which of several ready
  branches fires first is left open, so every statement is about all sequences of events.
  \<open>dialed\<close> and \<open>answered\<close> record, for the statements, the attempts made and the addresses the
  lookups returned; the code does not read them.
\<close>

section \<open>Model\<close>

datatype establish_error =
    EstDns string
  | EstBlocked
  | EstDial io_error

fun add_candidates ::
  "egress \<Rightarrow> socket_addr list \<Rightarrow> socket_addr list \<times> socket_addr set \<times> bool
   \<Rightarrow> socket_addr list \<times> socket_addr set \<times> bool" where
  "add_candidates eg [] (queue, seen, blocked) = (queue, seen, blocked)"
| "add_candidates eg (a # as) (queue, seen, blocked) =
     (if is_blocked eg (sock_ip a) then add_candidates eg as (queue, seen, True)
      else if a \<notin> seen then add_candidates eg as (queue @ [a], insert a seen, blocked)
      else add_candidates eg as (queue, seen, blocked))"

record est =
  done_a :: bool
  done_aaaa :: bool
  error_a :: string
  error_aaaa :: string
  queue :: "socket_addr list"
  seen :: "socket_addr set"
  blocked :: bool
  active_dial :: "socket_addr option"
  attempt_deadline :: instant
  last_error :: "io_error option"
  dialed :: "socket_addr list"
  answered :: "socket_addr list"

definition est_init :: "instant \<Rightarrow> est" where
  "est_init deadline =
     \<lparr>done_a = False, done_aaaa = False, error_a = [], error_aaaa = [], queue = [], seen = {},
      blocked = False, active_dial = None, attempt_deadline = deadline, last_error = None,
      dialed = [], answered = []\<rparr>"

text \<open>\<open>now + deadline.saturating_duration_since(now) / divisor\<close>, with the divisor
  \<open>u32::try_from(queue.len() + 1).unwrap_or(u32::MAX)\<close>.\<close>

definition share_deadline :: "instant \<Rightarrow> instant \<Rightarrow> nat \<Rightarrow> instant" where
  "share_deadline deadline now queued = now + (deadline - now) div min (queued + 1) (2 ^ 32 - 1)"

datatype 's est_outcome = Waiting | Connected 's | Failed establish_error

text \<open>The head of the loop.\<close>

definition est_head :: "instant \<Rightarrow> instant \<Rightarrow> instant \<Rightarrow> est \<Rightarrow> est \<times> 's est_outcome" where
  "est_head deadline started now st =
     (if active_dial st = None then
        (case queue st of
           a # rest \<Rightarrow>
             (st\<lparr>queue := rest, attempt_deadline := share_deadline deadline now (length rest),
                 active_dial := Some a, dialed := dialed st @ [a]\<rparr>, Waiting)
         | [] \<Rightarrow>
             if done_a st \<and> done_aaaa st then
               (st, Failed
                  (case last_error st of
                     Some e \<Rightarrow> EstDial e
                   | None \<Rightarrow>
                       if blocked st then EstBlocked
                       else EstDns (''failed after '' @ show_nat (as_millis (now - started)) @ '' ms: A: ''
                              @ error_a st @ ''; AAAA: '' @ error_aaaa st)))
             else (st, Waiting))
      else (st, Waiting))"

datatype 's est_event =
    AnswerA "(socket_addr list, resolve_error) result"
  | AnswerAaaa "(socket_addr list, resolve_error) result"
  | DialDone "('s, io_error) result"
  | AttemptTimeout
  | DeadlineElapsed

text \<open>The conditions on the branches of \<open>select!\<close>, and when a timer can fire.\<close>

fun est_enabled :: "instant \<Rightarrow> instant \<Rightarrow> est \<Rightarrow> 's est_event \<Rightarrow> bool" where
  "est_enabled deadline now st (AnswerA r) = (\<not> done_a st)"
| "est_enabled deadline now st (AnswerAaaa r) = (\<not> done_aaaa st)"
| "est_enabled deadline now st (DialDone r) = (active_dial st \<noteq> None)"
| "est_enabled deadline now st AttemptTimeout = (active_dial st \<noteq> None \<and> attempt_deadline st \<le> now)"
| "est_enabled deadline now st DeadlineElapsed = (deadline \<le> now)"

text \<open>What both lookup branches do with an answer, after setting their flag.\<close>

definition take_answer :: "egress \<Rightarrow> socket_addr list \<Rightarrow> est \<Rightarrow> est" where
  "take_answer eg as st =
     (case add_candidates eg as (queue st, seen st, blocked st) of
        (q, s, b) \<Rightarrow> st\<lparr>queue := q, seen := s, blocked := b, answered := answered st @ as\<rparr>)"

definition shrink_attempt :: "instant \<Rightarrow> instant \<Rightarrow> est \<Rightarrow> est" where
  "shrink_attempt deadline now st =
     (if active_dial st \<noteq> None \<and> queue st \<noteq> [] then
        st\<lparr>attempt_deadline :=
             min (attempt_deadline st) (share_deadline deadline now (length (queue st)))\<rparr>
      else st)"

fun est_branch ::
  "egress \<Rightarrow> instant \<Rightarrow> instant \<Rightarrow> instant \<Rightarrow> est \<Rightarrow> 's est_event \<Rightarrow> est \<times> 's est_outcome"
where
  "est_branch eg deadline started now st (AnswerA r) =
     (let st = st\<lparr>done_a := True\<rparr>;
          st = (case r of Inr as \<Rightarrow> take_answer eg as st | Inl e \<Rightarrow> st\<lparr>error_a := show_resolve_error e\<rparr>)
      in (shrink_attempt deadline now st, Waiting))"
| "est_branch eg deadline started now st (AnswerAaaa r) =
     (let st = st\<lparr>done_aaaa := True\<rparr>;
          st = (case r of Inr as \<Rightarrow> take_answer eg as st | Inl e \<Rightarrow> st\<lparr>error_aaaa := show_resolve_error e\<rparr>)
      in (shrink_attempt deadline now st, Waiting))"
| "est_branch eg deadline started now st (DialDone r) =
     (let st = st\<lparr>active_dial := None\<rparr>
      in case r of
           Inr stream \<Rightarrow> (st, Connected stream)
         | Inl e \<Rightarrow> (st\<lparr>last_error := Some e\<rparr>, Waiting))"
| "est_branch eg deadline started now st AttemptTimeout =
     (st\<lparr>active_dial := None,
         last_error := Some (IoError IoTimedOut ''connection attempt timed out'')\<rparr>, Waiting)"
| "est_branch eg deadline started now st DeadlineElapsed =
     (st, Failed
        (if active_dial st \<noteq> None \<or> last_error st \<noteq> None
         then EstDial (IoError IoTimedOut ''DNS and connection budget exhausted'')
         else if blocked st then EstBlocked
         else EstDns (''timed out after '' @ show_nat (as_millis (now - started)) @ '' ms; A: ''
                @ error_a st @ ''; AAAA: '' @ error_aaaa st)))"

text \<open>The loop, at time \<open>now\<close>, over the events to come. A branch whose condition does not hold
  is not polled, so its event is passed over. Running out of events is still waiting.\<close>

fun est_loop ::
  "egress \<Rightarrow> instant \<Rightarrow> instant \<Rightarrow> instant \<Rightarrow> est \<Rightarrow> (instant \<times> 's est_event) list
   \<Rightarrow> est \<times> 's est_outcome"
where
  "est_loop eg deadline started now st [] = est_head deadline started now st"
| "est_loop eg deadline started now st ((t, ev) # evs) =
     (case (est_head deadline started now st :: est \<times> 's est_outcome) of
        (st, Waiting) \<Rightarrow>
          if est_enabled deadline t st ev then
            (case est_branch eg deadline started t st ev of
               (st, Waiting) \<Rightarrow> est_loop eg deadline started t st evs
             | (st, r) \<Rightarrow> (st, r))
          else est_loop eg deadline started t st evs
      | (st, r) \<Rightarrow> (st, r))"

text \<open>\<open>dial_one\<close>: the outcome of \<open>TcpStream::connect\<close>, \<open>None\<close> when the deadline passes first.\<close>

definition dial_one :: "socket_addr \<Rightarrow> ('s, io_error) result option \<Rightarrow> ('s, io_error) result" where
  "dial_one a r =
     (case r of
        Some res \<Rightarrow> res
      | None \<Rightarrow> Inl (IoError IoTimedOut (''connect to '' @ show_sock a @ '' timed out'')))"

text \<open>\<open>establish\<close>. A literal target is one attempt, whose outcome is \<open>direct\<close>; a domain runs
  the loop on \<open>evs\<close>. The first component lists the addresses dialled.\<close>

fun establish ::
  "address \<Rightarrow> config \<Rightarrow> instant \<Rightarrow> instant \<Rightarrow> ('s, io_error) result option
   \<Rightarrow> (instant \<times> 's est_event) list \<Rightarrow> socket_addr list \<times> 's est_outcome" where
  "establish (Domain host port) cfg started deadline direct evs =
     (case est_loop (cfg_egress cfg) deadline started started (est_init deadline) evs of
        (st, r) \<Rightarrow> (dialed st, r))"
| "establish (V4 ip port) cfg started deadline direct evs =
     (let a = sock_new (IpV4 ip) port
      in if is_blocked (cfg_egress cfg) (sock_ip a) then ([], Failed EstBlocked)
         else ([a], case dial_one a direct of Inr s \<Rightarrow> Connected s | Inl e \<Rightarrow> Failed (EstDial e)))"
| "establish (V6 ip port) cfg started deadline direct evs =
     (let a = sock_new (IpV6 ip) port
      in if is_blocked (cfg_egress cfg) (sock_ip a) then ([], Failed EstBlocked)
         else ([a], case dial_one a direct of Inr s \<Rightarrow> Connected s | Inl e \<Rightarrow> Failed (EstDial e)))"

fun address_to_string :: "address \<Rightarrow> string" where
  "address_to_string (V4 ip port) = show_ipv4 ip @ '':'' @ show_nat (unat port)"
| "address_to_string (V6 ip port) = ''['' @ show_ipv6 ip @ '']:'' @ show_nat (unat port)"
| "address_to_string (Domain host port) = host @ '':'' @ show_nat (unat port)"

section \<open>Invariant\<close>

text \<open>The candidates are the unblocked addresses answered so far, each once: those dialled
  and those still queued.\<close>

definition est_inv :: "egress \<Rightarrow> est \<Rightarrow> bool" where
  "est_inv eg st \<longleftrightarrow>
     distinct (dialed st @ queue st) \<and>
     set (dialed st @ queue st) = seen st \<and>
     (\<forall>a. a \<in> seen st \<longleftrightarrow> a \<in> set (answered st) \<and> \<not> is_blocked eg (sock_ip a)) \<and>
     (blocked st \<longleftrightarrow> (\<exists>a \<in> set (answered st). is_blocked eg (sock_ip a))) \<and>
     (dialed st = [] \<longleftrightarrow> active_dial st = None \<and> last_error st = None)"

lemma est_inv_init: "est_inv eg (est_init d)"
  by (simp add: est_inv_def est_init_def)

lemma add_candidates_spec:
  assumes "add_candidates eg as (q, s, b) = (q', s', b')" and "set q \<subseteq> s"
  shows "\<exists>new. q' = q @ new \<and> distinct new \<and> set new \<inter> s = {} \<and> s' = s \<union> set new \<and>
    s' = s \<union> {a \<in> set as. \<not> is_blocked eg (sock_ip a)} \<and>
    (b' \<longleftrightarrow> b \<or> (\<exists>a \<in> set as. is_blocked eg (sock_ip a)))"
  using assms
proof (induction as arbitrary: q s b)
  case Nil
  then show ?case by auto
next
  case (Cons a as)
  show ?case
  proof (cases "is_blocked eg (sock_ip a)")
    case True
    with Cons.prems have "add_candidates eg as (q, s, True) = (q', s', b')" by simp
    from Cons.IH [OF this Cons.prems(2)] show ?thesis using True by auto
  next
    case nb: False
    show ?thesis
    proof (cases "a \<in> s")
      case True
      with nb Cons.prems have "add_candidates eg as (q, s, b) = (q', s', b')" by simp
      from Cons.IH [OF this Cons.prems(2)] show ?thesis using nb True by auto
    next
      case False
      with nb Cons.prems have "add_candidates eg as (q @ [a], insert a s, b) = (q', s', b')" by simp
      moreover have "set (q @ [a]) \<subseteq> insert a s" using Cons.prems(2) by auto
      ultimately obtain new where n: "q' = (q @ [a]) @ new" "distinct new" "set new \<inter> insert a s = {}"
        "s' = insert a s \<union> set new" "s' = insert a s \<union> {a \<in> set as. \<not> is_blocked eg (sock_ip a)}"
        "b' \<longleftrightarrow> b \<or> (\<exists>a \<in> set as. is_blocked eg (sock_ip a))"
        using Cons.IH by blast
      then show ?thesis using nb False by (intro exI [of _ "a # new"]) auto
    qed
  qed
qed

lemma est_inv_take:
  assumes "est_inv eg st"
  shows "est_inv eg (take_answer eg as st)"
proof -
  obtain q s b where r: "add_candidates eg as (queue st, seen st, blocked st) = (q, s, b)"
    by (metis prod_cases3)
  moreover have "set (queue st) \<subseteq> seen st" using assms by (auto simp: est_inv_def)
  ultimately obtain new where "q = queue st @ new" "distinct new" "set new \<inter> seen st = {}"
    "s = seen st \<union> set new" "s = seen st \<union> {a \<in> set as. \<not> is_blocked eg (sock_ip a)}"
    "b \<longleftrightarrow> blocked st \<or> (\<exists>a \<in> set as. is_blocked eg (sock_ip a))"
    using add_candidates_spec [of eg as "queue st" "seen st" "blocked st" q s b] by blast
  note new = this
  have st: "take_answer eg as st = st\<lparr>queue := q, seen := s, blocked := b, answered := answered st @ as\<rparr>"
    by (simp add: take_answer_def r)
  have "distinct (dialed st @ q)" "set (dialed st @ q) = s"
    using assms new(1-4) unfolding est_inv_def by auto
  moreover have "a \<in> s \<longleftrightarrow> a \<in> set (answered st @ as) \<and> \<not> is_blocked eg (sock_ip a)" for a
    using assms unfolding est_inv_def new(5) by auto
  moreover have "b \<longleftrightarrow> (\<exists>a \<in> set (answered st @ as). is_blocked eg (sock_ip a))"
    using assms new(6) unfolding est_inv_def by auto
  ultimately show ?thesis using assms unfolding est_inv_def st by simp
qed

lemma est_inv_shrink [simp]: "est_inv eg (shrink_attempt d t st) = est_inv eg st"
  by (simp add: est_inv_def shrink_attempt_def)

lemma est_head_cases:
  assumes "est_head d s t st = (st', r)"
  shows "st' = st \<or> (\<exists>a rest. r = Waiting \<and> active_dial st = None \<and> queue st = a # rest \<and>
    st' = st\<lparr>queue := rest, attempt_deadline := share_deadline d t (length rest),
             active_dial := Some a, dialed := dialed st @ [a]\<rparr>)"
  using assms by (auto simp: est_head_def split: list.splits if_splits)

lemma est_inv_head: "est_inv eg st \<Longrightarrow> est_head d s t st = (st', r) \<Longrightarrow> est_inv eg st'"
  by (drule est_head_cases) (auto simp: est_inv_def)

lemma est_inv_flags:
  "est_inv eg st \<Longrightarrow> est_inv eg (st\<lparr>done_a := x\<rparr>)" "est_inv eg st \<Longrightarrow> est_inv eg (st\<lparr>done_aaaa := x\<rparr>)"
  "est_inv eg st \<Longrightarrow> est_inv eg (st\<lparr>error_a := y\<rparr>)" "est_inv eg st \<Longrightarrow> est_inv eg (st\<lparr>error_aaaa := y\<rparr>)"
  by (simp_all add: est_inv_def)

lemma est_inv_dropped:
  assumes "est_inv eg st" and "active_dial st \<noteq> None"
  shows "est_inv eg (st\<lparr>active_dial := None, last_error := Some e\<rparr>)"
  using assms by (auto simp: est_inv_def)

text \<open>What an attempt that succeeded keeps of the invariant.\<close>

definition est_cand :: "egress \<Rightarrow> est \<Rightarrow> bool" where
  "est_cand eg st \<longleftrightarrow>
     distinct (dialed st) \<and>
     (\<forall>a \<in> set (dialed st). a \<in> set (answered st) \<and> \<not> is_blocked eg (sock_ip a))"

lemma est_inv_cand: "est_inv eg st \<Longrightarrow> est_cand eg st"
  by (auto simp: est_inv_def est_cand_def)

lemma est_branch_connected:
  assumes "est_branch eg d s t st ev = (st', Connected x)"
  shows "dialed st' = dialed st \<and> answered st' = answered st \<and> (\<exists>r. ev = DialDone r)"
  using assms by (cases "(eg, d, s, t, st, ev)" rule: est_branch.cases) (auto simp: Let_def split: sum.splits)

lemma est_inv_branch:
  assumes "est_inv eg st" and "est_enabled d t st ev" and "est_branch eg d s t st ev = (st', r)"
    and "\<And>x. r \<noteq> Connected x"
  shows "est_inv eg st'"
  using assms
  by (cases "(eg, d, s, t, st, ev)" rule: est_branch.cases)
    (auto simp: Let_def est_inv_take est_inv_flags est_inv_dropped split: sum.splits)

text \<open>The lookups' answers among the events.\<close>

definition answers :: "(instant \<times> 's est_event) list \<Rightarrow> socket_addr set" where
  "answers evs =
     {a. \<exists>t as. ((t, AnswerA (Inr as)) \<in> set evs \<or> (t, AnswerAaaa (Inr as)) \<in> set evs) \<and> a \<in> set as}"

lemma answers_Cons: "answers evs \<subseteq> answers (e # evs)"
  by (auto simp: answers_def)

lemma finite_answers: "finite (answers evs)"
proof (induction evs)
  case (Cons e evs)
  have "answers (e # evs) \<subseteq>
      (case snd e of AnswerA (Inr as) \<Rightarrow> set as | AnswerAaaa (Inr as) \<Rightarrow> set as | _ \<Rightarrow> {}) \<union> answers evs"
    by (cases e) (auto simp: answers_def)
  moreover have "finite (case snd e of AnswerA (Inr as) \<Rightarrow> set as | AnswerAaaa (Inr as) \<Rightarrow> set as | _ \<Rightarrow> {})"
    by (simp split: est_event.split sum.split)
  ultimately show ?case using Cons by (metis finite_UnI finite_subset)
qed (simp add: answers_def)

lemma answered_step:
  "est_branch eg d s t st ev = (st', r) \<Longrightarrow> answered st' = answered st \<or>
     (\<exists>as. (ev = AnswerA (Inr as) \<or> ev = AnswerAaaa (Inr as)) \<and> answered st' = answered st @ as)"
  by (cases "(eg, d, s, t, st, ev)" rule: est_branch.cases)
    (auto simp: Let_def take_answer_def shrink_attempt_def split: sum.splits prod.splits if_splits)

lemma answered_branch:
  assumes "est_branch eg d s t st ev = (st', r)"
  shows "set (answered st') \<subseteq> set (answered st) \<union> answers ((t, ev) # evs)"
proof -
  have "set as \<subseteq> answers ((t, AnswerA (Inr as)) # evs)" "set as \<subseteq> answers ((t, AnswerAaaa (Inr as)) # evs)"
    for as unfolding answers_def by (blast intro: list.set_intros(1))+
  note sub = this [THEN subsetD]
  from answered_step [OF assms] show ?thesis by (auto dest: sub)
qed

lemma est_loop_Cons:
  fixes evs :: "(instant \<times> 's est_event) list"
  assumes "est_loop eg d s now st ((t, ev) # evs) = (st', r)"
    and "(est_head d s now st :: est \<times> 's est_outcome) = (st1, r1)"
  shows "(r1 \<noteq> Waiting \<and> st' = st1 \<and> r = r1) \<or>
    (r1 = Waiting \<and> \<not> est_enabled d t st1 ev \<and> est_loop eg d s t st1 evs = (st', r)) \<or>
    (r1 = Waiting \<and> est_enabled d t st1 ev \<and>
       (\<exists>st2 r2. est_branch eg d s t st1 ev = (st2, r2) \<and>
          (if r2 = Waiting then est_loop eg d s t st2 evs = (st', r) else st' = st2 \<and> r = r2)))"
  using assms by (cases r1) (auto split: prod.splits est_outcome.splits if_splits)

lemma est_loop_inv:
  assumes "est_inv eg st" and "est_loop eg d s now st evs = (st', r)"
  shows "est_cand eg st' \<and> ((\<forall>x. r \<noteq> Connected x) \<longrightarrow> est_inv eg st') \<and>
    set (answered st') \<subseteq> set (answered st) \<union> answers evs"
  using assms
proof (induction evs arbitrary: now st)
  case Nil
  then have "est_inv eg st'" by (auto intro: est_inv_head)
  then show ?case using Nil est_head_cases [of d s now st st' r] by (auto simp: est_inv_cand)
next
  case (Cons e evs)
  obtain t ev where e: "e = (t, ev)" by (cases e)
  obtain st1 and r1 :: "'a est_outcome" where h: "est_head d s now st = (st1, r1)" by fastforce
  have i1: "est_inv eg st1" using est_inv_head [OF Cons.prems(1) h] .
  have a1: "answered st1 = answered st" using est_head_cases [OF h] by auto
  from est_loop_Cons [OF Cons.prems(2) [unfolded e] h]
  consider "st' = st1" "r1 = r" "r1 \<noteq> Waiting"
    | "est_loop eg d s t st1 evs = (st', r)"
    | st2 r2 where "est_enabled d t st1 ev" "est_branch eg d s t st1 ev = (st2, r2)"
        "if r2 = Waiting then est_loop eg d s t st2 evs = (st', r) else st' = st2 \<and> r = r2"
    by blast
  then show ?case
  proof cases
    case 1
    with i1 a1 show ?thesis by (auto simp: est_inv_cand)
  next
    case 2
    from Cons.IH [OF i1 this] a1 answers_Cons [of evs e] show ?thesis by auto
  next
    case 3
    have a2: "set (answered st2) \<subseteq> set (answered st) \<union> answers (e # evs)"
      using answered_branch [OF 3(2)] a1 by (auto simp: e)
    show ?thesis
    proof (cases "\<exists>x. r2 = Connected x")
      case True
      with 3 est_branch_connected [of eg d s t st1 ev st2] i1 a1 show ?thesis
        by (auto simp: est_cand_def est_inv_def)
    next
      case False
      have i2: "est_inv eg st2" using est_inv_branch [OF i1 3(1,2)] False by blast
      show ?thesis
      proof (cases "r2 = Waiting")
        case True
        with 3 have "est_loop eg d s t st2 evs = (st', r)" by simp
        from Cons.IH [OF i2 this] a2 answers_Cons [of evs e] show ?thesis by auto
      next
        case nw: False
        with 3 i2 a2 show ?thesis by (auto simp: est_inv_cand)
      qed
    qed
  qed
qed

text \<open>How a search that failed got there: at the deadline, or with nothing left to try.\<close>

lemma est_head_failed:
  assumes "est_head d s t st = (st', Failed e)"
  shows "st' = st \<and> active_dial st = None \<and> queue st = [] \<and> done_a st \<and> done_aaaa st \<and>
    e = (case last_error st of
           Some x \<Rightarrow> EstDial x
         | None \<Rightarrow> if blocked st then EstBlocked
                   else EstDns (''failed after '' @ show_nat (as_millis (t - s)) @ '' ms: A: ''
                              @ error_a st @ ''; AAAA: '' @ error_aaaa st))"
  using assms by (auto simp: est_head_def split: list.splits if_splits)

lemma est_head_idle: "est_head d s t st = (st', r) \<Longrightarrow> active_dial st' = None \<Longrightarrow> queue st' = []"
  by (auto simp: est_head_def split: list.splits if_splits)

lemma est_branch_failed:
  assumes "est_branch eg d s t st ev = (st', Failed e)" and "est_enabled d t st ev"
  shows "ev = DeadlineElapsed \<and> d \<le> t \<and> st' = st \<and>
    (if active_dial st \<noteq> None \<or> last_error st \<noteq> None then \<exists>x. e = EstDial x
     else if blocked st then e = EstBlocked else \<exists>m. e = EstDns m)"
  using assms
  by (cases "(eg, d, s, t, st, ev)" rule: est_branch.cases) (auto simp: Let_def split: sum.splits)

fun error_class :: "establish_error \<Rightarrow> bool \<Rightarrow> bool \<Rightarrow> bool" where
  "error_class (EstDial x) tried blk \<longleftrightarrow> tried"
| "error_class EstBlocked tried blk \<longleftrightarrow> \<not> tried \<and> blk"
| "error_class (EstDns m) tried blk \<longleftrightarrow> \<not> tried \<and> \<not> blk"

text \<open>The deadline fires among the events.\<close>

definition expires :: "instant \<Rightarrow> (instant \<times> 's est_event) list \<Rightarrow> bool" where
  "expires d evs \<longleftrightarrow> (\<exists>t. (t, DeadlineElapsed) \<in> set evs \<and> d \<le> t)"

lemma est_loop_failed:
  assumes "est_inv eg st" and "est_loop eg d s now st evs = (st', Failed e)"
  shows "error_class e (dialed st' \<noteq> []) (blocked st') \<and> (dialed st' = [] \<longrightarrow> queue st' = []) \<and>
    (expires d evs \<or> (queue st' = [] \<and> done_a st' \<and> done_aaaa st'))"
  using assms
proof (induction evs arbitrary: now st)
  case Nil
  then show ?case using est_head_failed [of d s now st st' e]
    by (auto simp: est_inv_def split: option.splits)
next
  case (Cons ev0 evs)
  obtain t ev where e: "ev0 = (t, ev)" by (cases ev0)
  obtain st1 and r1 :: "'a est_outcome" where h: "est_head d s now st = (st1, r1)" by fastforce
  have i1: "est_inv eg st1" using est_inv_head [OF Cons.prems(1) h] .
  have ex: "expires d evs \<Longrightarrow> expires d (ev0 # evs)" by (auto simp: expires_def)
  from est_loop_Cons [OF Cons.prems(2) [unfolded e] h]
  consider "st' = st1" "r1 = Failed e"
    | "est_loop eg d s t st1 evs = (st', Failed e)"
    | st2 where "est_enabled d t st1 ev" "est_branch eg d s t st1 ev = (st2, Waiting)"
        "est_loop eg d s t st2 evs = (st', Failed e)"
    | "est_enabled d t st1 ev" "est_branch eg d s t st1 ev = (st', Failed e)"
    by (metis est_outcome.distinct(5))
  then show ?case
  proof cases
    case 1
    with h est_head_failed [of d s now st st1 e] i1 show ?thesis
      by (auto simp: est_inv_def split: option.splits)
  next
    case 2
    from Cons.IH [OF i1 this] ex show ?thesis by blast
  next
    case 3
    have "est_inv eg st2" using est_inv_branch [OF i1 3(1,2)] by simp
    from Cons.IH [OF this 3(3)] ex show ?thesis by blast
  next
    case 4
    note f = est_branch_failed [OF 4(2,1)]
    then have "expires d (ev0 # evs)" by (auto simp: expires_def e)
    moreover have "dialed st' = [] \<longrightarrow> queue st' = []"
      using f i1 est_head_idle [OF h] by (simp add: est_inv_def)
    moreover have "error_class e (dialed st' \<noteq> []) (blocked st')"
      using f i1 by (auto simp: est_inv_def split: if_splits)
    ultimately show ?thesis by blast
  qed
qed

lemma est_loop_expires:
  assumes "expires d evs"
  shows "snd (est_loop eg d s now st evs) \<noteq> Waiting"
  using assms
proof (induction evs arbitrary: now st)
  case Nil
  then show ?case by (simp add: expires_def)
next
  case (Cons ev0 evs)
  obtain t ev where e: "ev0 = (t, ev)" by (cases ev0)
  obtain st1 and r1 :: "'a est_outcome" where h: "est_head d s now st = (st1, r1)" by fastforce
  show ?case
  proof (cases "ev = DeadlineElapsed \<and> d \<le> t")
    case True
    then show ?thesis using h by (cases r1) (simp_all add: e)
  next
    case False
    with Cons.prems have "expires d evs" by (auto simp: expires_def e)
    note IH = Cons.IH [OF this]
    obtain st2 r2 where "est_branch eg d s t st1 ev = (st2, r2)" by fastforce
    then show ?thesis using h IH by (cases r1; cases r2) (auto simp: e)
  qed
qed

section \<open>Properties\<close>

text \<open>C11: whatever the resolver answers and in whatever order answers, dial results and
  timeouts arrive, CONNECT never dials an address the egress policy blocks, dials no
  address twice, and dials only addresses the lookups returned or the literal target.\<close>

theorem establish_egress:
  assumes "establish target cfg started deadline direct evs = (ds, r)"
  shows "distinct ds \<and> (\<forall>a \<in> set ds. \<not> is_blocked (cfg_egress cfg) (sock_ip a)) \<and>
    (case target of
       Domain host port \<Rightarrow> set ds \<subseteq> answers evs
     | V4 ip port \<Rightarrow> set ds \<subseteq> {sock_new (IpV4 ip) port}
     | V6 ip port \<Rightarrow> set ds \<subseteq> {sock_new (IpV6 ip) port})"
proof (cases target)
  case (Domain host port)
  with assms obtain st where l:
    "est_loop (cfg_egress cfg) deadline started started (est_init deadline) evs = (st, r)" "ds = dialed st"
    by (auto split: prod.splits)
  have "est_cand (cfg_egress cfg) st" "set (answered st) \<subseteq> answers evs"
    using est_loop_inv [OF est_inv_init l(1)] by (auto simp: est_init_def)
  then show ?thesis by (auto simp: Domain l(2) est_cand_def)
qed (use assms in \<open>auto simp: Let_def split: if_splits\<close>)

definition two_answers :: "(instant \<times> unit est_event) list" where
  "two_answers =
     [(5, AnswerA (Inr [SockV4 (Ipv4 127 0 0 1) 80, SockV4 (Ipv4 93 184 216 34) 80])),
      (9, DialDone (Inl (IoError IoConnectionRefused ''refused''))),
      (12, AnswerAaaa (Inr [SockV4 (Ipv4 93 184 216 34) 80, SockV4 (Ipv4 1 1 1 1) 80]))]"

theorem establish_egress_witness:
  "set (fst (establish (Domain ''a'' 80) default_config 0 100 None two_answers)) \<subseteq> answers two_answers"
  using establish_egress [of "Domain ''a'' 80" default_config 0 100 None two_answers, OF prod.collapse [symmetric]]
  by simp

text \<open>C23: a search for a domain that fails has dialled something exactly when it reports a dial
  error; it reports that the destination is not allowed exactly when every address
  answered is blocked and there is one, and a DNS failure exactly when no address was
  answered. Unless the deadline passed it fails only after both lookups are done and every
  allowed address they returned was dialled: a failed early candidate never cancels a
  slower answer.\<close>

theorem establish_exhaustive:
  assumes "est_loop (cfg_egress cfg) deadline started started (est_init deadline) evs = (st, Failed e)"
  shows "(case e of
      EstDial x \<Rightarrow> dialed st \<noteq> []
    | EstBlocked \<Rightarrow> answered st \<noteq> [] \<and> (\<forall>a \<in> set (answered st). is_blocked (cfg_egress cfg) (sock_ip a))
    | EstDns m \<Rightarrow> answered st = []) \<and>
    (expires deadline evs \<or>
      done_a st \<and> done_aaaa st \<and>
      set (dialed st) = {a \<in> set (answered st). \<not> is_blocked (cfg_egress cfg) (sock_ip a)})"
proof -
  have i: "est_inv (cfg_egress cfg) st" using est_loop_inv [OF est_inv_init assms] by simp
  note f = est_loop_failed [OF est_inv_init assms]
  have cand: "a \<in> set (dialed st @ queue st) \<longleftrightarrow>
      a \<in> set (answered st) \<and> \<not> is_blocked (cfg_egress cfg) (sock_ip a)" for a
    using i unfolding est_inv_def by metis
  have blk: "blocked st \<longleftrightarrow> (\<exists>a \<in> set (answered st). is_blocked (cfg_egress cfg) (sock_ip a))"
    using i by (simp add: est_inv_def)
  have none: "\<forall>a \<in> set (answered st). is_blocked (cfg_egress cfg) (sock_ip a)" if "dialed st = []"
    using that f cand by (metis append_Nil empty_iff list.set(1))
  have "case e of
      EstDial x \<Rightarrow> dialed st \<noteq> []
    | EstBlocked \<Rightarrow> answered st \<noteq> [] \<and> (\<forall>a \<in> set (answered st). is_blocked (cfg_egress cfg) (sock_ip a))
    | EstDns m \<Rightarrow> answered st = []"
    using f none blk by (cases e) (auto simp: set_empty [symmetric] simp del: set_empty)
  moreover have "set (dialed st) = {a \<in> set (answered st). \<not> is_blocked (cfg_egress cfg) (sock_ip a)}"
    if "queue st = []" using cand that by auto
  ultimately show ?thesis using f by blast
qed

theorem establish_exhaustive_witness:
  "est_loop (cfg_egress default_config) 100 0 0 (est_init 100)
     [(3, AnswerA (Inl \<lparr>re_host = ''a'', re_elapsed_ms = 0, re_reason = ''x''\<rparr>) :: unit est_event),
      (4, AnswerAaaa (Inr [SockV4 (Ipv4 0 0 0 0) 80]))] =
   (fst (est_loop (cfg_egress default_config) 100 0 0 (est_init 100)
     [(3, AnswerA (Inl \<lparr>re_host = ''a'', re_elapsed_ms = 0, re_reason = ''x''\<rparr>) :: unit est_event),
      (4, AnswerAaaa (Inr [SockV4 (Ipv4 0 0 0 0) 80]))]), Failed EstBlocked)"
  (is "?l = (fst ?l, _)")
proof -
  have l: "?l = (fst ?l, Failed EstBlocked)"
    by (simp add: est_head_def est_init_def take_answer_def shrink_attempt_def blocked_v4_zero)
  from establish_exhaustive [OF l] l show ?thesis by simp
qed

text \<open>C24: the search always ends: once the deadline fires it has connected or failed, and it
  makes at most one attempt for each address that was answered.\<close>

theorem establish_ends:
  assumes "expires deadline evs"
  shows "snd (establish target cfg started deadline direct evs) \<noteq> Waiting \<and>
    (\<forall>host port. target = Domain host port \<longrightarrow>
       length (fst (establish target cfg started deadline direct evs)) \<le> card (answers evs))"
proof (cases target)
  case (Domain host port)
  obtain st r where l: "est_loop (cfg_egress cfg) deadline started started (est_init deadline) evs = (st, r)"
    by fastforce
  have "r \<noteq> Waiting" using est_loop_expires [OF assms, of "cfg_egress cfg" started started "est_init deadline"] l
    by simp
  moreover have "distinct (dialed st)" "set (dialed st) \<subseteq> answers evs"
    using est_loop_inv [OF est_inv_init l] by (auto simp: est_cand_def est_init_def)
  then have "length (dialed st) \<le> card (answers evs)"
    by (metis card_mono distinct_card finite_answers)
  ultimately show ?thesis by (simp add: Domain l)
qed (auto simp: Let_def split: sum.splits)

theorem establish_ends_witness:
  "snd (establish (Domain ''a'' 80) default_config 0 100 None (two_answers @ [(100, DeadlineElapsed)])) \<noteq> Waiting"
proof -
  have "expires 100 (two_answers @ [(100, DeadlineElapsed)])" by (auto simp: expires_def)
  from establish_ends [OF this] show ?thesis by blast
qed

end
