(* ===== verification/Metrics.thy ===== *)
theory Metrics
  imports Std_Net Interfaces "HOL-Library.Finite_Map"
begin

text \<open>
  \<open>src/metrics.rs\<close>: the global counters (64-bit words that wrap, as \<open>AtomicU64::fetch_add\<close>
  does), the connection registry, and the event type with its textual form. Every method is
  one function on the state; each of its atomic operations is independent, so a method is
  modelled as one step. The registry is a map from connection id to \<open>ConnInfo\<close>.
\<close>

section \<open>Model\<close>

datatype conn_kind = KindConnect | KindUdp

record conn_info =
  ci_id :: u64
  ci_src :: socket_addr
  ci_target :: string
  ci_kind :: conn_kind
  ci_up :: u64
  ci_down :: u64

record snapshot =
  sn_bytes_up :: u64
  sn_bytes_down :: u64
  sn_total_conns :: u64
  sn_active_conns :: u64
  sn_successes :: u64
  sn_failures :: u64
  sn_error_codes :: "u64 list"

datatype event =
    EvConnect u64 socket_addr string conn_kind
  | EvClosed u64
  | EvAuth bool string
  | EvError u8 string
  | EvLog string

fun show_kind :: "conn_kind \<Rightarrow> string" where
  "show_kind KindConnect = ''CONNECT''"
| "show_kind KindUdp = ''UDP''"

fun format_event :: "event \<Rightarrow> string" where
  "format_event (EvConnect i src target kind) =
     ''[#'' @ show_nat (unat i) @ ''] '' @ show_kind kind @ '' open '' @ show_sock src @ '' -> ''
     @ target"
| "format_event (EvClosed i) = ''[#'' @ show_nat (unat i) @ ''] closed''"
| "format_event (EvAuth ok usr) =
     (if ok then ''auth ok for '' @ [CHR 0x27] @ usr @ [CHR 0x27]
      else ''auth failed (denied) for '' @ [CHR 0x27] @ usr @ [CHR 0x27])"
| "format_event (EvError code msg) = ''error 0x'' @ pad2 (show_hex (unat code)) @ '': '' @ msg"
| "format_event (EvLog s) = s"

record metrics =
  bytes_up :: u64
  bytes_down :: u64
  total_conns :: u64
  active_conns :: u64
  successes :: u64
  failures :: u64
  error_codes :: "u64 list"
  registry :: "(u64, conn_info) fmap"
  next_id :: u64

definition metrics_new :: metrics where
  "metrics_new =
     \<lparr>bytes_up = 0, bytes_down = 0, total_conns = 0, active_conns = 0, successes = 0,
      failures = 0, error_codes = replicate 9 0, registry = fmempty, next_id = 1\<rparr>"

definition register :: "metrics \<Rightarrow> socket_addr \<Rightarrow> string \<Rightarrow> conn_kind \<Rightarrow> u64 \<times> metrics" where
  "register m src target kind =
     (let i = next_id m;
          info = \<lparr>ci_id = i, ci_src = src, ci_target = target, ci_kind = kind, ci_up = 0, ci_down = 0\<rparr>
      in (i, m\<lparr>next_id := next_id m + 1, total_conns := total_conns m + 1,
               active_conns := active_conns m + 1, registry := fmupd i info (registry m)\<rparr>))"

definition unregister :: "metrics \<Rightarrow> u64 \<Rightarrow> metrics" where
  "unregister m i =
     m\<lparr>active_conns := active_conns m - 1, registry := fmdrop i (registry m)\<rparr>"

definition add_up :: "metrics \<Rightarrow> u64 \<Rightarrow> u64 \<Rightarrow> metrics" where
  "add_up m i n =
     (let m1 = m\<lparr>bytes_up := bytes_up m + n\<rparr>
      in case fmlookup (registry m1) i of
           Some info \<Rightarrow> m1\<lparr>registry := fmupd i (info\<lparr>ci_up := ci_up info + n\<rparr>) (registry m1)\<rparr>
         | None \<Rightarrow> m1)"

definition add_down :: "metrics \<Rightarrow> u64 \<Rightarrow> u64 \<Rightarrow> metrics" where
  "add_down m i n =
     (let m1 = m\<lparr>bytes_down := bytes_down m + n\<rparr>
      in case fmlookup (registry m1) i of
           Some info \<Rightarrow> m1\<lparr>registry := fmupd i (info\<lparr>ci_down := ci_down info + n\<rparr>) (registry m1)\<rparr>
         | None \<Rightarrow> m1)"

definition record_error :: "metrics \<Rightarrow> u8 \<Rightarrow> metrics" where
  "record_error m code =
     (let m1 = m\<lparr>failures := failures m + 1\<rparr>
      in if code \<le> 8
         then m1\<lparr>error_codes := (error_codes m1)[unat code := error_codes m1 ! unat code + 1]\<rparr>
         else m1)"

definition record_success :: "metrics \<Rightarrow> metrics" where
  "record_success m = m\<lparr>successes := successes m + 1\<rparr>"

definition metrics_snapshot :: "metrics \<Rightarrow> snapshot" where
  "metrics_snapshot m =
     \<lparr>sn_bytes_up = bytes_up m, sn_bytes_down = bytes_down m, sn_total_conns = total_conns m,
      sn_active_conns = active_conns m, sn_successes = successes m, sn_failures = failures m,
      sn_error_codes = error_codes m\<rparr>"

text \<open>\<open>connections()\<close> lists the registry's values in the hash map's unspecified order;
  the model keeps what is independent of that order.\<close>

definition connections :: "metrics \<Rightarrow> conn_info fset" where
  "connections m = fmran (registry m)"

definition active :: "metrics \<Rightarrow> u64" where
  "active m = active_conns m"

section \<open>Registry invariant\<close>

text \<open>Every entry is filed under its own id, the histogram has its nine buckets, and the
  ids handed out so far are the ones below \<open>next_id\<close>, as long as the id counter has not
  wrapped.\<close>

definition metrics_ok :: "metrics \<Rightarrow> bool" where
  "metrics_ok m \<longleftrightarrow>
     length (error_codes m) = 9 \<and>
     (\<forall>i info. fmlookup (registry m) i = Some info \<longrightarrow> ci_id info = i \<and> i < next_id m)"

text \<open>The active counter is the number of registered connections.\<close>

definition active_exact :: "metrics \<Rightarrow> bool" where
  "active_exact m \<longleftrightarrow> active_conns m = of_nat (fcard (fmdom (registry m)))"

lemma metrics_ok_new: "metrics_ok metrics_new" "active_exact metrics_new"
  by (simp_all add: metrics_ok_def metrics_new_def active_exact_def fcard_fempty)

lemma unat_u64_Suc: "n \<noteq> - 1 \<Longrightarrow> unat (n + 1) = Suc (unat n)" for n :: u64
  using unatSuc [of n] by (metis add.commute add_eq_0_iff)

lemma next_id_less: "i < n \<Longrightarrow> n \<noteq> - 1 \<Longrightarrow> i < n + 1" for n :: u64
  by (simp add: word_less_nat_alt unat_u64_Suc)

lemma next_id_self: "n \<noteq> - 1 \<Longrightarrow> n < n + 1" for n :: u64
  by (simp add: word_less_nat_alt unat_u64_Suc)

text \<open>The live connections, and the room left in the id counter.\<close>

definition live_ids :: "metrics \<Rightarrow> u64 set" where
  "live_ids m = fset (fmdom (registry m))"

definition ids_left :: "metrics \<Rightarrow> bool" where
  "ids_left m \<longleftrightarrow> next_id m \<noteq> - 1"

lemma next_id_unused: "metrics_ok m \<Longrightarrow> next_id m |\<notin>| fmdom (registry m)"
  by (auto simp: metrics_ok_def elim!: fmdomE)

lemma metrics_ok_register:
  "metrics_ok m \<Longrightarrow> ids_left m \<Longrightarrow> metrics_ok (snd (register m src target kind))"
  by (auto simp: metrics_ok_def ids_left_def register_def Let_def next_id_less next_id_self)

lemma metrics_ok_unregister: "metrics_ok m \<Longrightarrow> metrics_ok (unregister m i)"
  by (auto simp: metrics_ok_def unregister_def fmlookup_drop split: if_splits)

lemma metrics_ok_add:
  "metrics_ok m \<Longrightarrow> metrics_ok (add_up m i n)" "metrics_ok m \<Longrightarrow> metrics_ok (add_down m i n)"
  by (auto simp: metrics_ok_def add_up_def add_down_def Let_def split: option.splits)

lemma metrics_ok_record:
  "metrics_ok m \<Longrightarrow> metrics_ok (record_error m c)" "metrics_ok m \<Longrightarrow> metrics_ok (record_success m)"
  by (auto simp: metrics_ok_def record_error_def record_success_def Let_def)

lemmas metrics_ok_intros =
  metrics_ok_register metrics_ok_unregister metrics_ok_add metrics_ok_record

lemma live_register: "live_ids (snd (register m src target kind)) = insert (next_id m) (live_ids m)"
  by (simp add: live_ids_def register_def Let_def)

lemma live_unregister: "live_ids (unregister m i) = live_ids m - {i}"
  by (auto simp: live_ids_def unregister_def)

lemma live_add [simp]: "live_ids (add_up m i n) = live_ids m" "live_ids (add_down m i n) = live_ids m"
  by (auto simp: live_ids_def add_up_def add_down_def Let_def split: option.splits
      intro: fmdomI)

lemma live_record [simp]:
  "live_ids (record_error m c) = live_ids m" "live_ids (record_success m) = live_ids m"
  by (auto simp: live_ids_def record_error_def record_success_def Let_def)

interpretation conns: id_registry
  "\<lambda>(src, target, kind) m. register m src target kind" "\<lambda>i m. unregister m i"
  live_ids metrics_ok ids_left
proof
  fix m i m' and c :: "socket_addr \<times> string \<times> conn_kind"
  assume ok: "metrics_ok m" and left: "ids_left m"
    and reg: "(case c of (src, target, kind) \<Rightarrow> \<lambda>m. register m src target kind) m = (i, m')"
  obtain src target kind where c: "c = (src, target, kind)" by (cases c)
  from reg c have r: "register m src target kind = (i, m')" by simp
  then have i: "i = next_id m" and m': "m' = snd (register m src target kind)"
    by (auto simp: register_def Let_def)
  show "i \<notin> live_ids m" using next_id_unused [OF ok] by (simp add: i live_ids_def)
  show "live_ids m' = insert i (live_ids m)" by (simp add: m' live_register i)
  show "metrics_ok m'" by (simp add: m' metrics_ok_register ok left)
qed (simp_all add: live_unregister metrics_ok_unregister)

section \<open>Accounting over a history\<close>

text \<open>The calls the handlers make, and the histories they can make them in: a connection's
  bytes are counted and the connection is unregistered while it is registered.\<close>

datatype metrics_op =
    OpRegister socket_addr string conn_kind
  | OpUnregister u64
  | OpUp u64 u64
  | OpDown u64 u64
  | OpError u8
  | OpSuccess

fun metrics_step :: "metrics_op \<Rightarrow> metrics \<Rightarrow> metrics" where
  "metrics_step (OpRegister src target kind) m = snd (register m src target kind)"
| "metrics_step (OpUnregister i) m = unregister m i"
| "metrics_step (OpUp i n) m = add_up m i n"
| "metrics_step (OpDown i n) m = add_down m i n"
| "metrics_step (OpError c) m = record_error m c"
| "metrics_step OpSuccess m = record_success m"

fun op_allowed :: "metrics_op \<Rightarrow> metrics \<Rightarrow> bool" where
  "op_allowed (OpRegister src target kind) m = ids_left m"
| "op_allowed (OpUnregister i) m = (i |\<in>| fmdom (registry m))"
| "op_allowed (OpUp i n) m = (i |\<in>| fmdom (registry m))"
| "op_allowed (OpDown i n) m = (i |\<in>| fmdom (registry m))"
| "op_allowed (OpError c) m = True"
| "op_allowed OpSuccess m = True"

inductive metrics_history :: "metrics_op list \<Rightarrow> metrics \<Rightarrow> bool" where
  start: "metrics_history [] metrics_new"
| op: "metrics_history ops m \<Longrightarrow> op_allowed p m \<Longrightarrow> metrics_history (ops @ [p]) (metrics_step p m)"

fun op_up :: "u64 option \<Rightarrow> metrics_op \<Rightarrow> u64" where
  "op_up who (OpUp i n) = (if who = None \<or> who = Some i then n else 0)"
| "op_up who p = 0"

fun op_down :: "u64 option \<Rightarrow> metrics_op \<Rightarrow> u64" where
  "op_down who (OpDown i n) = (if who = None \<or> who = Some i then n else 0)"
| "op_down who p = 0"

fun is_register :: "metrics_op \<Rightarrow> bool" where
  "is_register (OpRegister src target kind) = True"
| "is_register p = False"

fun is_unregister :: "metrics_op \<Rightarrow> bool" where
  "is_unregister (OpUnregister i) = True"
| "is_unregister p = False"

lemma history_ok: "metrics_history ops m \<Longrightarrow> metrics_ok m"
proof (induction rule: metrics_history.induct)
  case start
  then show ?case by (rule metrics_ok_new)
next
  case (op ops m p)
  then show ?case by (cases p) (auto intro: metrics_ok_intros)
qed

definition up_total :: "u64 option \<Rightarrow> metrics_op list \<Rightarrow> u64" where
  "up_total who ops = sum_list (map (op_up who) ops)"

definition down_total :: "u64 option \<Rightarrow> metrics_op list \<Rightarrow> u64" where
  "down_total who ops = sum_list (map (op_down who) ops)"

definition count_ops :: "(metrics_op \<Rightarrow> bool) \<Rightarrow> metrics_op list \<Rightarrow> nat" where
  "count_ops P ops = length (filter P ops)"

lemma count_ops_snoc [simp]: "count_ops P (ops @ [p]) = count_ops P ops + (if P p then 1 else 0)"
  by (simp add: count_ops_def)

lemma totals_snoc [simp]:
  "up_total who (ops @ [p]) = up_total who ops + op_up who p"
  "down_total who (ops @ [p]) = down_total who ops + op_down who p"
  by (simp_all add: up_total_def down_total_def)

lemma ops_Nil [simp]:
  "up_total who [] = 0" "down_total who [] = 0" "count_ops P [] = 0"
  by (simp_all add: up_total_def down_total_def count_ops_def)

lemma registry_add:
  "fmdom (registry (add_up m i n)) = fmdom (registry m)"
  "fmdom (registry (add_down m i n)) = fmdom (registry m)"
  using live_add [of m i n] by (simp_all add: live_ids_def fset_cong)

lemma fcard_drop: "i |\<in>| A \<Longrightarrow> fcard A = Suc (fcard (A |-| {|i|}))"
  by (metis fcard_Suc_fminus1)

lemma history_counts:
  assumes "metrics_history ops m"
  shows "active_exact m \<and>
    count_ops is_register ops = count_ops is_unregister ops + fcard (fmdom (registry m)) \<and>
    total_conns m = of_nat (count_ops is_register ops) \<and>
    bytes_up m = up_total None ops \<and> bytes_down m = down_total None ops"
  using assms
proof (induction rule: metrics_history.induct)
  case start
  then show ?case by (simp add: metrics_ok_new) (simp add: metrics_new_def fcard_fempty)
next
  case (op ops m p)
  note fresh = next_id_unused [OF history_ok [OF op.hyps(1)]]
  show ?case
  proof (cases p)
    case (OpRegister src target kind)
    then show ?thesis using op.IH fresh
      by (simp add: register_def Let_def active_exact_def fcard_finsert_disjoint)
  next
    case (OpUnregister i)
    then show ?thesis using op.IH op.hyps(2) fcard_drop [of i "fmdom (registry m)"]
      by (simp add: unregister_def active_exact_def)
  next
    case (OpUp i n)
    then show ?thesis using op.IH registry_add(1) [of m i n]
      by (auto simp: add_up_def active_exact_def Let_def split: option.splits)
  next
    case (OpDown i n)
    then show ?thesis using op.IH registry_add(2) [of m i n]
      by (auto simp: add_down_def active_exact_def Let_def split: option.splits)
  qed (use op.IH in \<open>auto simp: record_error_def record_success_def active_exact_def Let_def\<close>)
qed

lemma history_errors:
  assumes "metrics_history ops m"
  shows "failures m = of_nat (count_ops (\<lambda>p. \<exists>c. p = OpError c) ops) \<and>
    (\<forall>k<9. error_codes m ! k = of_nat (count_ops (\<lambda>p. p = OpError (of_nat k)) ops)) \<and>
    successes m = of_nat (count_ops (\<lambda>p. p = OpSuccess) ops)"
  using assms
proof (induction rule: metrics_history.induct)
  case start
  then show ?case by (simp add: metrics_new_def)
next
  case (op ops m p)
  have len: "length (error_codes m) = 9"
    using history_ok [OF op.hyps(1)] by (simp add: metrics_ok_def)
  show ?case
  proof (cases p)
    case (OpError c)
    have eq: "c = of_nat k \<longleftrightarrow> unat c = k" if "k < 9" for k
      using that by (auto simp: word_eq_iff_unsigned [where ?'a = nat] unat_of_nat)
    have "c \<le> 8 \<longleftrightarrow> unat c < 9" by (auto simp: word_le_nat_alt)
    then show ?thesis using op.IH OpError len eq
      by (auto simp: record_error_def Let_def nth_list_update)
  qed (use op.IH in \<open>auto simp: register_def unregister_def add_up_def add_down_def
      record_success_def Let_def split: option.splits\<close>)
qed

section \<open>Properties\<close>

fun all_allowed :: "metrics_op list \<Rightarrow> metrics \<Rightarrow> bool" where
  "all_allowed [] m \<longleftrightarrow> True"
| "all_allowed (p # ps) m \<longleftrightarrow> op_allowed p m \<and> all_allowed ps (metrics_step p m)"

lemma history_extend:
  "metrics_history ops m \<Longrightarrow> all_allowed ps m \<Longrightarrow> metrics_history (ops @ ps) (fold metrics_step ps m)"
proof (induction ps arbitrary: ops m)
  case (Cons p ps)
  then have "metrics_history (ops @ [p]) (metrics_step p m)" by (auto intro: metrics_history.op)
  from Cons.IH [OF this] Cons.prems show ?case by simp
qed simp

lemma history_from_new:
  "all_allowed ps metrics_new \<Longrightarrow> metrics_history ps (fold metrics_step ps metrics_new)"
  using history_extend [OF metrics_history.start] by simp

text \<open>Calls on unknown ids are calls too. \<open>registration k ops\<close> is what the \<open>k\<close>-th registration of a
  history asked for, with the calls made since.\<close>

fun registration :: "nat \<Rightarrow> metrics_op list \<Rightarrow> ((socket_addr \<times> string \<times> conn_kind) \<times> metrics_op list) option" where
  "registration k [] = None"
| "registration k (OpRegister src target kind # ops) =
     (if k = 1 then Some ((src, target, kind), ops) else registration (k - 1) ops)"
| "registration k (p # ops) = registration k ops"

lemma registration_bounds: "registration k ops = Some x \<Longrightarrow> 1 \<le> k \<and> k \<le> count_ops is_register ops"
proof (induction k ops rule: registration.induct)
  case (2 k src target kind ops)
  then show ?case by (cases "k = 1") (auto simp: count_ops_def)
qed (simp_all add: count_ops_def)

lemma registration_snoc:
  "registration k (ops @ [p]) =
     (case registration k ops of
        Some (x, rest) \<Rightarrow> Some (x, rest @ [p])
      | None \<Rightarrow> (case p of OpRegister src target kind \<Rightarrow>
                   if k = count_ops is_register ops + 1 then Some ((src, target, kind), []) else None
                 | _ \<Rightarrow> None))"
  by (induction k ops rule: registration.induct) (auto simp: count_ops_def split: metrics_op.splits)

text \<open>What the registry holds for an id, read off the history.\<close>

definition filed :: "metrics_op list \<Rightarrow> u64 \<Rightarrow> conn_info option" where
  "filed ops i =
     (case registration (unat i) ops of
        Some ((src, target, kind), rest) \<Rightarrow>
          if OpUnregister i \<in> set rest then None
          else Some \<lparr>ci_id = i, ci_src = src, ci_target = target, ci_kind = kind,
                     ci_up = up_total (Some i) rest, ci_down = down_total (Some i) rest\<rparr>
      | None \<Rightarrow> None)"

lemma filed_snoc:
  assumes "\<not> is_register p"
  shows "filed (ops @ [p]) i =
    (case filed ops i of
       None \<Rightarrow> None
     | Some info \<Rightarrow> if p = OpUnregister i then None
         else Some (info\<lparr>ci_up := ci_up info + op_up (Some i) p, ci_down := ci_down info + op_down (Some i) p\<rparr>))"
  using assms by (cases p) (auto simp: filed_def registration_snoc split: option.splits)

lemma filed_register:
  assumes "unat j = count_ops is_register ops + 1"
  shows "filed (ops @ [OpRegister src target kind]) i =
    (if i = j then Some \<lparr>ci_id = j, ci_src = src, ci_target = target, ci_kind = kind, ci_up = 0, ci_down = 0\<rparr>
     else filed ops i)"
proof -
  have "registration (unat j) ops = None"
    using registration_bounds [of "unat j" ops] assms by (cases "registration (unat j) ops") auto
  moreover have "unat i = count_ops is_register ops + 1 \<longleftrightarrow> i = j" using assms by (auto simp: word_unat_eq_iff)
  ultimately show ?thesis by (auto simp: filed_def registration_snoc split: option.splits)
qed

lemma calls_counted:
  "m = fold metrics_step ops metrics_new \<Longrightarrow>
   bytes_up m = up_total None ops \<and> bytes_down m = down_total None ops \<and>
   total_conns m = of_nat (count_ops is_register ops) \<and> next_id m = of_nat (count_ops is_register ops) + 1 \<and>
   active_conns m = of_nat (count_ops is_register ops) - of_nat (count_ops is_unregister ops)"
proof (induction ops arbitrary: m rule: rev_induct)
  case Nil
  then show ?case by (simp add: metrics_new_def)
next
  case (snoc p ops)
  from snoc.IH [OF refl] show ?case unfolding snoc.prems
    by (cases p) (auto simp: register_def unregister_def add_up_def add_down_def record_error_def record_success_def
        Let_def split: option.splits)
qed

lemma registry_filed:
  "m = fold metrics_step ops metrics_new \<Longrightarrow> count_ops is_register ops < 2 ^ 64 \<Longrightarrow> fmlookup (registry m) = filed ops"
proof (induction ops arbitrary: m rule: rev_induct)
  case Nil
  then show ?case by (auto simp: metrics_new_def filed_def)
next
  case (snoc p ops)
  let ?m = "fold metrics_step ops metrics_new"
  have bound: "count_ops is_register ops < 2 ^ 64" using snoc.prems(2) by simp
  note IH = snoc.IH [OF refl bound]
  have m: "m = metrics_step p ?m" using snoc.prems(1) by simp
  show ?case
  proof (cases "is_register p")
    case True
    then obtain src target kind where p: "p = OpRegister src target kind" by (cases p) auto
    have j: "unat (next_id ?m) = count_ops is_register ops + 1"
    proof -
      have "next_id ?m = of_nat (Suc (count_ops is_register ops))" using calls_counted [OF refl, of ops] by simp
      moreover have "Suc (count_ops is_register ops) < 2 ^ 64" using snoc.prems(2) p by simp
      ultimately show ?thesis by (simp add: unsigned_of_nat take_bit_nat_eq_self del: of_nat_Suc)
    qed
    show ?thesis by (rule ext) (simp add: m p register_def Let_def IH filed_register [OF j])
  next
    case False
    show ?thesis
      by (rule ext, cases p) (use False IH in \<open>auto simp: m filed_snoc unregister_def add_up_def add_down_def
        record_error_def record_success_def Let_def fmlookup_drop fun_eq_iff split: option.splits\<close>)
  qed
qed

text \<open>C33: after any sequence of calls, on registered and on unknown ids alike, as long as fewer than
  \<open>2 ^ 64\<close> of them register: the byte counters are the sums over the calls, the totals the
  number of registrations, the active counter registrations less unregistrations (each
  counts, also one of an unknown id), all modulo \<open>2 ^ 64\<close>. The registry is read off the
  calls: it holds \<open>i\<close> exactly when there was an \<open>i\<close>-th registration and \<open>i\<close> has not been
  unregistered since, with what that registration gave and the bytes counted for \<open>i\<close> since
  (sums that wrap, as in a release build; in a debug build an overflow of one connection's sum panics).
  When ids are only used while they are registered, as the handlers do, the active counter is
  the number of registered connections.\<close>

theorem metrics_accounting:
  assumes "m = fold metrics_step ops metrics_new" and "count_ops is_register ops < 2 ^ 64"
  shows "bytes_up m = up_total None ops \<and> bytes_down m = down_total None ops \<and>
    total_conns m = of_nat (count_ops is_register ops) \<and>
    active_conns m = of_nat (count_ops is_register ops) - of_nat (count_ops is_unregister ops) \<and>
    (\<forall>i. fmlookup (registry m) i =
       (case registration (unat i) ops of
          None \<Rightarrow> None
        | Some ((src, target, kind), rest) \<Rightarrow>
            if OpUnregister i \<in> set rest then None
            else Some \<lparr>ci_id = i, ci_src = src, ci_target = target, ci_kind = kind,
                       ci_up = up_total (Some i) rest, ci_down = down_total (Some i) rest\<rparr>)) \<and>
    (metrics_history ops m \<longrightarrow> active_conns m = of_nat (card (live_ids m)) \<and>
       count_ops is_register ops = count_ops is_unregister ops + card (live_ids m))"
proof (intro conjI allI impI)
  fix i
  show "fmlookup (registry m) i =
       (case registration (unat i) ops of
          None \<Rightarrow> None
        | Some ((src, target, kind), rest) \<Rightarrow>
            if OpUnregister i \<in> set rest then None
            else Some \<lparr>ci_id = i, ci_src = src, ci_target = target, ci_kind = kind,
                       ci_up = up_total (Some i) rest, ci_down = down_total (Some i) rest\<rparr>)"
    unfolding registry_filed [OF assms] filed_def by (auto split: option.splits)
next
  assume h: "metrics_history ops m"
  have "card (live_ids m) = fcard (fmdom (registry m))" by (simp add: live_ids_def fcard.rep_eq)
  then show "active_conns m = of_nat (card (live_ids m))"
    "count_ops is_register ops = count_ops is_unregister ops + card (live_ids m)"
    using history_counts [OF h] by (simp_all add: active_exact_def)
qed (use calls_counted [OF assms(1)] in blast)+

definition sample_src :: socket_addr where
  "sample_src = SockV4 (Ipv4 10 0 0 7) 4000"

definition sample_ops :: "metrics_op list" where
  "sample_ops =
     [OpRegister sample_src ''a:1'' KindConnect, OpRegister sample_src ''b:2'' KindUdp,
      OpUp 1 5, OpUp 2 7, OpUnregister 1, OpError 5, OpError 5, OpError 9, OpSuccess]"

lemma sample_history: "metrics_history sample_ops (fold metrics_step sample_ops metrics_new)"
  by (rule history_from_new)
    (simp add: sample_ops_def metrics_new_def register_def unregister_def ids_left_def add_up_def)

theorem metrics_accounting_witness:
  "bytes_up (fold metrics_step sample_ops metrics_new) = 12 \<and>
   active_conns (fold metrics_step sample_ops metrics_new) = of_nat (card (live_ids (fold metrics_step sample_ops metrics_new))) \<and>
   fmlookup (registry (fold metrics_step sample_ops metrics_new)) 2 =
     Some \<lparr>ci_id = 2, ci_src = sample_src, ci_target = ''b:2'', ci_kind = KindUdp, ci_up = 7, ci_down = 0\<rparr> \<and>
   active_conns (fold metrics_step [OpUnregister 9] metrics_new) = - 1"
proof -
  have n: "count_ops is_register sample_ops < 2 ^ 64" by (simp add: count_ops_def sample_ops_def)
  have r: "registration 2 sample_ops = Some ((sample_src, ''b:2'', KindUdp),
      [OpUp 1 5, OpUp 2 7, OpUnregister 1, OpError 5, OpError 5, OpError 9, OpSuccess])"
    by (simp add: sample_ops_def)
  note acc = metrics_accounting [OF refl n]
  have "fmlookup (registry (fold metrics_step sample_ops metrics_new)) 2 =
     Some \<lparr>ci_id = 2, ci_src = sample_src, ci_target = ''b:2'', ci_kind = KindUdp, ci_up = 7, ci_down = 0\<rparr>"
    using acc [THEN conjunct2, THEN conjunct2, THEN conjunct2, THEN conjunct2, THEN conjunct1, THEN spec, of 2] r
    by (simp add: up_total_def down_total_def)
  moreover have "bytes_up (fold metrics_step sample_ops metrics_new) = 12"
    using acc [THEN conjunct1] by (simp add: up_total_def sample_ops_def)
  moreover have "active_conns (fold metrics_step sample_ops metrics_new) =
      of_nat (card (live_ids (fold metrics_step sample_ops metrics_new)))"
    using acc sample_history by blast
  moreover have "active_conns (fold metrics_step [OpUnregister 9] metrics_new) = - 1"
    using metrics_accounting [OF refl, of "[OpUnregister 9]"] by (simp add: count_ops_def)
  ultimately show ?thesis by blast
qed

text \<open>The failure counter counts every \<open>record_error\<close> call, the bucket of each SOCKS
  reply code 0x00 to 0x08 counts the calls with that code, and the success counter counts
  the \<open>record_success\<close> calls.\<close>

theorem error_histogram_exact:
  assumes "metrics_history ops m"
  shows "failures m = of_nat (count_ops (\<lambda>p. \<exists>c. p = OpError c) ops) \<and>
    length (error_codes m) = 9 \<and>
    (\<forall>k<9. error_codes m ! k = of_nat (count_ops (\<lambda>p. p = OpError (of_nat k)) ops)) \<and>
    successes m = of_nat (count_ops (\<lambda>p. p = OpSuccess) ops)"
  using history_errors [OF assms] history_ok [OF assms] by (simp add: metrics_ok_def)

theorem error_histogram_exact_witness:
  "failures (fold metrics_step sample_ops metrics_new) = 3 \<and>
   error_codes (fold metrics_step sample_ops metrics_new) ! 5 = 2"
  using error_histogram_exact [OF sample_history] by (simp add: count_ops_def sample_ops_def)

end
