(* ===== verification/Relay.thy ===== *)
theory Relay
  imports Establish Metrics
begin

text \<open>
  \<open>src/server/connect.rs\<close>, the relay: two directions run concurrently, each reading with an
  idle timeout and writing with a timeout, and share the time of the last completed write.
  Each await is a place where the other direction may run, so a direction is a small state
  machine (reading, writing, finished) and the relay is driven by events in any order, each
  with the time it happens at. \<open>leg_read\<close>, \<open>leg_sent\<close>, \<open>leg_counted\<close> and \<open>leg_shut\<close> record what the
  sockets saw, for the statements; the code does not read them.
\<close>

section \<open>Model\<close>

datatype direction = Up | Down

datatype half =
    Reading instant
  | Writing bytes instant
  | Finished "(unit, io_error) result"

record leg =
  leg_half :: half
  leg_read :: bytes
  leg_sent :: bytes
  leg_counted :: nat
  leg_shut :: bool

datatype half_event =
    ReadData bytes
  | ReadEof
  | ReadErr io_error
  | ReadIdle
  | WriteDone
  | WriteErr io_error nat
  | WriteTimeout nat

definition RELAY_BUF :: nat where "RELAY_BUF = 64 * 1024"

text \<open>When an event can happen: \<open>read_with_idle\<close> and \<open>write_all_with_timeout\<close> expire after the
  idle window, and a failed write has sent at most its data.\<close>

fun half_enabled :: "duration \<Rightarrow> instant \<Rightarrow> half \<Rightarrow> half_event \<Rightarrow> bool" where
  "half_enabled idle now (Reading since) (ReadData bs) \<longleftrightarrow> bs \<noteq> [] \<and> length bs \<le> RELAY_BUF"
| "half_enabled idle now (Reading since) ReadEof \<longleftrightarrow> True"
| "half_enabled idle now (Reading since) (ReadErr e) \<longleftrightarrow> True"
| "half_enabled idle now (Reading since) ReadIdle \<longleftrightarrow> since + idle \<le> now"
| "half_enabled idle now (Writing bs since) WriteDone \<longleftrightarrow> True"
| "half_enabled idle now (Writing bs since) (WriteErr e n) \<longleftrightarrow> n \<le> length bs"
| "half_enabled idle now (Writing bs since) (WriteTimeout n) \<longleftrightarrow> n \<le> length bs \<and> since + idle \<le> now"
| "half_enabled idle now h ev \<longleftrightarrow> False"

record relay =
  up_leg :: leg
  down_leg :: leg
  last_activity :: instant
  rl_metrics :: metrics
  rl_calls :: "metrics_op list" \<comment> \<open>the calls made, for the statements\<close>

fun leg_of :: "direction \<Rightarrow> relay \<Rightarrow> leg" where
  "leg_of Up r = up_leg r"
| "leg_of Down r = down_leg r"

fun set_leg :: "direction \<Rightarrow> leg \<Rightarrow> relay \<Rightarrow> relay" where
  "set_leg Up l r = r\<lparr>up_leg := l\<rparr>"
| "set_leg Down l r = r\<lparr>down_leg := l\<rparr>"

fun byte_op :: "direction \<Rightarrow> u64 \<Rightarrow> u64 \<Rightarrow> metrics_op" where
  "byte_op Up i n = OpUp i n"
| "byte_op Down i n = OpDown i n"

fun add_bytes :: "direction \<Rightarrow> metrics \<Rightarrow> u64 \<Rightarrow> u64 \<Rightarrow> metrics" where
  "add_bytes Up m i n = add_up m i n"
| "add_bytes Down m i n = add_down m i n"

definition finish :: "(unit, io_error) result \<Rightarrow> leg \<Rightarrow> leg" where
  "finish res l = l\<lparr>leg_half := Finished res\<rparr>"

text \<open>\<open>dst.shutdown()\<close> and the direction's successful end.\<close>

definition half_close :: "leg \<Rightarrow> leg" where
  "half_close l = (finish (Inr ()) l)\<lparr>leg_shut := True\<rparr>"

text \<open>\<open>copy_half\<close>: one await of the direction completes.\<close>

fun copy_half :: "duration \<Rightarrow> u64 \<Rightarrow> direction \<Rightarrow> instant \<Rightarrow> half_event \<Rightarrow> relay \<Rightarrow> relay" where
  "copy_half idle i dir now (ReadData bs) r =
     (let l = leg_of dir r
      in set_leg dir (l\<lparr>leg_half := Writing bs now, leg_read := leg_read l @ bs\<rparr>) r)"
| "copy_half idle i dir now ReadEof r = set_leg dir (half_close (leg_of dir r)) r"
| "copy_half idle i dir now (ReadErr e) r = set_leg dir (finish (Inl e) (leg_of dir r)) r"
| "copy_half idle i dir now ReadIdle r =
     (let stale = (idle \<le> now - last_activity r)
      in if stale then set_leg dir (half_close (leg_of dir r)) r
         else set_leg dir ((leg_of dir r)\<lparr>leg_half := Reading now\<rparr>) r)"
| "copy_half idle i dir now WriteDone r =
     (let l = leg_of dir r;
          bs = (case leg_half l of Writing bs since \<Rightarrow> bs | _ \<Rightarrow> []);
          l' = l\<lparr>leg_half := Reading now, leg_sent := leg_sent l @ bs,
                 leg_counted := leg_counted l + length bs\<rparr>
      in (set_leg dir l' r)\<lparr>last_activity := now,
            rl_metrics := add_bytes dir (rl_metrics r) i (of_nat (length bs)),
            rl_calls := rl_calls r @ [byte_op dir i (of_nat (length bs))]\<rparr>)"
| "copy_half idle i dir now (WriteErr e n) r =
     (let l = leg_of dir r;
          bs = (case leg_half l of Writing bs since \<Rightarrow> bs | _ \<Rightarrow> [])
      in set_leg dir (finish (Inl e) (l\<lparr>leg_sent := leg_sent l @ take n bs\<rparr>)) r)"
| "copy_half idle i dir now (WriteTimeout n) r =
     (let l = leg_of dir r;
          bs = (case leg_half l of Writing bs since \<Rightarrow> bs | _ \<Rightarrow> [])
      in set_leg dir
           (finish (Inl (IoError IoTimedOut ''relay write timed out (peer not draining)''))
              (l\<lparr>leg_sent := leg_sent l @ take n bs\<rparr>)) r)"

definition leg_init :: "instant \<Rightarrow> leg" where
  "leg_init now = \<lparr>leg_half = Reading now, leg_read = [], leg_sent = [], leg_counted = 0, leg_shut = False\<rparr>"

definition relay_init :: "instant \<Rightarrow> metrics \<Rightarrow> relay" where
  "relay_init now m =
     \<lparr>up_leg = leg_init now, down_leg = leg_init now, last_activity = now, rl_metrics = m, rl_calls = []\<rparr>"

fun is_finished :: "half \<Rightarrow> bool" where
  "is_finished (Finished res) \<longleftrightarrow> True"
| "is_finished h \<longleftrightarrow> False"

text \<open>\<open>tokio::join!\<close>: the relay returns once both directions are done.\<close>

definition relay_done :: "relay \<Rightarrow> bool" where
  "relay_done r \<longleftrightarrow> is_finished (leg_half (up_leg r)) \<and> is_finished (leg_half (down_leg r))"

datatype relay_event = HalfEvent direction half_event | ShutdownSignal

text \<open>\<open>select!\<close> between the relay and the shutdown signal. The flag says whether it returned;
  events of a direction that cannot happen in its state are passed over.\<close>

fun relay_run :: "duration \<Rightarrow> u64 \<Rightarrow> (instant \<times> relay_event) list \<Rightarrow> relay \<Rightarrow> relay \<times> bool" where
  "relay_run idle i [] r = (r, relay_done r)"
| "relay_run idle i ((t, ev) # evs) r =
     (if relay_done r then (r, True)
      else
        (case ev of
           ShutdownSignal \<Rightarrow> (r, True)
         | HalfEvent dir h \<Rightarrow>
             if half_enabled idle t (leg_half (leg_of dir r)) h
             then relay_run idle i evs (copy_half idle i dir t h r)
             else relay_run idle i evs r))"

text \<open>\<open>wait_for_shutdown\<close> on the values the watch channel takes, \<open>None\<close> when its sender is
  dropped: whether it has resolved.\<close>

fun wait_changes :: "bool option list \<Rightarrow> bool" where
  "wait_changes [] = False"
| "wait_changes (None # cs) = True"
| "wait_changes (Some v # cs) = (if v then True else wait_changes cs)"

definition wait_for_shutdown :: "bool \<Rightarrow> bool option list \<Rightarrow> bool" where
  "wait_for_shutdown cur changes = (if cur then True else wait_changes changes)"

section \<open>Invariant\<close>

definition leg_ok :: "leg \<Rightarrow> bool" where
  "leg_ok l \<longleftrightarrow>
     (case leg_half l of
        Reading since \<Rightarrow> leg_read l = leg_sent l \<and> leg_counted l = length (leg_sent l) \<and> \<not> leg_shut l
      | Writing bs since \<Rightarrow>
          leg_read l = leg_sent l @ bs \<and> leg_counted l = length (leg_sent l) \<and> \<not> leg_shut l
      | Finished (Inr u) \<Rightarrow> leg_read l = leg_sent l \<and> leg_counted l = length (leg_sent l) \<and> leg_shut l
      | Finished (Inl e) \<Rightarrow>
          (\<exists>lost. leg_read l = leg_sent l @ lost) \<and> leg_counted l \<le> length (leg_sent l) \<and> \<not> leg_shut l)"

definition relay_ok :: "metrics \<Rightarrow> relay \<Rightarrow> bool" where
  "relay_ok m r \<longleftrightarrow>
     leg_ok (up_leg r) \<and> leg_ok (down_leg r) \<and>
     bytes_up (rl_metrics r) = bytes_up m + of_nat (leg_counted (up_leg r)) \<and>
     bytes_down (rl_metrics r) = bytes_down m + of_nat (leg_counted (down_leg r)) \<and>
     live_ids (rl_metrics r) = live_ids m \<and> (metrics_ok m \<longrightarrow> metrics_ok (rl_metrics r)) \<and>
     next_id (rl_metrics r) = next_id m \<and> successes (rl_metrics r) = successes m \<and>
     failures (rl_metrics r) = failures m"

lemma relay_ok_init: "relay_ok m (relay_init t m)"
  by (simp add: relay_ok_def relay_init_def leg_init_def leg_ok_def)

lemma leg_of_set [simp]:
  "leg_of d (set_leg d l r) = l" "leg_of d (r\<lparr>last_activity := a, rl_metrics := m, rl_calls := cs\<rparr>) = leg_of d r"
  "last_activity (set_leg d l r) = last_activity r" "rl_metrics (set_leg d l r) = rl_metrics r"
  "rl_calls (set_leg d l r) = rl_calls r"
  by (cases d; simp)+

lemma add_bytes_counters:
  "bytes_up (add_bytes d m i n) = (if d = Up then bytes_up m + n else bytes_up m)"
  "bytes_down (add_bytes d m i n) = (if d = Down then bytes_down m + n else bytes_down m)"
  "live_ids (add_bytes d m i n) = live_ids m" "metrics_ok m \<Longrightarrow> metrics_ok (add_bytes d m i n)"
  "next_id (add_bytes d m i n) = next_id m" "successes (add_bytes d m i n) = successes m"
  "failures (add_bytes d m i n) = failures m"
  by (cases d; auto simp: metrics_ok_add; auto simp: add_up_def add_down_def Let_def split: option.splits)+

lemma half_enabled_reading:
  "half_enabled idle now h (ReadData bs) \<Longrightarrow> \<exists>s. h = Reading s"
  "half_enabled idle now h ReadEof \<Longrightarrow> \<exists>s. h = Reading s"
  "half_enabled idle now h (ReadErr e) \<Longrightarrow> \<exists>s. h = Reading s"
  "half_enabled idle now h ReadIdle \<Longrightarrow> \<exists>s. h = Reading s \<and> s + idle \<le> now"
  "half_enabled idle now h WriteDone \<Longrightarrow> \<exists>bs s. h = Writing bs s"
  "half_enabled idle now h (WriteErr e n) \<Longrightarrow> \<exists>bs s. h = Writing bs s"
  "half_enabled idle now h (WriteTimeout n) \<Longrightarrow> \<exists>bs s. h = Writing bs s"
  by (cases h; simp)+

lemma relay_ok_legs: "relay_ok m r \<Longrightarrow> leg_ok (leg_of d r)"
  by (cases d) (simp_all add: relay_ok_def)

lemma relay_ok_set:
  assumes "relay_ok m r" and "leg_ok l" and "leg_counted l = leg_counted (leg_of d r)"
  shows "relay_ok m (set_leg d l r)"
  using assms by (cases d) (simp_all add: relay_ok_def)

lemma relay_ok_written:
  assumes "relay_ok m r" and "leg_ok l" and "leg_counted l = leg_counted (leg_of d r) + n"
  shows "relay_ok m ((set_leg d l r)\<lparr>last_activity := t, rl_metrics := add_bytes d (rl_metrics r) i (of_nat n), rl_calls := cs\<rparr>)"
  using assms by (cases d) (auto simp: relay_ok_def add_bytes_counters simp del: add_bytes.simps)

lemma take_append_lost: "\<exists>lost. bs = take n bs @ lost"
  by (rule exI [of _ "drop n bs"]) simp

lemma copy_half_ok:
  assumes "relay_ok m r" and "half_enabled idle t (leg_half (leg_of dir r)) h"
  shows "relay_ok m (copy_half idle i dir t h r)"
proof (cases h)
  case (ReadData bs)
  then show ?thesis using assms relay_ok_legs [OF assms(1), of dir]
    by (auto dest!: half_enabled_reading simp: Let_def leg_ok_def intro!: relay_ok_set)
next
  case WriteDone
  then obtain bs s where w: "leg_half (leg_of dir r) = Writing bs s"
    using assms(2) half_enabled_reading(5) by blast
  show ?thesis using relay_ok_legs [OF assms(1), of dir] assms(1)
    by (auto simp: WriteDone Let_def w leg_ok_def intro!: relay_ok_written)
next
  case (WriteErr e n)
  then show ?thesis using assms relay_ok_legs [OF assms(1), of dir]
    by (auto dest!: half_enabled_reading(6) simp: Let_def leg_ok_def finish_def take_append_lost intro!: relay_ok_set)
next
  case (WriteTimeout n)
  then show ?thesis using assms relay_ok_legs [OF assms(1), of dir]
    by (auto dest!: half_enabled_reading(7) simp: Let_def leg_ok_def finish_def take_append_lost intro!: relay_ok_set)
next
  case ReadEof
  then show ?thesis using assms relay_ok_legs [OF assms(1), of dir]
    by (auto dest!: half_enabled_reading(2) simp: leg_ok_def half_close_def finish_def intro!: relay_ok_set)
next
  case (ReadErr e)
  then show ?thesis using assms relay_ok_legs [OF assms(1), of dir]
    by (auto dest!: half_enabled_reading(3) simp: leg_ok_def finish_def intro!: relay_ok_set)
next
  case ReadIdle
  then show ?thesis using assms relay_ok_legs [OF assms(1), of dir]
    by (auto dest!: half_enabled_reading(4) simp: Let_def leg_ok_def half_close_def finish_def intro!: relay_ok_set)
qed

lemma relay_run_ok:
  "relay_ok m r \<Longrightarrow> relay_run idle i evs r = (r', b) \<Longrightarrow> relay_ok m r'"
proof (induction idle i evs r rule: relay_run.induct)
  case (2 idle i t ev evs r)
  then show ?case
    by (auto split: if_splits relay_event.splits intro: copy_half_ok)
qed simp

section \<open>Properties\<close>

text \<open>C21: in every state of a relay, whatever the interleaving of its two directions, what was
  written to a socket is a prefix, in order, of what was read from the other; a direction
  that ended well has passed on every byte it read and then half-closed its writer, and
  only such a direction half-closes; the upload and download counters grew by exactly the
  bytes of the completed writes.\<close>

theorem relay_conserves:
  assumes "relay_run idle i evs (relay_init t m) = (r, ended)"
  shows "(\<forall>d. (\<exists>lost. leg_read (leg_of d r) = leg_sent (leg_of d r) @ lost) \<and>
      (leg_half (leg_of d r) = Finished (Inr ()) \<longrightarrow> leg_read (leg_of d r) = leg_sent (leg_of d r)) \<and>
      (leg_shut (leg_of d r) \<longleftrightarrow> leg_half (leg_of d r) = Finished (Inr ())) \<and>
      ((\<forall>e. leg_half (leg_of d r) \<noteq> Finished (Inl e)) \<longrightarrow>
         leg_counted (leg_of d r) = length (leg_sent (leg_of d r)))) \<and>
    bytes_up (rl_metrics r) = bytes_up m + of_nat (leg_counted (up_leg r)) \<and>
    bytes_down (rl_metrics r) = bytes_down m + of_nat (leg_counted (down_leg r))"
proof -
  have ok: "relay_ok m r" using relay_run_ok [OF relay_ok_init assms] .
  have "(\<exists>lost. leg_read l = leg_sent l @ lost) \<and>
      (leg_half l = Finished (Inr ()) \<longrightarrow> leg_read l = leg_sent l) \<and>
      (leg_shut l \<longleftrightarrow> leg_half l = Finished (Inr ())) \<and>
      ((\<forall>e. leg_half l \<noteq> Finished (Inl e)) \<longrightarrow> leg_counted l = length (leg_sent l))" if "leg_ok l" for l
    using that by (auto simp: leg_ok_def split: half.splits sum.splits)
  with relay_ok_legs [OF ok] have "\<forall>d. (\<exists>lost. leg_read (leg_of d r) = leg_sent (leg_of d r) @ lost) \<and>
      (leg_half (leg_of d r) = Finished (Inr ()) \<longrightarrow> leg_read (leg_of d r) = leg_sent (leg_of d r)) \<and>
      (leg_shut (leg_of d r) \<longleftrightarrow> leg_half (leg_of d r) = Finished (Inr ())) \<and>
      ((\<forall>e. leg_half (leg_of d r) \<noteq> Finished (Inl e)) \<longrightarrow>
         leg_counted (leg_of d r) = length (leg_sent (leg_of d r)))" by blast
  with ok show ?thesis by (simp add: relay_ok_def)
qed

definition sample_relay_events :: "(instant \<times> relay_event) list" where
  "sample_relay_events =
     [(1, HalfEvent Up (ReadData [1, 2, 3])), (2, HalfEvent Down (ReadData [9])),
      (3, HalfEvent Up WriteDone), (4, HalfEvent Up ReadEof), (5, HalfEvent Down WriteDone)]"

theorem relay_conserves_witness:
  "leg_sent (up_leg (fst (relay_run 100 1 sample_relay_events (relay_init 0 metrics_new)))) = [1, 2, 3]"
proof -
  let ?r = "relay_run 100 1 sample_relay_events (relay_init 0 metrics_new)"
  have "leg_half (leg_of Up (fst ?r)) = Finished (Inr ())" "leg_read (up_leg (fst ?r)) = [1, 2, 3]"
    by (simp_all add: sample_relay_events_def relay_init_def leg_init_def relay_done_def RELAY_BUF_def
        half_close_def finish_def Let_def)
  with relay_conserves [of 100 1 sample_relay_events 0 metrics_new, OF prod.collapse [symmetric]]
  show ?thesis by (metis leg_of.simps(1))
qed

text \<open>An idle window that passes on one direction tears it down exactly when no write
  completed in either direction during that window, so an active transfer is not cut; and
  when no write completes in between, the second window to pass on it tears it down.\<close>

theorem relay_idle_teardown:
  assumes "leg_half (leg_of d r) = Reading since" and "since + idle \<le> t1" and "last_activity r \<le> t1"
  shows "(leg_half (leg_of d (copy_half idle i d t1 ReadIdle r)) = Finished (Inr ()) \<longleftrightarrow>
      last_activity r + idle \<le> t1) \<and>
    (last_activity r + idle > t1 \<longrightarrow>
      leg_half (leg_of d (copy_half idle i d t1 ReadIdle r)) = Reading t1 \<and>
      (\<forall>r' t2. leg_of d r' = leg_of d (copy_half idle i d t1 ReadIdle r) \<and>
         last_activity r' = last_activity r \<and> t1 + idle \<le> t2 \<longrightarrow>
         leg_half (leg_of d (copy_half idle i d t2 ReadIdle r')) = Finished (Inr ())))"
  using assms by (auto simp: Let_def half_close_def finish_def)

theorem relay_idle_teardown_witness:
  "leg_half (leg_of Up (copy_half 100 1 Up 100 ReadIdle (relay_init 0 metrics_new))) = Finished (Inr ())"
  using relay_idle_teardown [of Up "relay_init 0 metrics_new" 0 100 100 1]
  by (simp add: relay_init_def leg_init_def del: copy_half.simps)

end
