(* ===== verification/Tcp.thy ===== *)
theory Tcp
  imports Metrics Errors
begin

text \<open>
  A TCP connection as the handlers see it. What the peer sends is a list of arrivals: each
  read takes at most its buffer from the first one, an empty arrival is the end of the
  stream, and when the list is exhausted the read stays pending, until the deadline around
  it expires. How the bytes are cut into arrivals is up to the network, so the facts below
  relate every read to the stream of bytes alone. Writes follow a script of outcomes; a
  failed or stalled \<open>write_all\<close> may have sent a part of its bytes. \<open>evs\<close> is the broadcast
  channel's history. \<open>journal\<close> is a journal of the handler's metrics calls and sends in the order it
  makes them: the code does not keep it, the statements about that order read it.
\<close>

section \<open>Model\<close>

datatype rx_item = Rx bytes | RxErr io_error_kind

datatype act = Called metrics_op | Told event

datatype write_item = WrOk | WrErr io_error_kind nat | WrStall nat

record conn =
  rx :: "rx_item list"
  tx :: bytes
  wr :: "write_item list"
  evs :: "event list"
  journal :: "act list"

datatype read_outcome = RdOk bytes | RdErr io_error_kind | RdPending

text \<open>\<open>stream.read(&mut chunk)\<close> with a chunk of \<open>n\<close> bytes.\<close>

fun tcp_read :: "nat \<Rightarrow> rx_item list \<Rightarrow> read_outcome \<times> rx_item list" where
  "tcp_read n [] = (RdPending, [])"
| "tcp_read n (RxErr e # r) = (RdErr e, r)"
| "tcp_read n (Rx bs # r) =
     (RdOk (take n bs), if length bs \<le> n then r else Rx (drop n bs) # r)"

datatype write_outcome = WrDone | WrFailed io_error_kind | WrPending

text \<open>\<open>stream.write_all(bs)\<close>.\<close>

definition write_all :: "bytes \<Rightarrow> conn \<Rightarrow> conn \<times> write_outcome" where
  "write_all bs c =
     (case wr c of
        [] \<Rightarrow> (c\<lparr>tx := tx c @ bs\<rparr>, WrDone)
      | WrOk # w \<Rightarrow> (c\<lparr>tx := tx c @ bs, wr := w\<rparr>, WrDone)
      | WrErr e n # w \<Rightarrow> (c\<lparr>tx := tx c @ take n bs, wr := w\<rparr>, WrFailed e)
      | WrStall n # w \<Rightarrow> (c\<lparr>tx := tx c @ take n bs, wr := w\<rparr>, WrPending))"

text \<open>\<open>let _ = events.send(e)\<close>.\<close>

definition send_event :: "event \<Rightarrow> conn \<Rightarrow> conn" where
  "send_event e c = c\<lparr>evs := evs c @ [e], journal := journal c @ [Told e]\<rparr>"

text \<open>A call on the shared metrics.\<close>

definition noted :: "metrics_op \<Rightarrow> conn \<Rightarrow> conn" where
  "noted op c = c\<lparr>journal := journal c @ [Called op]\<rparr>"

definition call :: "metrics_op \<Rightarrow> conn \<times> metrics \<Rightarrow> conn \<times> metrics" where
  "call op cm = (case cm of (c, m) \<Rightarrow> (noted op c, metrics_step op m))"

lemma call_pair [simp]: "call op (c, m) = (noted op c, metrics_step op m)"
  by (simp add: call_def)

lemma noted_fields [simp]:
  "rx (noted op c) = rx c" "tx (noted op c) = tx c" "wr (noted op c) = wr c" "evs (noted op c) = evs c"
  "journal (noted op c) = journal c @ [Called op]"
  by (simp_all add: noted_def)

lemma fold_noted [simp]:
  "rx (fold noted ops c) = rx c" "tx (fold noted ops c) = tx c" "wr (fold noted ops c) = wr c"
  "evs (fold noted ops c) = evs c" "journal (fold noted ops c) = journal c @ map Called ops"
  by (induction ops arbitrary: c) simp_all

lemma fold_call [simp]: "fold call ops (c, m) = (fold noted ops c, fold metrics_step ops m)"
  by (induction ops arbitrary: c m) simp_all

lemma send_event_fields [simp]:
  "rx (send_event e c) = rx c" "tx (send_event e c) = tx c" "wr (send_event e c) = wr c"
  "evs (send_event e c) = evs c @ [e]" "journal (send_event e c) = journal c @ [Told e]"
  by (simp_all add: send_event_def)

section \<open>The stream behind the arrivals\<close>

datatype ending = EndEof | EndErr | EndPending

fun stream_data :: "rx_item list \<Rightarrow> bytes" where
  "stream_data [] = []"
| "stream_data (RxErr e # r) = []"
| "stream_data (Rx bs # r) = (if bs = [] then [] else bs @ stream_data r)"

fun stream_end :: "rx_item list \<Rightarrow> ending" where
  "stream_end [] = EndPending"
| "stream_end (RxErr e # r) = EndErr"
| "stream_end (Rx bs # r) = (if bs = [] then EndEof else stream_end r)"

fun rx_bytes :: "rx_item list \<Rightarrow> nat" where
  "rx_bytes [] = 0"
| "rx_bytes (RxErr e # r) = rx_bytes r"
| "rx_bytes (Rx bs # r) = length bs + rx_bytes r"

lemma tcp_read_data:
  assumes "tcp_read n items = (RdOk ch, items')" and "ch \<noteq> []"
  shows "stream_data items = ch @ stream_data items' \<and> stream_end items = stream_end items' \<and>
    length ch \<le> n \<and> rx_bytes items' < rx_bytes items"
  using assms by (induction n items rule: tcp_read.induct) (auto split: if_splits)

lemma tcp_read_eof:
  assumes "tcp_read n items = (RdOk [], items')" and "0 < n"
  shows "stream_data items = [] \<and> stream_end items = EndEof"
  using assms by (induction n items rule: tcp_read.induct) auto

lemma tcp_read_err: "tcp_read n items = (RdErr e, items') \<Longrightarrow> stream_data items = [] \<and> stream_end items = EndErr"
  by (induction n items rule: tcp_read.induct) auto

lemma tcp_read_pending: "tcp_read n items = (RdPending, items') \<Longrightarrow> items = []"
  by (induction n items rule: tcp_read.induct) auto

lemma write_all_rx: "write_all bs c = (c', r) \<Longrightarrow> rx c' = rx c \<and> evs c' = evs c"
  by (auto simp: write_all_def split: list.splits write_item.splits)

lemma write_all_ok: "wr c = [] \<Longrightarrow> write_all bs c = (c\<lparr>tx := tx c @ bs\<rparr>, WrDone)"
  by (simp add: write_all_def)

lemma write_all_done: "write_all bs c = (c', WrDone) \<Longrightarrow> tx c' = tx c @ bs"
  by (auto simp: write_all_def split: list.splits write_item.splits)

lemma write_all_prefix: "write_all bs c = (c', w) \<Longrightarrow> \<exists>n. tx c' = tx c @ take n bs"
  by (auto simp: write_all_def split: list.splits write_item.splits) (metis take_all_iff le_refl)+

end
