(* ===== verification/Handshake.thy ===== *)
theory Handshake
  imports Std_Net Interfaces
begin

text \<open>
  \<open>src/protocol/handshake.rs\<close>: the client greeting and method selection of RFC 1928 and
  the username/password messages of RFC 1929. Both parsers are incremental
  (\<open>greeting\<close> and \<open>userpass\<close>): they ask for more bytes only while a message is
  incomplete, and never on a buffer longer than the longest message.
\<close>

section \<open>Model\<close>

definition VERSION :: u8 where "VERSION = 0x05"
definition METHOD_NO_AUTH :: u8 where "METHOD_NO_AUTH = 0x00"
definition METHOD_USERPASS :: u8 where "METHOD_USERPASS = 0x02"
definition METHOD_NONE_ACCEPTABLE :: u8 where "METHOD_NONE_ACCEPTABLE = 0xFF"
definition USERPASS_VERSION :: u8 where "USERPASS_VERSION = 0x01"

datatype handshake_error =
    HsTruncated
  | HsBadVersion u8
  | HsBadDomain

definition parse_greeting :: "bytes \<Rightarrow> (bytes, handshake_error) result" where
  "parse_greeting buf =
     (case get buf 0 of
        None \<Rightarrow> Inl HsTruncated
      | Some ver \<Rightarrow>
          if ver \<noteq> VERSION then Inl (HsBadVersion ver)
          else
            (case get buf 1 of
               None \<Rightarrow> Inl HsTruncated
             | Some n \<Rightarrow>
                 let nmethods = unat n
                 in case get_range buf 2 (2 + nmethods) of
                      None \<Rightarrow> Inl HsTruncated
                    | Some methods \<Rightarrow> Inr methods))"

definition select_method :: "bytes \<Rightarrow> bool \<Rightarrow> u8" where
  "select_method offered require_userpass =
     (let wanted = (if require_userpass then METHOD_USERPASS else METHOD_NO_AUTH)
      in if wanted \<in> set offered then wanted else METHOD_NONE_ACCEPTABLE)"

definition method_reply :: "u8 \<Rightarrow> bytes" where
  "method_reply method = [VERSION, method]"

definition parse_userpass :: "bytes \<Rightarrow> (string \<times> string, handshake_error) result" where
  "parse_userpass buf =
     (case get buf 0 of
        None \<Rightarrow> Inl HsTruncated
      | Some ver \<Rightarrow>
          if ver \<noteq> USERPASS_VERSION then Inl (HsBadVersion ver)
          else
            (case get buf 1 of
               None \<Rightarrow> Inl HsTruncated
             | Some l \<Rightarrow>
                 let ulen = unat l
                 in case get_range buf 2 (2 + ulen) of
                      None \<Rightarrow> Inl HsTruncated
                    | Some uname \<Rightarrow>
                        let plen_idx = 2 + ulen
                        in case get buf plen_idx of
                             None \<Rightarrow> Inl HsTruncated
                           | Some pl \<Rightarrow>
                               let plen = unat pl
                               in case get_range buf (plen_idx + 1) (plen_idx + 1 + plen) of
                                    None \<Rightarrow> Inl HsTruncated
                                  | Some passwd \<Rightarrow>
                                      case from_utf8 uname of
                                        None \<Rightarrow> Inl HsBadDomain
                                      | Some username \<Rightarrow>
                                          case from_utf8 passwd of
                                            None \<Rightarrow> Inl HsBadDomain
                                          | Some password \<Rightarrow> Inr (username, password)))"

definition userpass_reply :: "bool \<Rightarrow> bytes" where
  "userpass_reply ok = [USERPASS_VERSION, if ok then 0x00 else 0x01]"

text \<open>The messages a client sends, as RFC 1928 section 3 and RFC 1929 section 2 lay them
  out. The program only parses them.\<close>

definition greeting_msg :: "bytes \<Rightarrow> bytes" where
  "greeting_msg methods = [VERSION, of_nat (length methods)] @ methods"

definition userpass_msg :: "bytes \<Rightarrow> bytes \<Rightarrow> bytes" where
  "userpass_msg u p = [USERPASS_VERSION, of_nat (length u)] @ u @ [of_nat (length p)] @ p"

text \<open>What the negotiation removes from its buffer after each message.\<close>

definition greeting_size :: "bytes \<Rightarrow> nat" where
  "greeting_size methods = 2 + length methods"

fun userpass_size :: "string \<times> string \<Rightarrow> nat" where
  "userpass_size (u, p) = 2 + length u + 1 + length p"

section \<open>The greeting\<close>

lemma two_headsE:
  assumes "1 < length bs"
  obtains v n r where "bs = v # n # r"
  using assms by (cases bs; cases "tl bs") auto

lemma parse_greeting_msg:
  assumes "length ms \<le> 255"
  shows "parse_greeting (greeting_msg ms @ rest) = Inr ms"
proof -
  have "unat (of_nat (length ms) :: u8) = length ms" using assms by (simp add: unat_of_nat)
  then show ?thesis
    by (simp add: parse_greeting_def greeting_msg_def get_def get_range_def)
qed

lemma parse_greeting_inv:
  assumes "parse_greeting bs = Inr ms"
  shows "length ms \<le> 255 \<and> bs = greeting_msg ms @ drop (greeting_size ms) bs"
proof -
  from assms have h: "1 < length bs" "bs ! 0 = VERSION" "2 + unat (bs ! 1) \<le> length bs"
      "ms = take (unat (bs ! 1)) (drop 2 bs)"
    by (auto simp: parse_greeting_def get_def get_range_def Let_def split: if_splits)
  from h(1) obtain v n r where bs: "bs = v # n # r" by (rule two_headsE)
  with h have ms: "ms = take (unat n) r" and len: "length ms = unat n" by simp_all
  have "length ms \<le> 255" using len unat_u8_less [of n] by linarith
  moreover have "v = VERSION" using bs h(2) by simp
  moreover have "ms @ drop (unat n) r = r" by (simp only: ms append_take_drop_id)
  ultimately show ?thesis by (simp add: bs greeting_msg_def greeting_size_def len)
qed

lemma parse_greeting_err:
  "parse_greeting bs = Inl e \<longleftrightarrow>
     (if bs = [] then e = HsTruncated
      else if bs ! 0 \<noteq> VERSION then e = HsBadVersion (bs ! 0)
      else e = HsTruncated \<and> (length bs = 1 \<or> length bs < 2 + unat (bs ! 1)))"
  by (cases "length bs = 1")
    (auto simp: parse_greeting_def get_def get_range_def Let_def split: if_splits)

interpretation greeting: incremental_parser parse_greeting "\<lambda>e. e = HsTruncated" greeting_size 256
proof
  fix bs a x
  assume "parse_greeting bs = Inr a"
  then have l: "length a \<le> 255" and bs: "bs = greeting_msg a @ drop (greeting_size a) bs"
    using parse_greeting_inv by blast+
  have "parse_greeting (greeting_msg a @ (drop (greeting_size a) bs @ x)) = Inr a"
    using l by (rule parse_greeting_msg)
  then show "parse_greeting (bs @ x) = Inr a" using bs by (metis append.assoc)
next
  fix bs e x
  assume "parse_greeting bs = Inl e" and "e \<noteq> HsTruncated"
  then show "parse_greeting (bs @ x) = Inl e"
    by (auto simp: parse_greeting_err nth_append split: if_splits)
next
  fix bs a
  assume "parse_greeting bs = Inr a"
  then have "bs = greeting_msg a @ drop (greeting_size a) bs"
    using parse_greeting_inv by blast
  then have "length (greeting_msg a) \<le> length bs" by (metis le_add1 length_append)
  then show "greeting_size a \<le> length bs" by (simp add: greeting_msg_def greeting_size_def)
next
  fix bs e
  assume "parse_greeting bs = Inl e" and "e = HsTruncated"
  then have "length bs \<le> 1 \<or> length bs < 2 + unat (bs ! 1)"
    by (auto simp: parse_greeting_err split: if_splits)
  then show "length bs \<le> 256" using unat_u8_less [of "bs ! 1"] by linarith
qed

section \<open>The credentials\<close>

lemma parse_userpass_Nil: "parse_userpass [] = Inl HsTruncated"
  by (simp add: parse_userpass_def get_def)

lemma parse_userpass_one:
  "parse_userpass [v] = Inl (if v = USERPASS_VERSION then HsTruncated else HsBadVersion v)"
  by (simp add: parse_userpass_def get_def)

lemma parse_userpass_body:
  "parse_userpass (v # n # r) =
     (if v \<noteq> USERPASS_VERSION then Inl (HsBadVersion v)
      else if length r \<le> unat n then Inl HsTruncated
      else if length r < unat n + 1 + unat (r ! unat n) then Inl HsTruncated
      else
        (case from_utf8 (take (unat n) r) of
           None \<Rightarrow> Inl HsBadDomain
         | Some u \<Rightarrow>
             (case from_utf8 (take (unat (r ! unat n)) (drop (unat n + 1) r)) of
                None \<Rightarrow> Inl HsBadDomain
              | Some p \<Rightarrow> Inr (u, p))))"
  by (auto simp: parse_userpass_def get_def get_range_def Let_def split: option.splits)

lemmas parse_userpass_eqs = parse_userpass_Nil parse_userpass_one parse_userpass_body

lemma parse_userpass_msg:
  assumes "valid_str u" "length u \<le> 255" "valid_str p" "length p \<le> 255"
  shows "parse_userpass (userpass_msg (as_bytes u) (as_bytes p) @ rest) = Inr (u, p)"
proof -
  have "unat (of_nat (length u) :: u8) = length u" "unat (of_nat (length p) :: u8) = length p"
    using assms by (simp_all add: unat_of_nat)
  then show ?thesis
    using assms by (simp add: userpass_msg_def parse_userpass_body nth_append)
qed

lemma parse_userpass_inv:
  assumes "parse_userpass bs = Inr (u, p)"
  shows "valid_str u \<and> length u \<le> 255 \<and> valid_str p \<and> length p \<le> 255 \<and>
    bs = userpass_msg (as_bytes u) (as_bytes p) @ drop (userpass_size (u, p)) bs"
proof -
  from assms have "1 < length bs"
    by (cases bs; cases "tl bs") (auto simp: parse_userpass_eqs)
  then obtain v n r where bs: "bs = v # n # r" by (rule two_headsE)
  let ?n = "unat n" and ?m = "unat (r ! unat n)"
  from assms have h: "v = USERPASS_VERSION" "?n < length r" "?n + 1 + ?m \<le> length r"
      "from_utf8 (take ?n r) = Some u" "from_utf8 (take ?m (drop (?n + 1) r)) = Some p"
    by (auto simp: bs parse_userpass_body split: if_splits option.splits)
  have u: "valid_str u" "as_bytes u = take ?n r" and p: "valid_str p"
      "as_bytes p = take ?m (drop (?n + 1) r)"
    using from_utf8_valid [OF h(4)] from_utf8_valid [OF h(5)] by auto
  have lu: "length u = ?n" using length_from_utf8 [OF h(4)] h(2) by simp
  have lp: "length p = ?m" using length_from_utf8 [OF h(5)] h(3) by simp
  have "r = take ?n r @ r ! ?n # take ?m (drop (?n + 1) r) @ drop ?m (drop (?n + 1) r)"
    using id_take_nth_drop [OF h(2)] by (simp only: append_take_drop_id Suc_eq_plus1)
  moreover have "userpass_msg (as_bytes u) (as_bytes p) = [v, n] @ as_bytes u @ [r ! ?n] @ as_bytes p"
    by (simp add: userpass_msg_def lu lp h(1))
  ultimately have "bs = userpass_msg (as_bytes u) (as_bytes p) @ drop (userpass_size (u, p)) bs"
    by (simp add: bs u(2) p(2) lu lp add.commute)
  moreover have "length u \<le> 255" "length p \<le> 255"
    using lu lp unat_u8_less [of n] unat_u8_less [of "r ! unat n"] by linarith+
  ultimately show ?thesis using u p by blast
qed

lemma parse_userpass_err_stable:
  assumes "parse_userpass bs = Inl e" and "e \<noteq> HsTruncated"
  shows "parse_userpass (bs @ x) = Inl e"
proof (cases "1 < length bs")
  case True
  then obtain v n r where "bs = v # n # r" by (rule two_headsE)
  then show ?thesis using assms
    by (auto simp: parse_userpass_body nth_append split: if_splits option.splits)
next
  case False
  then have "bs = [] \<or> (\<exists>v. bs = [v])" by (cases bs) auto
  then show ?thesis using assms
    by (cases x) (auto simp: parse_userpass_eqs split: if_splits)
qed

lemma parse_userpass_short:
  assumes "parse_userpass bs = Inl HsTruncated"
  shows "length bs \<le> 512"
proof (cases "1 < length bs")
  case True
  then obtain v n r where bs: "bs = v # n # r" by (rule two_headsE)
  then have "length r \<le> unat n \<or> length r < unat n + 1 + unat (r ! unat n)" using assms
    by (auto simp: parse_userpass_body split: if_splits option.splits)
  then show ?thesis using unat_u8_less [of n] unat_u8_less [of "r ! unat n"] bs
    by (simp del: unat_u8_less) linarith
next
  case False
  then show ?thesis by simp
qed

interpretation userpass: incremental_parser parse_userpass "\<lambda>e. e = HsTruncated" userpass_size 512
proof
  fix bs a x
  assume ok: "parse_userpass bs = Inr a"
  obtain u p where a: "a = (u, p)" by (cases a)
  have "parse_userpass (userpass_msg (as_bytes u) (as_bytes p) @ (drop (userpass_size a) bs @ x)) = Inr a"
    using parse_userpass_inv [of bs u p] ok a parse_userpass_msg by simp
  then show "parse_userpass (bs @ x) = Inr a"
    using parse_userpass_inv [of bs u p] ok a by (metis append.assoc)
next
  fix bs a
  assume ok: "parse_userpass bs = Inr a"
  obtain u p where a: "a = (u, p)" by (cases a)
  have "length (userpass_msg (as_bytes u) (as_bytes p)) \<le> length bs"
    using parse_userpass_inv [of bs u p] ok a by (metis le_add1 length_append)
  then show "userpass_size a \<le> length bs" by (simp add: a userpass_msg_def)
qed (use parse_userpass_err_stable parse_userpass_short in auto)

section \<open>Method selection\<close>

lemma method_distinct [simp]:
  "METHOD_NONE_ACCEPTABLE \<noteq> METHOD_USERPASS" "METHOD_NONE_ACCEPTABLE \<noteq> METHOD_NO_AUTH"
  "METHOD_USERPASS \<noteq> METHOD_NO_AUTH" "METHOD_USERPASS \<noteq> METHOD_NONE_ACCEPTABLE"
  "METHOD_NO_AUTH \<noteq> METHOD_NONE_ACCEPTABLE" "METHOD_NO_AUTH \<noteq> METHOD_USERPASS"
  by (simp_all add: METHOD_NONE_ACCEPTABLE_def METHOD_USERPASS_def METHOD_NO_AUTH_def)

section \<open>Properties\<close>

text \<open>The greeting parser accepts exactly the buffers that start with a greeting of
  RFC 1928 section 3, and returns its methods.\<close>

theorem greeting_parse_exact:
  "parse_greeting bs = Inr ms \<longleftrightarrow> length ms \<le> 255 \<and> (\<exists>rest. bs = greeting_msg ms @ rest)"
  using parse_greeting_inv [of bs ms] parse_greeting_msg [of ms] by blast

text \<open>The credential parser accepts exactly the buffers that start with an RFC 1929
  message whose user name and password are UTF-8, and returns them.\<close>

theorem userpass_parse_exact:
  "parse_userpass bs = Inr (u, p) \<longleftrightarrow>
     valid_str u \<and> length u \<le> 255 \<and> valid_str p \<and> length p \<le> 255 \<and>
     (\<exists>rest. bs = userpass_msg (as_bytes u) (as_bytes p) @ rest)"
  using parse_userpass_inv [of bs u p] parse_userpass_msg [of u p] by blast

end
