(* ===== verification/Request_Reply.thy ===== *)
theory Request_Reply
  imports Address Errors
begin

text \<open>
  \<open>src/protocol/request.rs\<close> and \<open>src/protocol/reply.rs\<close>: the request
  \<open>VER CMD RSV ATYP DST.ADDR DST.PORT\<close> and the reply \<open>VER REP RSV ATYP BND.ADDR BND.PORT\<close>,
  on top of the address codec. The request parser is incremental (\<open>request_in\<close>).
\<close>

section \<open>Model\<close>

datatype command = Connect | Bind | UdpAssociate

record request =
  command :: command
  address :: address

datatype request_error =
    ReqTruncated
  | ReqBadVersion u8
  | BadCommand u8
  | ReqAddr addr_error

definition REQ_VERSION :: u8 where "REQ_VERSION = 0x05"
definition CMD_CONNECT :: u8 where "CMD_CONNECT = 0x01"
definition CMD_BIND :: u8 where "CMD_BIND = 0x02"
definition CMD_UDP_ASSOCIATE :: u8 where "CMD_UDP_ASSOCIATE = 0x03"

text \<open>The match on the CMD byte.\<close>

definition command_of_byte :: "u8 \<Rightarrow> command option" where
  "command_of_byte b =
     (if b = CMD_CONNECT then Some Connect
      else if b = CMD_BIND then Some Bind
      else if b = CMD_UDP_ASSOCIATE then Some UdpAssociate
      else None)"

definition parse_request :: "bytes \<Rightarrow> (request, request_error) result" where
  "parse_request buf =
     (if length buf < 4 then Inl ReqTruncated
      else if buf ! 0 \<noteq> REQ_VERSION then Inl (ReqBadVersion (buf ! 0))
      else
        (case command_of_byte (buf ! 1) of
           None \<Rightarrow> Inl (BadCommand (buf ! 1))
         | Some cmd \<Rightarrow>
             (case address_decode (drop 3 buf) of
                Inl e \<Rightarrow> Inl (ReqAddr e)
              | Inr (addr, consumed) \<Rightarrow> Inr \<lparr>command = cmd, address = addr\<rparr>)))"

definition REP_SUCCEEDED :: u8 where "REP_SUCCEEDED = 0x00"
definition RSV :: u8 where "RSV = 0x00"

definition encode_reply :: "u8 \<Rightarrow> address \<Rightarrow> bytes \<Rightarrow> bytes" where
  "encode_reply code bind out = address_encode bind (out @ [REQ_VERSION] @ [code] @ [RSV])"

text \<open>The failure reply every handler sends: the error's code with a zeroed IPv4 BND
  address (\<open>reply_failure\<close> in \<open>connection.rs\<close>, \<open>connect.rs\<close> and \<open>udp.rs\<close>).\<close>

definition failure_reply :: "socks5_error \<Rightarrow> bytes" where
  "failure_reply err = encode_reply (reply_code err) (V4 ipv4_unspecified 0) []"

text \<open>What the negotiation removes from its buffer after a request:
  \<open>3 + encoded.len()\<close>.\<close>

definition request_size :: "request \<Rightarrow> nat" where
  "request_size req = 3 + length (address_encode (address req) [])"

text \<open>Whether a parse error only asks for more bytes.\<close>

definition request_needs :: "request_error \<Rightarrow> bool" where
  "request_needs e \<longleftrightarrow> e = ReqTruncated \<or> e = ReqAddr AddrTruncated"

text \<open>The message a client sends, and what a client reads in a reply (RFC 1928
  sections 4 and 6). The program only parses the first and only writes the second.\<close>

fun command_byte :: "command \<Rightarrow> u8" where
  "command_byte Connect = CMD_CONNECT"
| "command_byte Bind = CMD_BIND"
| "command_byte UdpAssociate = CMD_UDP_ASSOCIATE"

definition request_msg :: "u8 \<Rightarrow> request \<Rightarrow> bytes" where
  "request_msg rsv req = [REQ_VERSION, command_byte (command req), rsv] @ address_bytes (address req)"

definition parse_reply :: "bytes \<Rightarrow> (u8 \<times> address \<times> nat) option" where
  "parse_reply buf =
     (if 4 \<le> length buf \<and> buf ! 0 = 5 \<and> buf ! 2 = 0 then
        (case address_decode (drop 3 buf) of
           Inl e \<Rightarrow> None
         | Inr (a, n) \<Rightarrow> Some (buf ! 1, a, 3 + n))
      else None)"

section \<open>The request parser\<close>

lemma command_of_byte_byte [simp]: "command_of_byte (command_byte c) = Some c"
  by (cases c)
    (simp_all add: command_of_byte_def CMD_CONNECT_def CMD_BIND_def CMD_UDP_ASSOCIATE_def)

lemma command_of_byte_inv: "command_of_byte b = Some c \<Longrightarrow> b = command_byte c"
  by (cases c) (auto simp: command_of_byte_def split: if_splits)

lemma request_size_bytes: "request_size req = 3 + length (address_bytes (address req))"
  by (simp add: request_size_def address_bytes_def)

lemma parse_request_msg:
  assumes "wf_address (address req)"
  shows "parse_request (request_msg rsv req @ rest) = Inr req"
  using addr.dec_enc [OF assms, of rest]
  by (simp add: parse_request_def request_msg_def)

lemma four_headsE:
  assumes "3 < length bs"
  obtains v c r t where "bs = v # c # r # t" "t \<noteq> []"
proof -
  from assms obtain v c r t where "bs = v # c # r # t" "t \<noteq> []"
    by (cases bs; cases "tl bs"; cases "tl (tl bs)") auto
  then show ?thesis by (rule that)
qed

lemma parse_request_body:
  "t \<noteq> [] \<Longrightarrow> parse_request (v # c # r # t) =
     (if v \<noteq> REQ_VERSION then Inl (ReqBadVersion v)
      else (case command_of_byte c of
              None \<Rightarrow> Inl (BadCommand c)
            | Some cmd \<Rightarrow>
                (case address_decode t of
                   Inl e \<Rightarrow> Inl (ReqAddr e)
                 | Inr (a, n) \<Rightarrow> Inr \<lparr>command = cmd, address = a\<rparr>)))"
  by (cases t; cases "command_of_byte c") (simp_all add: parse_request_def)

lemma parse_request_short: "length bs < 4 \<Longrightarrow> parse_request bs = Inl ReqTruncated"
  by (simp add: parse_request_def)

lemma parse_request_inv:
  assumes "parse_request bs = Inr req"
  shows "wf_address (address req) \<and>
    (\<exists>rsv. bs = request_msg rsv req @ drop (request_size req) bs)"
proof -
  from assms have "3 < length bs" by (auto simp: parse_request_def split: if_splits)
  then obtain v c r t where bs: "bs = v # c # r # t" "t \<noteq> []" by (rule four_headsE)
  from assms obtain cmd a n where h: "v = REQ_VERSION" "command_of_byte c = Some cmd"
      "address_decode t = Inr (a, n)" "req = \<lparr>command = cmd, address = a\<rparr>"
    by (auto simp: bs parse_request_body split: if_splits option.splits sum.splits)
  have "t = address_bytes a @ drop n t" "n = length (address_bytes a)" "wf_address a"
    using addr.dec_split [OF h(3)] addr.enc_dec [OF h(3)] by auto
  moreover from this have "bs = request_msg r req @ drop (request_size req) bs"
    using command_of_byte_inv [OF h(2)]
    by (simp add: bs h(1,4) request_msg_def request_size_bytes)
  ultimately show ?thesis using h(4) by auto
qed

lemma parse_request_stable:
  assumes "parse_request bs = res" and "\<forall>e. res = Inl e \<longrightarrow> \<not> request_needs e"
  shows "parse_request (bs @ x) = res"
proof (cases "3 < length bs")
  case True
  then obtain v c r t where bs: "bs = v # c # r # t" "t \<noteq> []" by (rule four_headsE)
  then have bx: "parse_request (bs @ x) = parse_request (v # c # r # (t @ x))" "t @ x \<noteq> []"
    by simp_all
  show ?thesis
  proof (cases "address_decode t")
    case (Inl e)
    show ?thesis
    proof (cases "e = AddrTruncated")
      case True
      with Inl assms bs show ?thesis
        by (auto simp: bx(1) parse_request_body [OF bx(2)] parse_request_body request_needs_def
            split: if_splits option.splits)
    next
      case False
      with Inl assms(1) bs show ?thesis
        by (auto simp: parse_request_body addr.err_stable split: if_splits option.splits)
    qed
  next
    case (Inr an)
    then obtain a n where "address_decode t = Inr (a, n)" by (cases an) auto
    then have "address_decode (t @ x) = Inr (a, n)" by (rule addr.ok_stable)
    with \<open>address_decode t = Inr (a, n)\<close> assms(1) bs show ?thesis
      by (auto simp: parse_request_body split: if_splits option.splits)
  qed
next
  case False
  with assms show ?thesis by (auto simp: parse_request_short request_needs_def)
qed

lemma parse_request_need_bound:
  assumes "parse_request bs = Inl e" and "request_needs e"
  shows "length bs \<le> 261"
proof (cases "3 < length bs")
  case True
  then obtain v c r t where bs: "bs = v # c # r # t" "t \<noteq> []" by (rule four_headsE)
  with assms have "address_decode t = Inl AddrTruncated"
    by (auto simp: parse_request_body request_needs_def split: if_splits option.splits sum.splits)
  then show ?thesis using addr.short_bound bs by fastforce
next
  case False
  then show ?thesis by simp
qed

interpretation request_in: incremental_parser parse_request request_needs request_size 261
proof
  fix bs a
  assume "parse_request bs = Inr a"
  then obtain rsv where "bs = request_msg rsv a @ drop (request_size a) bs"
    using parse_request_inv by blast
  then have "length (request_msg rsv a) \<le> length bs" by (metis le_add1 length_append)
  then show "request_size a \<le> length bs" by (simp add: request_msg_def request_size_bytes)
qed (auto intro: parse_request_stable parse_request_need_bound)

section \<open>Replies\<close>

lemma encode_reply_bytes: "encode_reply code a out = out @ [5, code, 0] @ address_bytes a"
  by (simp add: encode_reply_def address_encode_append REQ_VERSION_def RSV_def)

lemma parse_encode_reply:
  assumes "wf_address a"
  shows "parse_reply (encode_reply code a [] @ rest) = Some (code, a, 3 + length (address_bytes a))"
  using addr.dec_enc [OF assms, of rest]
  by (simp add: encode_reply_bytes parse_reply_def Suc_le_eq)

lemma reads_reply:
  "wf_address a \<Longrightarrow> parse_reply (encode_reply code a []) = Some (code, a, length (encode_reply code a []))"
  using parse_encode_reply [of a code "[]"] by (simp add: encode_reply_bytes)

lemma failure_bytes: "encode_reply (reply_code err) (V4 ipv4_unspecified 0) [] = [5, reply_code err, 0, 1, 0, 0, 0, 0, 0, 0]"
  by (simp add: encode_reply_bytes) code_simp

lemma length_failure_reply [wire]: "length (failure_reply e) = 10"
  by (simp add: failure_reply_def encode_reply_bytes)

section \<open>Properties\<close>

text \<open>C37: the request parser accepts exactly the buffers that start with a request of
  RFC 1928 section 4 with one of the three commands and a well-formed address, whatever
  its reserved byte.\<close>

theorem request_parse_exact:
  "parse_request bs = Inr req \<longleftrightarrow>
     wf_address (address req) \<and> (\<exists>rsv rest. bs = request_msg rsv req @ rest)"
  using parse_request_inv [of bs req] parse_request_msg [of req] by blast

text \<open>C38: a client that reads a reply by RFC 1928 section 6 gets the code and the bound
  address that were encoded, and knows where the reply ends; a failure reply is ten bytes
  and its code is never the success code.\<close>

theorem reply_roundtrip:
  "(wf_address a \<longrightarrow>
      parse_reply (encode_reply code a [] @ rest) =
        Some (code, a, length (encode_reply code a []))) \<and>
   length (failure_reply err) = 10 \<and>
   parse_reply (failure_reply err) = Some (reply_code err, V4 ipv4_unspecified 0, 10) \<and>
   reply_code err \<noteq> REP_SUCCEEDED"
  using parse_encode_reply [of a code rest] parse_encode_reply [of "V4 ipv4_unspecified 0" "reply_code err" "[]"]
    reply_code_not_success [of err]
  by (simp add: failure_reply_def encode_reply_bytes REP_SUCCEEDED_def)

theorem reply_roundtrip_witness:
  "parse_reply (encode_reply REP_SUCCEEDED (V4 (Ipv4 10 0 0 1) 1080) [] @ [42]) =
     Some (REP_SUCCEEDED, V4 (Ipv4 10 0 0 1) 1080, 10)"
  using reply_roundtrip [of "V4 (Ipv4 10 0 0 1) 1080" REP_SUCCEEDED "[42]" General]
  by (simp add: encode_reply_bytes)

end
