(* ===== verification/Auth.thy ===== *)
theory Auth
  imports Config
begin

text \<open>
  \<open>src/auth.rs\<close>: constant-time comparison and credential verification. The loop of \<open>ct_eq\<close>
  folds every byte difference into an accumulator, and \<open>verify_credentials\<close> checks every
  user; the facts show that both decide exactly what the short-circuiting comparisons would.
\<close>

section \<open>Model\<close>

fun ct_fold :: "u8 \<Rightarrow> (u8 \<times> u8) list \<Rightarrow> u8" where
  "ct_fold diff [] = diff"
| "ct_fold diff ((x, y) # xys) = ct_fold (diff OR (x XOR y)) xys"

definition ct_eq :: "bytes \<Rightarrow> bytes \<Rightarrow> bool" where
  "ct_eq a b = (if length a \<noteq> length b then False else ct_fold 0 (zip a b) = 0)"

fun verify_fold :: "bool \<Rightarrow> user list \<Rightarrow> string \<Rightarrow> string \<Rightarrow> bool" where
  "verify_fold ok [] name pass = ok"
| "verify_fold ok (u # us) name pass =
     (let user_match = ct_eq (as_bytes (username u)) (as_bytes name);
          pass_match = ct_eq (as_bytes (password u)) (as_bytes pass)
      in verify_fold (ok \<or> (user_match \<and> pass_match)) us name pass)"

definition verify_credentials :: "user list \<Rightarrow> string \<Rightarrow> string \<Rightarrow> bool" where
  "verify_credentials us name pass = verify_fold False us name pass"

section \<open>Facts\<close>

lemma xor_eq_0_iff: "(a XOR b) = 0 \<longleftrightarrow> a = b" for a b :: u8
  by (auto simp: bit_eq_iff bit_simps)

lemma ct_fold_zero: "ct_fold d xys = 0 \<longleftrightarrow> d = 0 \<and> (\<forall>(x, y) \<in> set xys. x = y)"
  by (induction d xys rule: ct_fold.induct) (auto simp: or_eq_0_iff xor_eq_0_iff)

lemma ct_eq_iff [simp]: "ct_eq a b \<longleftrightarrow> a = b"
proof -
  have "length a = length b \<Longrightarrow> (\<forall>(x, y) \<in> set (zip a b). x = y) \<longleftrightarrow> a = b"
    by (induction a b rule: list_induct2) auto
  then show ?thesis by (auto simp: ct_eq_def ct_fold_zero)
qed

lemma verify_fold_iff:
  "verify_fold ok us name pass \<longleftrightarrow> ok \<or> \<lparr>username = name, password = pass\<rparr> \<in> set us"
proof (induction us arbitrary: ok)
  case (Cons u us)
  then show ?case by (cases u) (auto simp: as_bytes_eq_iff)
qed simp

lemma verify_credentials_iff:
  "verify_credentials us name pass \<longleftrightarrow> \<lparr>username = name, password = pass\<rparr> \<in> set us"
  by (simp add: verify_credentials_def verify_fold_iff)

section \<open>Properties\<close>

text \<open>C34: the constant-time comparison decides equality, and credentials are accepted
  exactly when some configured user has that name and that password.\<close>

theorem verify_exact:
  "(ct_eq a b \<longleftrightarrow> a = b) \<and>
   (verify_credentials us name pass \<longleftrightarrow> (\<exists>u \<in> set us. username u = name \<and> password u = pass))"
proof -
  have "(\<lparr>username = name, password = pass\<rparr> \<in> set us) \<longleftrightarrow>
      (\<exists>u \<in> set us. username u = name \<and> password u = pass)"
    by (metis user.select_convs(1,2) user.surjective old.unit.exhaust)
  then show ?thesis by (simp add: verify_credentials_iff)
qed

end
