(* ===== verification/Negotiation.thy ===== *)
theory Negotiation
  imports Tcp Handshake Request_Reply Auth
begin

text \<open>
  \<open>src/server/connection.rs\<close>, the pre-relay negotiation: the greeting, optional
  username/password authentication and the request, read over one buffer that keeps what a
  client pipelines past a message. \<open>Stalled\<close> and \<open>Pending\<close> are the negotiation still waiting
  when the handshake deadline around it expires; \<open>Panicked\<close> is a \<open>drain\<close> out of range.

  The three read loops of the source have one shape and are \<open>read_until\<close> at their parser;
  each loop's laws come from the parser's \<open>incremental_parser\<close> interpretation.
\<close>

section \<open>Model\<close>

definition READ_BUF :: nat where "READ_BUF = 512"

datatype more = More bytes | NoMore | MorePending

definition read_more :: "bytes \<Rightarrow> conn \<Rightarrow> conn \<times> more" where
  "read_more buf c =
     (case tcp_read READ_BUF (rx c) of
        (RdOk chunk, r) \<Rightarrow> (c\<lparr>rx := r\<rparr>, if chunk = [] then NoMore else More (buf @ chunk))
      | (RdErr e, r) \<Rightarrow> (c\<lparr>rx := r\<rparr>, NoMore)
      | (RdPending, r) \<Rightarrow> (c\<lparr>rx := r\<rparr>, MorePending))"

datatype ('a, 'e) read_result =
    Parsed 'a bytes
  | Malformed 'e
  | Closed
  | Stalled
  | Panicked

function read_until ::
  "(bytes \<Rightarrow> 'e + 'a) \<Rightarrow> ('e \<Rightarrow> bool) \<Rightarrow> ('a \<Rightarrow> nat) \<Rightarrow> bytes \<Rightarrow> conn \<Rightarrow> conn \<times> ('a, 'e) read_result"
where
  "read_until parse need size_of buf c =
     (case parse buf of
        Inr a \<Rightarrow>
          (case drain_front (size_of a) buf of
             None \<Rightarrow> (c, Panicked)
           | Some rest \<Rightarrow> (c, Parsed a rest))
      | Inl e \<Rightarrow>
          if \<not> need e then (c, Malformed e)
          else if READ_BUF < length buf then (c, Closed)
          else
            (case read_more buf c of
               (c', More buf') \<Rightarrow> read_until parse need size_of buf' c'
             | (c', NoMore) \<Rightarrow> (c', Closed)
             | (c', MorePending) \<Rightarrow> (c', Stalled)))"
  by pat_completeness auto

lemma read_more_bytes:
  assumes "read_more buf c = (c', More buf')"
  shows "\<exists>ch. ch \<noteq> [] \<and> buf' = buf @ ch \<and> stream_data (rx c) = ch @ stream_data (rx c') \<and>
    stream_end (rx c) = stream_end (rx c') \<and> rx_bytes (rx c') < rx_bytes (rx c) \<and>
    tx c' = tx c \<and> wr c' = wr c \<and> evs c' = evs c"
  using assms tcp_read_data [of READ_BUF "rx c"]
  by (auto simp: read_more_def split: prod.splits read_outcome.splits if_splits)

termination read_until
  by (relation "measure (\<lambda>(p, n, s, b, c). rx_bytes (rx c))") (auto dest!: sym [of "(_, _)"] read_more_bytes)

declare read_until.simps [simp del]

text \<open>The outcome of a phase: go on, return \<open>None\<close>, still waiting, or panic.\<close>

datatype 'a phase = Next 'a | Return | Pending | Panic

definition negotiate_greeting :: "config \<Rightarrow> conn \<Rightarrow> conn \<times> (u8 \<times> bytes) phase" where
  "negotiate_greeting cfg c =
     (let require_userpass = (auth_method (auth cfg) = AuthPassword)
      in case read_until parse_greeting (\<lambda>e. e = HsTruncated) greeting_size [] c of
           (c, Parsed offered buf) \<Rightarrow>
             (let chosen = select_method offered require_userpass
              in case write_all (method_reply chosen) c of
                   (c, WrFailed e) \<Rightarrow> (c, Return)
                 | (c, WrPending) \<Rightarrow> (c, Pending)
                 | (c, WrDone) \<Rightarrow>
                     if chosen = METHOD_NONE_ACCEPTABLE then (c, Return)
                     else (c, Next (chosen, buf)))
         | (c, Malformed e) \<Rightarrow> (c, Return)
         | (c, Closed) \<Rightarrow> (c, Return)
         | (c, Stalled) \<Rightarrow> (c, Pending)
         | (c, Panicked) \<Rightarrow> (c, Panic))"

definition negotiate_auth :: "config \<Rightarrow> u8 \<Rightarrow> bytes \<Rightarrow> conn \<Rightarrow> conn \<times> bytes phase" where
  "negotiate_auth cfg chosen buf c =
     (if chosen = METHOD_USERPASS then
        (case read_until parse_userpass (\<lambda>e. e = HsTruncated) userpass_size buf c of
           (c, Parsed (u, p) buf) \<Rightarrow>
             (let ok = verify_credentials (users (auth cfg)) u p;
                  c = send_event (EvAuth ok u) c
              in case write_all (userpass_reply ok) c of
                   (c, WrFailed e) \<Rightarrow> (c, Return)
                 | (c, WrPending) \<Rightarrow> (c, Pending)
                 | (c, WrDone) \<Rightarrow> if \<not> ok then (c, Return) else (c, Next buf))
         | (c, Malformed e) \<Rightarrow>
             (case write_all (userpass_reply False) c of
                (c, WrPending) \<Rightarrow> (c, Pending)
              | (c, w) \<Rightarrow> (c, Return))
         | (c, Closed) \<Rightarrow> (c, Return)
         | (c, Stalled) \<Rightarrow> (c, Pending)
         | (c, Panicked) \<Rightarrow> (c, Panic))
      else (c, Next buf))"

definition reply_failure :: "socks5_error \<Rightarrow> conn \<Rightarrow> conn \<times> write_outcome" where
  "reply_failure err c =
     write_all (encode_reply (reply_code err) (V4 ipv4_unspecified 0) []) c"

definition reply_request_error :: "socks5_error \<Rightarrow> conn \<Rightarrow> conn \<times> 'a phase" where
  "reply_request_error err c =
     (case reply_failure err c of
        (c, WrPending) \<Rightarrow> (c, Pending)
      | (c, w) \<Rightarrow> (send_event (EvError (reply_code err) ''malformed request'') c, Return))"

text \<open>The match on a request error that is not a truncation.\<close>

fun request_failure :: "request_error \<Rightarrow> conn \<Rightarrow> conn \<times> 'a phase" where
  "request_failure (BadCommand b) c = reply_request_error CommandNotSupported c"
| "request_failure (ReqAddr (BadAtyp b)) c = reply_request_error AddressNotSupported c"
| "request_failure (ReqAddr BadDomain) c = reply_request_error General c"
| "request_failure e c = (c, Return)"

definition negotiate_request :: "bytes \<Rightarrow> conn \<Rightarrow> conn \<times> (request \<times> bytes) phase" where
  "negotiate_request buf c =
     (case read_until parse_request request_needs request_size buf c of
        (c, Parsed req buf) \<Rightarrow> (c, Next (req, buf))
      | (c, Malformed e) \<Rightarrow> request_failure e c
      | (c, Closed) \<Rightarrow> (c, Return)
      | (c, Stalled) \<Rightarrow> (c, Pending)
      | (c, Panicked) \<Rightarrow> (c, Panic))"

fun and_then :: "conn \<times> 'a phase \<Rightarrow> ('a \<Rightarrow> conn \<Rightarrow> conn \<times> 'b phase) \<Rightarrow> conn \<times> 'b phase" where
  "and_then (c, Next a) k = k a c"
| "and_then (c, Return) k = (c, Return)"
| "and_then (c, Pending) k = (c, Pending)"
| "and_then (c, Panic) k = (c, Panic)"

definition negotiate :: "config \<Rightarrow> conn \<Rightarrow> conn \<times> (request \<times> bytes) phase" where
  "negotiate cfg c =
     and_then (negotiate_greeting cfg c) (\<lambda>(chosen, buf) c.
       and_then (negotiate_auth cfg chosen buf c) (\<lambda>buf c.
         negotiate_request buf c))"

section \<open>The read loops\<close>

text \<open>What a loop does, as a function of the bytes of the stream and of how it ends.\<close>

definition stream_verdict ::
  "(bytes \<Rightarrow> 'e + 'a) \<Rightarrow> ('e \<Rightarrow> bool) \<Rightarrow> ('a \<Rightarrow> nat) \<Rightarrow> bytes \<Rightarrow> ending \<Rightarrow> ('a, 'e) read_result"
where
  "stream_verdict parse need size_of data fin =
     (case parse data of
        Inr a \<Rightarrow> Parsed a (drop (size_of a) data)
      | Inl e \<Rightarrow>
          if \<not> need e then Malformed e else if fin = EndPending then Stalled else Closed)"

text \<open>The bytes that follow a message: what is left in the buffer and what is yet to arrive.\<close>

fun rest_of_stream :: "conn \<times> ('a, 'e) read_result \<Rightarrow> ('a, 'e) read_result" where
  "rest_of_stream (c, Parsed a rest) = Parsed a (rest @ stream_data (rx c))"
| "rest_of_stream (c, r) = r"

fun untouched :: "conn \<Rightarrow> conn \<Rightarrow> bool" where
  "untouched c c' \<longleftrightarrow> tx c' = tx c \<and> wr c' = wr c \<and> evs c' = evs c"

lemma read_more_stops:
  assumes "read_more buf c = (c', m)" and "\<And>b. m \<noteq> More b"
  shows "stream_data (rx c) = [] \<and> untouched c c' \<and>
    m = (if stream_end (rx c) = EndPending then MorePending else NoMore)"
  using assms tcp_read_eof [of READ_BUF "rx c"] tcp_read_err [of READ_BUF "rx c"]
    tcp_read_pending [of READ_BUF "rx c"]
  by (auto simp: read_more_def READ_BUF_def split: prod.splits read_outcome.splits if_splits)

context incremental_parser
begin

lemma read_until_stream:
  assumes "cap \<le> READ_BUF" and "read_until parse need size_of buf c = (c', r)"
  shows "rest_of_stream (c', r) =
      stream_verdict parse need size_of (buf @ stream_data (rx c)) (stream_end (rx c)) \<and>
    untouched c c' \<and> (\<forall>a rest. r = Parsed a rest \<longrightarrow> stream_end (rx c') = stream_end (rx c))"
  using assms(2)
proof (induction "rx_bytes (rx c)" arbitrary: buf c rule: less_induct)
  case less
  show ?case
  proof (cases "parse buf")
    case (Inr a)
    then have d: "drain_front (size_of a) buf = Some (drop (size_of a) buf)"
      using size_le by (simp add: drain_front_def)
    then have r: "c' = c" "r = Parsed a (drop (size_of a) buf)"
      using less.prems Inr by (simp_all add: read_until.simps [of _ _ _ buf])
    show ?thesis using Inr size_le [OF Inr] parse_ok [OF Inr] by (simp add: r stream_verdict_def)
  next
    case (Inl e)
    show ?thesis
    proof (cases "need e")
      case False
      then have r: "c' = c" "r = Malformed e"
        using less.prems Inl by (simp_all add: read_until.simps [of _ _ _ buf])
      show ?thesis using parse_err [OF Inl False] False by (simp add: r stream_verdict_def)
    next
      case True
      have short: "\<not> READ_BUF < length buf" using need_cap [OF Inl True] assms(1) by simp
      obtain c1 m where rm: "read_more buf c = (c1, m)" by (cases "read_more buf c")
      show ?thesis
      proof (cases "\<exists>b. m = More b")
        case True
        then obtain b where m: "m = More b" by blast
        from read_more_bytes [OF rm [unfolded m]] obtain ch where ch: "b = buf @ ch"
          "stream_data (rx c) = ch @ stream_data (rx c1)" "stream_end (rx c) = stream_end (rx c1)"
          "rx_bytes (rx c1) < rx_bytes (rx c)" "untouched c c1" by auto
        have "read_until parse need size_of b c1 = (c', r)"
          using less.prems Inl \<open>need e\<close> short rm m by (simp add: read_until.simps [of _ _ _ buf])
        from less.hyps [OF ch(4) this] show ?thesis using ch by auto
      next
        case False
        then have stop: "stream_data (rx c) = []" "untouched c c1"
          "m = (if stream_end (rx c) = EndPending then MorePending else NoMore)"
          using read_more_stops [OF rm] by auto
        have r: "c' = c1" "r = (if stream_end (rx c) = EndPending then Stalled else Closed)"
          using less.prems Inl True short rm stop(3)
          by (auto simp: read_until.simps [of _ _ _ buf] split: if_splits)
        show ?thesis using stop(1,2) Inl True by (simp add: r stream_verdict_def)
      qed
    qed
  qed
qed

end

section \<open>Independence from packet boundaries\<close>

text \<open>Two connections are alike when the same bytes are still to be processed, whether they
  are in the buffer or on their way.\<close>

fun out_eq :: "conn \<Rightarrow> conn \<Rightarrow> bool" where
  "out_eq c d \<longleftrightarrow> tx c = tx d \<and> wr c = wr d \<and> evs c = evs d"

fun alike :: "bytes \<Rightarrow> conn \<Rightarrow> bytes \<Rightarrow> conn \<Rightarrow> bool" where
  "alike b c b' d \<longleftrightarrow>
     b @ stream_data (rx c) = b' @ stream_data (rx d) \<and> stream_end (rx c) = stream_end (rx d) \<and>
     out_eq c d"

fun phase_sim ::
  "('a \<Rightarrow> conn \<Rightarrow> 'b \<Rightarrow> conn \<Rightarrow> bool) \<Rightarrow> conn \<times> 'a phase \<Rightarrow> conn \<times> 'b phase \<Rightarrow> bool"
where
  "phase_sim R (c, Next a) (d, Next b) = R a c b d"
| "phase_sim R (c, Return) (d, Return) = out_eq c d"
| "phase_sim R (c, Pending) (d, Pending) = out_eq c d"
| "phase_sim R (c, p) (d, q) = False"

lemma and_then_sim:
  assumes "phase_sim R x y" and "\<And>a c b d. R a c b d \<Longrightarrow> phase_sim S (k a c) (l b d)"
  shows "phase_sim S (and_then x k) (and_then y l)"
  using assms by (induction R x y rule: phase_sim.induct) auto

lemma write_all_sim:
  assumes "write_all bs c = (c', w)" and "out_eq c d"
  obtains d' where "write_all bs d = (d', w)" "out_eq c' d'" "rx c' = rx c" "rx d' = rx d"
  using assms by (auto simp: write_all_def split: list.splits write_item.splits)

fun result_sim :: "conn \<times> ('a, 'e) read_result \<Rightarrow> conn \<times> ('a, 'e) read_result \<Rightarrow> bool" where
  "result_sim (c, Parsed a b) (d, Parsed a' b') \<longleftrightarrow> a = a' \<and> alike b c b' d"
| "result_sim (c, Malformed e) (d, Malformed e') \<longleftrightarrow> e = e' \<and> out_eq c d"
| "result_sim (c, Closed) (d, Closed) \<longleftrightarrow> out_eq c d"
| "result_sim (c, Stalled) (d, Stalled) \<longleftrightarrow> out_eq c d"
| "result_sim (c, r) (d, r') \<longleftrightarrow> False"

lemma verdict_no_panic: "stream_verdict parse need size_of data fin \<noteq> Panicked"
  by (simp add: stream_verdict_def split: sum.splits)

context incremental_parser
begin

lemma read_until_sim:
  assumes cap: "cap \<le> READ_BUF" and alike: "alike b c b' d"
  shows "result_sim (read_until parse need size_of b c) (read_until parse need size_of b' d)"
proof -
  obtain c1 r where r: "read_until parse need size_of b c = (c1, r)" by fastforce
  obtain d1 q where q: "read_until parse need size_of b' d = (d1, q)" by fastforce
  note rs = read_until_stream [OF cap r] and qs = read_until_stream [OF cap q]
  from rs qs alike have eq: "rest_of_stream (c1, r) = rest_of_stream (d1, q)" by simp
  have "rest_of_stream (c1, r) \<noteq> Panicked" using rs verdict_no_panic by metis
  with eq conjunct2 [OF rs] conjunct2 [OF qs] alike show ?thesis
    by (cases r; cases q) (auto simp: r q)
qed

end

lemma write_all_alike:
  assumes "alike b c b' d" and "write_all bs c = (c', w)"
  obtains d' where "write_all bs d = (d', w)" "alike b c' b' d'"
proof -
  from assms(1) have "out_eq c d" by simp
  with assms(2) obtain d' where "write_all bs d = (d', w)" "out_eq c' d'" "rx c' = rx c" "rx d' = rx d"
    by (rule write_all_sim)
  with assms(1) that [of d'] show ?thesis by simp
qed

lemma send_event_alike: "alike b c b' d \<Longrightarrow> alike b (send_event e c) b' (send_event e d)"
  by (simp add: send_event_def)

lemma alike_out_eq: "alike b c b' d \<Longrightarrow> out_eq c d"
  by simp

declare alike.simps [simp del] out_eq.simps [simp del]

lemma read_buf_caps: "256 \<le> READ_BUF" "512 \<le> READ_BUF" "261 \<le> READ_BUF"
  by (simp_all add: READ_BUF_def)

lemmas loop_sims =
  greeting.read_until_sim [OF read_buf_caps(1)]
  userpass.read_until_sim [OF read_buf_caps(2)]
  request_in.read_until_sim [OF read_buf_caps(3)]

lemmas loop_streams =
  greeting.read_until_stream [OF read_buf_caps(1)]
  userpass.read_until_stream [OF read_buf_caps(2)]
  request_in.read_until_stream [OF read_buf_caps(3)]

lemma negotiate_greeting_sim:
  assumes "alike [] c [] d"
  shows "phase_sim (\<lambda>(m, b) c (m', b') d. m = m' \<and> alike b c b' d)
    (negotiate_greeting cfg c) (negotiate_greeting cfg d)"
proof -
  let ?L = "read_until parse_greeting (\<lambda>e. e = HsTruncated) greeting_size []"
  obtain c1 r where r: "?L c = (c1, r)" by fastforce
  obtain d1 q where q: "?L d = (d1, q)" by fastforce
  have sim: "result_sim (c1, r) (d1, q)" using loop_sims(1) [OF assms] r q by simp
  show ?thesis
  proof (cases r)
    case (Parsed a b)
    with sim obtain b' where q': "q = Parsed a b'" and al: "alike b c1 b' d1" by (cases q) auto
    let ?m = "method_reply (select_method a (auth_method (auth cfg) = AuthPassword))"
    obtain c2 w where w: "write_all ?m c1 = (c2, w)" by fastforce
    with al obtain d2 where "write_all ?m d1 = (d2, w)" "alike b c2 b' d2"
      by (rule write_all_alike)
    with w Parsed q' show ?thesis
      by (cases w) (auto simp: negotiate_greeting_def r q Let_def intro: alike_out_eq)
  qed (use sim in \<open>cases q; auto simp: negotiate_greeting_def r q\<close>)+
qed

lemma negotiate_auth_sim:
  assumes "alike b c b' d"
  shows "phase_sim alike (negotiate_auth cfg m b c) (negotiate_auth cfg m b' d)"
proof (cases "m = METHOD_USERPASS")
  case m: True
  let ?L = "read_until parse_userpass (\<lambda>e. e = HsTruncated) userpass_size"
  obtain c1 r where r: "?L b c = (c1, r)" by fastforce
  obtain d1 q where q: "?L b' d = (d1, q)" by fastforce
  have sim: "result_sim (c1, r) (d1, q)" using loop_sims(2) [OF assms] r q by simp
  show ?thesis
  proof (cases r)
    case (Parsed a x)
    with sim obtain y where q': "q = Parsed a y" and al: "alike x c1 y d1" by (cases q) auto
    obtain u p where a: "a = (u, p)" by (cases a)
    let ?ok = "verify_credentials (users (auth cfg)) u p"
    obtain c2 w where w: "write_all (userpass_reply ?ok) (send_event (EvAuth ?ok u) c1) = (c2, w)"
      by fastforce
    with send_event_alike [OF al] obtain d2 where
      "write_all (userpass_reply ?ok) (send_event (EvAuth ?ok u) d1) = (d2, w)" "alike x c2 y d2"
      by (rule write_all_alike)
    with w Parsed q' a m show ?thesis
      by (cases w) (auto simp: negotiate_auth_def r q Let_def intro: alike_out_eq)
  next
    case (Malformed e)
    with sim have q': "q = Malformed e" and al: "out_eq c1 d1" by (cases q; auto)+
    obtain c2 w where w: "write_all (userpass_reply False) c1 = (c2, w)" by fastforce
    with al obtain d2 where "write_all (userpass_reply False) d1 = (d2, w)" "out_eq c2 d2"
      by (metis write_all_sim)
    with w Malformed q' m show ?thesis
      by (cases w) (auto simp: negotiate_auth_def r q)
  qed (use sim m in \<open>cases q; auto simp: negotiate_auth_def r q\<close>)+
qed (use assms in \<open>simp add: negotiate_auth_def\<close>)

lemma request_failure_sim:
  assumes "out_eq c d"
  shows "phase_sim R (request_failure e c) (request_failure e d)"
proof -
  have "phase_sim R (reply_request_error err c) (reply_request_error err d)" for err
  proof -
    obtain c2 w where w: "reply_failure err c = (c2, w)" by fastforce
    with assms obtain d2 where "reply_failure err d = (d2, w)" "out_eq c2 d2"
      by (metis reply_failure_def write_all_sim)
    with w show ?thesis
      by (cases w) (auto simp: reply_request_error_def send_event_def out_eq.simps)
  qed
  with assms show ?thesis
    by (induction e c rule: request_failure.induct) auto
qed

lemma negotiate_request_sim:
  assumes "alike b c b' d"
  shows "phase_sim (\<lambda>(q, b) c (q', b') d. q = q' \<and> alike b c b' d)
    (negotiate_request b c) (negotiate_request b' d)"
proof -
  let ?L = "read_until parse_request request_needs request_size"
  obtain c1 r where r: "?L b c = (c1, r)" by fastforce
  obtain d1 q where q: "?L b' d = (d1, q)" by fastforce
  have sim: "result_sim (c1, r) (d1, q)" using loop_sims(3) [OF assms] r q by simp
  then show ?thesis
    by (cases r; cases q) (auto simp: negotiate_request_def r q request_failure_sim)
qed

lemma negotiate_sim:
  assumes "alike [] c [] d"
  shows "phase_sim (\<lambda>(q, b) c (q', b') d. q = q' \<and> alike b c b' d)
    (negotiate cfg c) (negotiate cfg d)"
  unfolding negotiate_def
  by (rule and_then_sim [OF negotiate_greeting_sim [OF assms]])
    (auto intro!: and_then_sim [OF negotiate_auth_sim] negotiate_request_sim)

section \<open>What each phase consumes and sends\<close>

context incremental_parser
begin

lemma read_until_parsed:
  assumes "cap \<le> READ_BUF" and "parse (buf @ stream_data (rx c)) = Inr a"
  obtains c' rest where "read_until parse need size_of buf c = (c', Parsed a rest)"
    "rest @ stream_data (rx c') = drop (size_of a) (buf @ stream_data (rx c))"
    "untouched c c'" "stream_end (rx c') = stream_end (rx c)"
proof -
  obtain c' r where r: "read_until parse need size_of buf c = (c', r)" by fastforce
  note rs = read_until_stream [OF assms(1) r]
  then have "rest_of_stream (c', r) = Parsed a (drop (size_of a) (buf @ stream_data (rx c)))"
    using assms(2) by (simp add: stream_verdict_def)
  then obtain rest where "r = Parsed a rest"
    "rest @ stream_data (rx c') = drop (size_of a) (buf @ stream_data (rx c))" by (cases r) auto
  with rs r that show ?thesis by blast
qed

lemma read_until_malformed:
  assumes "cap \<le> READ_BUF" and "parse (buf @ stream_data (rx c)) = Inl e" and "\<not> need e"
  obtains c' where "read_until parse need size_of buf c = (c', Malformed e)" "untouched c c'"
proof -
  obtain c' r where r: "read_until parse need size_of buf c = (c', r)" by fastforce
  note rs = read_until_stream [OF assms(1) r]
  then have "rest_of_stream (c', r) = Malformed e" using assms(2,3) by (simp add: stream_verdict_def)
  then have "r = Malformed e" by (cases r) auto
  with rs r that show ?thesis by blast
qed

lemma read_until_Parsed:
  assumes "cap \<le> READ_BUF" and "read_until parse need size_of buf c = (c', Parsed a rest)"
  shows "parse (buf @ stream_data (rx c)) = Inr a \<and>
    rest @ stream_data (rx c') = drop (size_of a) (buf @ stream_data (rx c)) \<and> untouched c c'"
  using read_until_stream [OF assms]
  by (auto simp: stream_verdict_def split: sum.splits if_splits)

lemma read_until_no_panic:
  assumes "cap \<le> READ_BUF"
  shows "read_until parse need size_of buf c \<noteq> (c', Panicked)"
proof
  assume "read_until parse need size_of buf c = (c', Panicked)"
  from read_until_stream [OF assms this] show False using verdict_no_panic by (metis rest_of_stream.simps(5))
qed

end

lemmas loop_parsed =
  greeting.read_until_parsed [OF read_buf_caps(1)]
  userpass.read_until_parsed [OF read_buf_caps(2)]
  request_in.read_until_parsed [OF read_buf_caps(3)]

lemmas loop_malformed =
  greeting.read_until_malformed [OF read_buf_caps(1)]
  userpass.read_until_malformed [OF read_buf_caps(2)]
  request_in.read_until_malformed [OF read_buf_caps(3)]

lemmas loop_Parsed =
  greeting.read_until_Parsed [OF read_buf_caps(1)]
  userpass.read_until_Parsed [OF read_buf_caps(2)]
  request_in.read_until_Parsed [OF read_buf_caps(3)]

lemmas loop_no_panic =
  greeting.read_until_no_panic [OF read_buf_caps(1)]
  userpass.read_until_no_panic [OF read_buf_caps(2)]
  request_in.read_until_no_panic [OF read_buf_caps(3)]

lemma drop_greeting: "drop (greeting_size ms) (greeting_msg ms @ rest) = rest"
  by (simp add: greeting_size_def greeting_msg_def)

lemma drop_userpass:
  "drop (userpass_size (u, p)) (userpass_msg (as_bytes u) (as_bytes p) @ rest) = rest"
  by (simp add: userpass_msg_def)

lemma drop_request: "drop (request_size req) (request_msg rsv req @ rest) = rest"
  by (simp add: request_size_bytes request_msg_def)

text \<open>The method an authentication setting asks for.\<close>

definition required_method :: "config \<Rightarrow> u8" where
  "required_method cfg =
     (if auth_method (auth cfg) = AuthPassword then METHOD_USERPASS else METHOD_NO_AUTH)"

lemma select_required:
  "select_method ms (auth_method (auth cfg) = AuthPassword) =
     (if required_method cfg \<in> set ms then required_method cfg else METHOD_NONE_ACCEPTABLE)"
  by (simp add: select_method_def required_method_def)

lemma required_acceptable [simp]: "required_method cfg \<noteq> METHOD_NONE_ACCEPTABLE"
  by (simp add: required_method_def)

text \<open>Forward: what a client that sends a given message gets, when the writes go through.\<close>

fun progressed :: "bytes \<Rightarrow> event list \<Rightarrow> conn \<Rightarrow> conn \<Rightarrow> bool" where
  "progressed out es c c' \<longleftrightarrow>
     tx c' = tx c @ out \<and> evs c' = evs c @ es \<and> wr c' = [] \<and> stream_end (rx c') = stream_end (rx c)"

lemma greeting_accepted:
  assumes "wr c = []" and "length ms \<le> 255" and "stream_data (rx c) = greeting_msg ms @ rest"
    and "required_method cfg \<in> set ms"
  obtains c' b where "negotiate_greeting cfg c = (c', Next (required_method cfg, b))"
    "b @ stream_data (rx c') = rest" "progressed [VERSION, required_method cfg] [] c c'"
proof -
  have "parse_greeting ([] @ stream_data (rx c)) = Inr ms"
    using assms(2,3) by (simp add: parse_greeting_msg)
  then obtain c1 b where l: "read_until parse_greeting (\<lambda>e. e = HsTruncated) greeting_size [] c = (c1, Parsed ms b)"
    "b @ stream_data (rx c1) = rest" "untouched c c1" "stream_end (rx c1) = stream_end (rx c)"
    by (rule loop_parsed(1)) (use assms(3) in \<open>simp add: drop_greeting del: drop_append\<close>)
  then have "wr c1 = []" using assms(1) by simp
  note w = write_all_ok [OF this]
  show ?thesis
    by (rule that [of "c1\<lparr>tx := tx c1 @ [VERSION, required_method cfg]\<rparr>" b])
      (use assms(1,4) l w in \<open>simp_all add: negotiate_greeting_def select_required method_reply_def Let_def\<close>)
qed

lemma greeting_rejected:
  assumes "wr c = []" and "length ms \<le> 255" and "stream_data (rx c) = greeting_msg ms @ rest"
    and "required_method cfg \<notin> set ms"
  obtains c' where "negotiate_greeting cfg c = (c', Return)"
    "tx c' = tx c @ [VERSION, METHOD_NONE_ACCEPTABLE]" "evs c' = evs c"
proof -
  have "parse_greeting ([] @ stream_data (rx c)) = Inr ms"
    using assms(2,3) by (simp add: parse_greeting_msg)
  then obtain c1 b where l: "read_until parse_greeting (\<lambda>e. e = HsTruncated) greeting_size [] c = (c1, Parsed ms b)"
    "untouched c c1" by (rule loop_parsed(1)) blast
  then have "wr c1 = []" using assms(1) by simp
  note w = write_all_ok [OF this]
  show ?thesis
    by (rule that [of "c1\<lparr>tx := tx c1 @ [VERSION, METHOD_NONE_ACCEPTABLE]\<rparr>"])
      (use assms(1,4) l w in \<open>simp_all add: negotiate_greeting_def select_required method_reply_def Let_def\<close>)
qed

lemma auth_decided:
  assumes "wr c = []" and "valid_str u" "length u \<le> 255" "valid_str p" "length p \<le> 255"
    and "b @ stream_data (rx c) = userpass_msg (as_bytes u) (as_bytes p) @ rest"
    and "ok = (\<lparr>username = u, password = p\<rparr> \<in> set (users (auth cfg)))"
  obtains c' b' where "negotiate_auth cfg METHOD_USERPASS b c = (c', if ok then Next b' else Return)"
    "b' @ stream_data (rx c') = rest" "progressed (userpass_reply ok) [EvAuth ok u] c c'"
proof -
  have "parse_userpass (b @ stream_data (rx c)) = Inr (u, p)"
    using assms(2-6) by (simp add: parse_userpass_msg)
  then obtain c1 b' where l:
    "read_until parse_userpass (\<lambda>e. e = HsTruncated) userpass_size b c = (c1, Parsed (u, p) b')"
    "b' @ stream_data (rx c1) = rest" "untouched c c1" "stream_end (rx c1) = stream_end (rx c)"
    by (rule loop_parsed(2)) (use assms(6) in \<open>simp add: drop_userpass del: drop_append userpass_size.simps\<close>)
  let ?c2 = "send_event (EvAuth ok u) c1"
  have "wr ?c2 = []" using assms(1) l(3) by (simp add: send_event_def)
  note w = write_all_ok [OF this]
  show ?thesis
    by (rule that [of "?c2\<lparr>tx := tx ?c2 @ userpass_reply ok\<rparr>" b'])
      (use assms(1) l w in \<open>simp_all add: negotiate_auth_def Let_def verify_credentials_iff
          assms(7) [symmetric] send_event_def\<close>)
qed

lemma auth_malformed:
  assumes "wr c = []" and "parse_userpass (b @ stream_data (rx c)) = Inl e" and "e \<noteq> HsTruncated"
  obtains c' where "negotiate_auth cfg METHOD_USERPASS b c = (c', Return)"
    "tx c' = tx c @ userpass_reply False" "evs c' = evs c"
proof -
  from assms(2,3) obtain c1 where l:
    "read_until parse_userpass (\<lambda>e. e = HsTruncated) userpass_size b c = (c1, Malformed e)" "untouched c c1"
    by (rule loop_malformed(2))
  then have "wr c1 = []" using assms(1) by simp
  note w = write_all_ok [OF this]
  show ?thesis
    by (rule that [of "c1\<lparr>tx := tx c1 @ userpass_reply False\<rparr>"])
      (use l w in \<open>simp_all add: negotiate_auth_def\<close>)
qed

lemma request_accepted:
  assumes "wf_address (address req)" and "b @ stream_data (rx c) = request_msg rsv req @ rest"
  obtains c' b' where "negotiate_request b c = (c', Next (req, b'))"
    "b' @ stream_data (rx c') = rest" "untouched c c'" "stream_end (rx c') = stream_end (rx c)"
proof -
  have "parse_request (b @ stream_data (rx c)) = Inr req" using assms by (simp add: parse_request_msg)
  then obtain c1 b' where l:
    "read_until parse_request request_needs request_size b c = (c1, Parsed req b')"
    "b' @ stream_data (rx c1) = rest" "untouched c c1" "stream_end (rx c1) = stream_end (rx c)"
    by (rule loop_parsed(3)) (use assms(2) in \<open>simp add: drop_request del: drop_append\<close>)
  with that [of c1 b'] show ?thesis by (simp add: negotiate_request_def)
qed

text \<open>The reply a malformed request gets: RFC 1928 has no code for a bad version.\<close>

fun request_error_code :: "request_error \<Rightarrow> socks5_error option" where
  "request_error_code (BadCommand b) = Some CommandNotSupported"
| "request_error_code (ReqAddr (BadAtyp b)) = Some AddressNotSupported"
| "request_error_code (ReqAddr BadDomain) = Some General"
| "request_error_code e = None"

lemma request_rejected:
  assumes "wr c = []" and "parse_request (b @ stream_data (rx c)) = Inl e" and "\<not> request_needs e"
  obtains c' where "negotiate_request b c = (c', Return)"
    "tx c' = tx c @ (case request_error_code e of Some err \<Rightarrow> failure_reply err | None \<Rightarrow> [])"
    "evs c' = evs c @ (case request_error_code e of
       Some err \<Rightarrow> [EvError (reply_code err) ''malformed request''] | None \<Rightarrow> [])"
proof -
  from assms(2,3) obtain c1 where l:
    "read_until parse_request request_needs request_size b c = (c1, Malformed e)" "untouched c c1"
    by (rule loop_malformed(3))
  then have "wr c1 = []" using assms(1) by simp
  note w = write_all_ok [OF this]
  obtain c' where f: "request_failure e c1 = (c', Return :: (request \<times> bytes) phase)"
    "tx c' = tx c1 @ (case request_error_code e of Some err \<Rightarrow> failure_reply err | None \<Rightarrow> [])"
    "evs c' = evs c1 @ (case request_error_code e of
       Some err \<Rightarrow> [EvError (reply_code err) ''malformed request''] | None \<Rightarrow> [])"
    by (cases "(e, c1)" rule: request_failure.cases)
      (auto simp: reply_request_error_def reply_failure_def failure_reply_def w send_event_def
        intro: that)
  moreover have "tx c1 = tx c" "evs c1 = evs c" using l(2) by simp_all
  moreover have "negotiate_request b c = (c', Return)" using l(1) f(1) by (simp add: negotiate_request_def)
  ultimately show ?thesis using that [of c'] by simp
qed

text \<open>Backward: what a phase that went on has read.\<close>

lemma greeting_Next:
  assumes "negotiate_greeting cfg c = (c', Next (m, b))"
  shows "\<exists>ms. length ms \<le> 255 \<and> stream_data (rx c) = greeting_msg ms @ b @ stream_data (rx c') \<and>
    m = required_method cfg \<and> m \<in> set ms \<and> tx c' = tx c @ [VERSION, m] \<and> evs c' = evs c"
proof -
  obtain c1 r where r: "read_until parse_greeting (\<lambda>e. e = HsTruncated) greeting_size [] c = (c1, r)"
    by fastforce
  with assms obtain ms where p: "r = Parsed ms b" and
    w: "write_all (method_reply m) c1 = (c', WrDone)" and
    m: "m = select_method ms (auth_method (auth cfg) = AuthPassword)" "m \<noteq> METHOD_NONE_ACCEPTABLE"
    by (cases r) (auto simp: negotiate_greeting_def Let_def split: prod.splits write_outcome.splits if_splits)
  from loop_Parsed(1) [OF r [unfolded p]]
  have g: "parse_greeting (stream_data (rx c)) = Inr ms" "untouched c c1"
    "b @ stream_data (rx c1) = drop (greeting_size ms) (stream_data (rx c))" by auto
  have "m = required_method cfg" "required_method cfg \<in> set ms"
    using m by (auto simp: select_required split: if_splits)
  with parse_greeting_inv [OF g(1)] g(2,3) write_all_done [OF w] write_all_rx [OF w] show ?thesis
    by (intro exI [of _ ms]) (simp add: method_reply_def)
qed

lemma auth_Next:
  assumes "negotiate_auth cfg METHOD_USERPASS b c = (c', Next b')"
  shows "\<exists>u p. b @ stream_data (rx c) = userpass_msg (as_bytes u) (as_bytes p) @ b' @ stream_data (rx c') \<and>
    \<lparr>username = u, password = p\<rparr> \<in> set (users (auth cfg)) \<and>
    tx c' = tx c @ [1, 0] \<and> evs c' = evs c @ [EvAuth True u]"
proof -
  obtain c1 r where r: "read_until parse_userpass (\<lambda>e. e = HsTruncated) userpass_size b c = (c1, r)"
    by fastforce
  with assms obtain u p where p: "r = Parsed (u, p) b'" and
    w: "write_all (userpass_reply True) (send_event (EvAuth True u) c1) = (c', WrDone)" and
    v: "verify_credentials (users (auth cfg)) u p"
    by (cases r) (auto simp: negotiate_auth_def Let_def split: prod.splits write_outcome.splits if_splits)
  from loop_Parsed(2) [OF r [unfolded p]]
  have g: "parse_userpass (b @ stream_data (rx c)) = Inr (u, p)" "untouched c c1"
    "b' @ stream_data (rx c1) = drop (userpass_size (u, p)) (b @ stream_data (rx c))" by auto
  have rx: "rx c' = rx c1" using write_all_rx [OF w] by (simp add: send_event_def)
  have "b @ stream_data (rx c) = userpass_msg (as_bytes u) (as_bytes p) @ b' @ stream_data (rx c')"
    using parse_userpass_inv [OF g(1)] unfolding rx g(3) by blast
  moreover have "tx c' = tx c @ [1, 0]" "evs c' = evs c @ [EvAuth True u]"
    using write_all_done [OF w] write_all_rx [OF w] g(2)
    by (simp_all add: userpass_reply_def USERPASS_VERSION_def send_event_def)
  ultimately show ?thesis using v unfolding verify_credentials_iff by blast
qed

lemma request_Next:
  assumes "negotiate_request b c = (c', Next (req, b'))"
  shows "wf_address (address req) \<and> untouched c c' \<and>
    (\<exists>rsv. b @ stream_data (rx c) = request_msg rsv req @ b' @ stream_data (rx c'))"
proof -
  have nf: "request_failure e d \<noteq> (c', Next x)" for e d and x :: "request \<times> bytes"
    by (induction e d rule: request_failure.induct)
      (auto simp: reply_request_error_def split: prod.splits write_outcome.splits)
  obtain c1 r where r: "read_until parse_request request_needs request_size b c = (c1, r)" by fastforce
  with assms nf have p: "r = Parsed req b'" "c1 = c'" by (cases r; auto simp: negotiate_request_def)+
  from loop_Parsed(3) [OF r [unfolded p]]
  have g: "parse_request (b @ stream_data (rx c)) = Inr req" "untouched c c'"
    "b' @ stream_data (rx c') = drop (request_size req) (b @ stream_data (rx c))" by auto
  with parse_request_inv [OF g(1)] show ?thesis by metis
qed

section \<open>The whole negotiation\<close>

definition wants_password :: "config \<Rightarrow> bool" where
  "wants_password cfg \<longleftrightarrow> auth_method (auth cfg) = AuthPassword"

lemma required_method_eq:
  "required_method cfg = (if wants_password cfg then METHOD_USERPASS else METHOD_NO_AUTH)"
  by (simp add: required_method_def wants_password_def)

text \<open>A client's credentials, and the message that carries them when they are asked for.\<close>

definition credentials_ok :: "config \<Rightarrow> string \<Rightarrow> string \<Rightarrow> bool" where
  "credentials_ok cfg u p \<longleftrightarrow> \<lparr>username = u, password = p\<rparr> \<in> set (users (auth cfg))"

definition sendable :: "string \<Rightarrow> bool" where
  "sendable s \<longleftrightarrow> valid_str s \<and> length s \<le> 255"

definition auth_msg :: "config \<Rightarrow> string \<Rightarrow> string \<Rightarrow> bytes" where
  "auth_msg cfg u p = (if wants_password cfg then userpass_msg (as_bytes u) (as_bytes p) else [])"

lemma negotiate_auth_ok:
  assumes "wr c = []" and "wants_password cfg \<longrightarrow> sendable u \<and> sendable p \<and> credentials_ok cfg u p"
    and "b @ stream_data (rx c) = auth_msg cfg u p @ rest"
  obtains c' b' where "negotiate_auth cfg (required_method cfg) b c = (c', Next b')"
    "b' @ stream_data (rx c') = rest"
    "progressed (if wants_password cfg then [1, 0] else [])
       (if wants_password cfg then [EvAuth True u] else []) c c'"
proof (cases "wants_password cfg")
  case True
  with assms obtain c' b' where "negotiate_auth cfg METHOD_USERPASS b c = (c', if True then Next b' else Return)"
    "b' @ stream_data (rx c') = rest" "progressed (userpass_reply True) [EvAuth True u] c c'"
    by (elim auth_decided [of c u p b rest True cfg])
      (auto simp: sendable_def credentials_ok_def auth_msg_def)
  with True that [of c' b'] show ?thesis
    by (simp add: required_method_eq userpass_reply_def USERPASS_VERSION_def)
next
  case False
  with assms that [of c b] show ?thesis
    by (simp add: required_method_eq negotiate_auth_def auth_msg_def)
qed

lemma negotiate_upto_request:
  assumes "wr c = []" and "length ms \<le> 255" and "required_method cfg \<in> set ms"
    and "wants_password cfg \<longrightarrow> sendable u \<and> sendable p \<and> credentials_ok cfg u p"
    and "stream_data (rx c) = greeting_msg ms @ auth_msg cfg u p @ rest"
  obtains c' b where "negotiate cfg c = negotiate_request b c'" "b @ stream_data (rx c') = rest"
    "progressed ([5, required_method cfg] @ (if wants_password cfg then [1, 0] else []))
       (if wants_password cfg then [EvAuth True u] else []) c c'"
proof -
  from assms(1,2,5,3) obtain c1 b1 where g:
    "negotiate_greeting cfg c = (c1, Next (required_method cfg, b1))"
    "b1 @ stream_data (rx c1) = auth_msg cfg u p @ rest"
    "progressed [VERSION, required_method cfg] [] c c1" by (rule greeting_accepted)
  then have "wr c1 = []" by simp
  from this assms(4) g(2) obtain c2 b2 where a:
    "negotiate_auth cfg (required_method cfg) b1 c1 = (c2, Next b2)" "b2 @ stream_data (rx c2) = rest"
    "progressed (if wants_password cfg then [1, 0] else [])
       (if wants_password cfg then [EvAuth True u] else []) c1 c2" by (rule negotiate_auth_ok)
  show ?thesis
    by (rule that [of b2 c2]) (use g a in \<open>auto simp: negotiate_def VERSION_def\<close>)
qed

lemma negotiate_ok:
  assumes "wr c = []" and "length ms \<le> 255" and "required_method cfg \<in> set ms"
    and "wants_password cfg \<longrightarrow> sendable u \<and> sendable p \<and> credentials_ok cfg u p"
    and "wf_address (address req)"
    and "stream_data (rx c) = greeting_msg ms @ auth_msg cfg u p @ request_msg rsv req @ payload"
  shows "\<exists>c' tail. negotiate cfg c = (c', Next (req, tail)) \<and> tail @ stream_data (rx c') = payload \<and>
    tx c' = tx c @ [5, required_method cfg] @ (if wants_password cfg then [1, 0] else []) \<and>
    evs c' = evs c @ (if wants_password cfg then [EvAuth True u] else []) \<and> wr c' = []"
proof -
  from assms(1-4,6) obtain c1 b1 where n: "negotiate cfg c = negotiate_request b1 c1"
    "b1 @ stream_data (rx c1) = request_msg rsv req @ payload"
    "progressed ([5, required_method cfg] @ (if wants_password cfg then [1, 0] else []))
       (if wants_password cfg then [EvAuth True u] else []) c c1"
    by (rule negotiate_upto_request)
  from assms(5) n(2) obtain c' tail where "negotiate_request b1 c1 = (c', Next (req, tail))"
    "tail @ stream_data (rx c') = payload" "untouched c1 c'" by (rule request_accepted)
  with n show ?thesis by auto
qed

lemma negotiate_Next:
  assumes "negotiate cfg c = (c', Next (req, tail))"
  shows "\<exists>ms u p rsv.
    stream_data (rx c) =
      greeting_msg ms @ auth_msg cfg u p @ request_msg rsv req @ tail @ stream_data (rx c') \<and>
    required_method cfg \<in> set ms \<and> wf_address (address req) \<and>
    (wants_password cfg \<longrightarrow> credentials_ok cfg u p) \<and>
    tx c' = tx c @ [5, required_method cfg] @ (if wants_password cfg then [1, 0] else []) \<and>
    evs c' = evs c @ (if wants_password cfg then [EvAuth True u] else [])"
proof -
  obtain c1 p1 where g: "negotiate_greeting cfg c = (c1, p1)" by fastforce
  with assms obtain m b1 where g1: "p1 = Next (m, b1)" by (cases p1) (auto simp: negotiate_def)
  obtain c2 p2 where a: "negotiate_auth cfg m b1 c1 = (c2, p2)" by fastforce
  with assms g g1 obtain b2 where a1: "p2 = Next b2" by (cases p2) (auto simp: negotiate_def)
  have r: "negotiate_request b2 c2 = (c', Next (req, tail))"
    using assms g g1 a a1 by (simp add: negotiate_def)
  from greeting_Next [OF g [unfolded g1]] obtain ms where gm:
    "stream_data (rx c) = greeting_msg ms @ b1 @ stream_data (rx c1)" "m = required_method cfg"
    "m \<in> set ms" "tx c1 = tx c @ [VERSION, m]" "evs c1 = evs c" by blast
  from request_Next [OF r] obtain rsv where rm: "wf_address (address req)" "untouched c2 c'"
    "b2 @ stream_data (rx c2) = request_msg rsv req @ tail @ stream_data (rx c')" by blast
  show ?thesis
  proof (cases "wants_password cfg")
    case True
    then have "negotiate_auth cfg METHOD_USERPASS b1 c1 = (c2, Next b2)"
      using a a1 gm(2) by (simp add: required_method_eq)
    from auth_Next [OF this] show ?thesis using gm rm True
      by (fastforce simp: auth_msg_def credentials_ok_def VERSION_def)
  next
    case False
    then have "c2 = c1 \<and> b2 = b1"
      using a a1 gm(2) by (simp add: required_method_eq negotiate_auth_def)
    then show ?thesis using gm rm False by (fastforce simp: auth_msg_def VERSION_def)
  qed
qed

text \<open>What a phase that did not go on has sent: replies, the last of them possibly cut short.\<close>

lemma greeting_stops:
  assumes "negotiate_greeting cfg c = (c', r)" and "\<And>x. r \<noteq> Next x"
  shows "evs c' = evs c \<and> (\<exists>n m. m \<in> {required_method cfg, METHOD_NONE_ACCEPTABLE} \<and> tx c' = tx c @ take n [VERSION, m])"
proof -
  obtain c1 q where l: "read_until parse_greeting (\<lambda>e. e = HsTruncated) greeting_size [] c = (c1, q)" by fastforce
  have u: "tx c1 = tx c" "evs c1 = evs c" using loop_streams(1) [OF l] by simp_all
  show ?thesis
  proof (cases "\<exists>ms rest. q = Parsed ms rest")
    case True
    then obtain ms rest where q: "q = Parsed ms rest" by blast
    define m where "m = select_method ms (auth_method (auth cfg) = AuthPassword)"
    obtain c2 w where w: "write_all (method_reply m) c1 = (c2, w)" by fastforce
    have "c' = c2" using assms l q w
      by (auto simp: negotiate_greeting_def Let_def m_def split: write_outcome.splits if_splits)
    moreover have "m \<in> {required_method cfg, METHOD_NONE_ACCEPTABLE}" by (simp add: m_def select_required)
    ultimately show ?thesis using write_all_prefix [OF w] write_all_rx [OF w] u by (auto simp: method_reply_def)
  next
    case False
    then have "c' = c1" using assms(1) l by (cases q) (auto simp: negotiate_greeting_def Let_def)
    then have "evs c' = evs c" "tx c' = tx c @ take 0 [VERSION, required_method cfg]" using u by simp_all
    then show ?thesis by blast
  qed
qed

lemma auth_stops:
  assumes "negotiate_auth cfg METHOD_USERPASS b c = (c', r)"
    and "\<not> (\<exists>u p rest. b @ stream_data (rx c) = userpass_msg (as_bytes u) (as_bytes p) @ rest \<and> credentials_ok cfg u p)"
  shows "(\<forall>x. r \<noteq> Next x) \<and> (\<exists>n. tx c' = tx c @ take n [USERPASS_VERSION, 1]) \<and>
    (evs c' = evs c \<or> (\<exists>u. evs c' = evs c @ [EvAuth False u]))"
proof -
  obtain c1 q where l: "read_until parse_userpass (\<lambda>e. e = HsTruncated) userpass_size b c = (c1, q)" by fastforce
  have u: "tx c1 = tx c" "evs c1 = evs c" using loop_streams(2) [OF l] by simp_all
  have reply: "userpass_reply False = [USERPASS_VERSION, 1]" by (simp add: userpass_reply_def)
  show ?thesis
  proof (cases q)
    case (Parsed up rest)
    obtain usr pw where up: "up = (usr, pw)" by fastforce
    from loop_Parsed(2) [OF l [unfolded Parsed]] have g: "parse_userpass (b @ stream_data (rx c)) = Inr (usr, pw)"
      by (simp add: up)
    have "\<not> verify_credentials (users (auth cfg)) usr pw"
      using parse_userpass_inv [OF g] assms(2) unfolding verify_credentials_iff credentials_ok_def by metis
    moreover obtain c2 w where w: "write_all (userpass_reply False) (send_event (EvAuth False usr) c1) = (c2, w)"
      by fastforce
    ultimately have "c' = c2" "\<forall>x. r \<noteq> Next x" using assms(1) l Parsed up
      by (auto simp: negotiate_auth_def Let_def split: write_outcome.splits)
    then show ?thesis using write_all_prefix [OF w] write_all_rx [OF w] u by (auto simp: send_event_def reply)
  next
    case (Malformed e)
    obtain c2 w where w: "write_all (userpass_reply False) c1 = (c2, w)" by fastforce
    have "c' = c2" "\<forall>x. r \<noteq> Next x" using assms(1) l Malformed w
      by (auto simp: negotiate_auth_def split: write_outcome.splits)
    then show ?thesis using write_all_prefix [OF w] write_all_rx [OF w] u by (auto simp: reply)
  qed (use assms(1) l u in \<open>auto simp: negotiate_auth_def intro!: exI [of _ 0]\<close>)
qed

lemma negotiate_stops:
  assumes "wants_password cfg" and "negotiate cfg c = (c', r)"
    and "\<not> (\<exists>ms u p rest. stream_data (rx c) = greeting_msg ms @ userpass_msg (as_bytes u) (as_bytes p) @ rest \<and>
            credentials_ok cfg u p)"
  shows "(\<forall>x. r \<noteq> Next x) \<and> (\<exists>n reply. reply \<in> {[5, 0xFF], [5, 2, 1, 1]} \<and> tx c' = tx c @ take n reply) \<and>
    (evs c' = evs c \<or> (\<exists>u. evs c' = evs c @ [EvAuth False u]))"
proof -
  obtain c1 r1 where g: "negotiate_greeting cfg c = (c1, r1)" by fastforce
  have pw: "required_method cfg = METHOD_USERPASS" using assms(1) by (simp add: required_method_eq)
  show ?thesis
  proof (cases "\<exists>m b. r1 = Next (m, b)")
    case True
    then obtain m b where r1: "r1 = Next (m, b)" by blast
    from greeting_Next [OF g [unfolded r1]] obtain ms where ms: "stream_data (rx c) = greeting_msg ms @ b @ stream_data (rx c1)"
      "m = METHOD_USERPASS" "tx c1 = tx c @ [VERSION, m]" "evs c1 = evs c" unfolding pw by blast
    obtain c2 r2 where a: "negotiate_auth cfg METHOD_USERPASS b c1 = (c2, r2)" by fastforce
    have "\<not> (\<exists>u p rest. b @ stream_data (rx c1) = userpass_msg (as_bytes u) (as_bytes p) @ rest \<and> credentials_ok cfg u p)"
      using assms(3) ms(1) by metis
    note st = auth_stops [OF a this]
    have "c' = c2" "\<forall>x. r \<noteq> Next x" using assms(2) g r1 a ms(2) st by (cases r2; auto simp: negotiate_def)+
    moreover from st obtain n where "tx c2 = tx c @ take (n + 2) [5, 2, 1, 1]"
      using ms(2,3) by (auto simp: VERSION_def USERPASS_VERSION_def METHOD_USERPASS_def)
    ultimately show ?thesis using st ms(4) by (intro conjI exI [of _ "n + 2"] exI [of _ "[5, 2, 1, 1]"]) simp_all
  next
    case False
    then have "\<And>x. r1 \<noteq> Next x" by auto
    note st = greeting_stops [OF g this]
    have "c' = c1" "\<forall>x. r \<noteq> Next x" using assms(2) g False by (cases r1; auto simp: negotiate_def)+
    moreover obtain n m where n: "m \<in> {METHOD_USERPASS, METHOD_NONE_ACCEPTABLE}" "tx c1 = tx c @ take n [VERSION, m]"
      using st unfolding pw by blast
    moreover have "take n [VERSION, METHOD_USERPASS] = take (min n 2) [5, 2, 1, 1]"
      "[VERSION, METHOD_NONE_ACCEPTABLE] = [5, 0xFF]"
      by (simp_all add: VERSION_def METHOD_USERPASS_def METHOD_NONE_ACCEPTABLE_def take_Cons' min_def)
    ultimately show ?thesis using st by (metis insertCI insertE singletonD)
  qed
qed
section \<open>Properties\<close>

text \<open>C16: the negotiation depends only on the bytes the client sends and on how its stream
  ends, not on how the network cuts the bytes into reads: the replies, the events and the
  outcome are the same, the same bytes are left for the relay, and no cut makes it panic.\<close>

theorem negotiate_packet_independent:
  assumes "stream_data (rx c) = stream_data (rx d)" and "stream_end (rx c) = stream_end (rx d)"
    and "tx c = tx d" and "wr c = wr d" and "evs c = evs d"
    and "negotiate cfg c = (c', r)" and "negotiate cfg d = (d', q)"
  shows "tx c' = tx d' \<and> evs c' = evs d' \<and> r \<noteq> Panic \<and> q \<noteq> Panic \<and>
    (case r of
       Next (req, tail) \<Rightarrow>
         (\<exists>tail'. q = Next (req, tail') \<and>
            tail @ stream_data (rx c') = tail' @ stream_data (rx d'))
     | _ \<Rightarrow> q = r)"
proof -
  have "alike [] c [] d" using assms(1-5) by (simp add: alike.simps out_eq.simps)
  from negotiate_sim [OF this, of cfg] show ?thesis
    unfolding assms(6,7)
    by (cases r; cases q) (auto simp: alike.simps out_eq.simps)
qed

definition pass_config :: config where
  "pass_config = default_config\<lparr>auth := \<lparr>auth_method = AuthPassword, users = [\<lparr>username = ''u'', password = ''p''\<rparr>]\<rparr>\<rparr>"

definition client_bytes :: bytes where
  "client_bytes =
     [5, 1, 2] @ [1, 1, 117, 1, 112] @ [5, 1, 0, 1, 93, 184, 216, 34, 0, 80] @ [71, 69, 84]"

definition one_read :: conn where
  "one_read = \<lparr>rx = [Rx client_bytes], tx = [], wr = [], evs = [], journal = []\<rparr>"

definition byte_reads :: conn where
  "byte_reads = \<lparr>rx = map (\<lambda>b. Rx [b]) client_bytes, tx = [], wr = [], evs = [], journal = []\<rparr>"

theorem negotiate_packet_independent_witness:
  "tx (fst (negotiate pass_config one_read)) = tx (fst (negotiate pass_config byte_reads)) \<and>
   snd (negotiate pass_config byte_reads) \<noteq> Panic"
  using negotiate_packet_independent [of one_read byte_reads pass_config,
      OF _ _ _ _ _ prod.collapse [symmetric] prod.collapse [symmetric]]
  by (simp add: one_read_def byte_reads_def client_bytes_def)

text \<open>C17: a client that offers the required method, authenticates as a configured user when
  that is required and sends a well-formed request is served, however its bytes arrive:
  the replies are the method selection and the authentication status, and every byte after
  the request is kept for the relay.\<close>

theorem negotiate_serves:
  assumes "wr c = []" and "length ms \<le> 255" and "required_method cfg \<in> set ms"
    and "wants_password cfg \<longrightarrow> sendable u \<and> sendable p \<and> credentials_ok cfg u p"
    and "wf_address (address req)"
    and "stream_data (rx c) = greeting_msg ms @ auth_msg cfg u p @ request_msg rsv req @ payload"
  shows "\<exists>c' tail. negotiate cfg c = (c', Next (req, tail)) \<and> tail @ stream_data (rx c') = payload \<and>
    tx c' = tx c @ [5, required_method cfg] @ (if wants_password cfg then [1, 0] else []) \<and>
    evs c' = evs c @ (if wants_password cfg then [EvAuth True u] else [])"
  using negotiate_ok [OF assms] by blast

definition sample_request :: request where
  "sample_request = \<lparr>command = Connect, address = V4 (Ipv4 93 184 216 34) 80\<rparr>"

lemma sample_client:
  "wants_password pass_config" "required_method pass_config \<in> set [2]"
  "sendable ''u'' \<and> sendable ''p'' \<and> credentials_ok pass_config ''u'' ''p''"
  "wf_address (address sample_request)"
  "stream_data (rx byte_reads) =
     greeting_msg [2] @ auth_msg pass_config ''u'' ''p'' @ request_msg 0 sample_request @ [71, 69, 84]"
  "wr byte_reads = []"
proof -
  show w: "wants_password pass_config" by (simp add: wants_password_def pass_config_def)
  show "required_method pass_config \<in> set [2]" by (simp add: required_method_eq w METHOD_USERPASS_def)
  show "sendable ''u'' \<and> sendable ''p'' \<and> credentials_ok pass_config ''u'' ''p''"
    by (simp add: sendable_def credentials_ok_def pass_config_def, code_simp)
  show "wf_address (address sample_request)" by (simp add: sample_request_def)
  show "stream_data (rx byte_reads) =
     greeting_msg [2] @ auth_msg pass_config ''u'' ''p'' @ request_msg 0 sample_request @ [71, 69, 84]"
    unfolding auth_msg_def if_P [OF w] by code_simp
  show "wr byte_reads = []" by (simp add: byte_reads_def)
qed

theorem negotiate_serves_witness:
  "\<exists>c' tail. negotiate pass_config byte_reads = (c', Next (sample_request, tail)) \<and>
     tail @ stream_data (rx c') = [71, 69, 84] \<and> tx c' = [5, 2, 1, 0]"
  using negotiate_serves [of byte_reads "[2]" pass_config "''u''" "''p''" sample_request 0 "[71, 69, 84]"]
    sample_client
  by (simp add: byte_reads_def required_method_eq METHOD_USERPASS_def) blast

text \<open>C1: the negotiation hands a request on only after the client has offered the required
  method and, when passwords are required, sent a configured user's name and password,
  which is also reported; the request and the relay's initial bytes are exactly what
  follows in the client's stream.\<close>

theorem negotiate_authenticated:
  assumes "negotiate cfg c = (c', Next (req, tail))"
  shows "\<exists>ms u p rsv.
    stream_data (rx c) =
      greeting_msg ms @ auth_msg cfg u p @ request_msg rsv req @ tail @ stream_data (rx c') \<and>
    required_method cfg \<in> set ms \<and> wf_address (address req) \<and>
    (wants_password cfg \<longrightarrow> credentials_ok cfg u p) \<and>
    tx c' = tx c @ [5, required_method cfg] @ (if wants_password cfg then [1, 0] else []) \<and>
    evs c' = evs c @ (if wants_password cfg then [EvAuth True u] else [])"
  using assms by (rule negotiate_Next)

theorem negotiate_authenticated_witness:
  "\<exists>c' tail ms u p rsv. negotiate pass_config byte_reads = (c', Next (sample_request, tail)) \<and>
    stream_data (rx byte_reads) = greeting_msg ms @ auth_msg pass_config u p @
      request_msg rsv sample_request @ tail @ stream_data (rx c') \<and> credentials_ok pass_config u p"
proof -
  obtain c' tail where "negotiate pass_config byte_reads = (c', Next (sample_request, tail))"
    using negotiate_ok [of byte_reads "[2]" pass_config "''u''" "''p''" sample_request 0 "[71, 69, 84]"]
      sample_client by auto
  with negotiate_authenticated [OF this] sample_client(1) show ?thesis by blast
qed

text \<open>C18: a client that does not offer the required method gets the method reply 0xFF; one
  that sends a malformed authentication message or a user and password that are not
  configured gets the status 0x01; each is then closed without a request being handled,
  and only a well-formed attempt is reported, as failed.\<close>

theorem negotiate_denies:
  assumes "wr c = []" and "length ms \<le> 255" and "stream_data (rx c) = greeting_msg ms @ rest"
  shows "(required_method cfg \<notin> set ms \<longrightarrow>
      (\<exists>c'. negotiate cfg c = (c', Return) \<and> tx c' = tx c @ [5, 0xFF] \<and> evs c' = evs c)) \<and>
    (wants_password cfg \<and> METHOD_USERPASS \<in> set ms \<and> sendable u \<and> sendable p \<and>
       rest = userpass_msg (as_bytes u) (as_bytes p) @ after \<and> \<not> credentials_ok cfg u p \<longrightarrow>
      (\<exists>c'. negotiate cfg c = (c', Return) \<and> tx c' = tx c @ [5, 2, 1, 1] \<and>
         evs c' = evs c @ [EvAuth False u])) \<and>
    (wants_password cfg \<and> METHOD_USERPASS \<in> set ms \<and> parse_userpass rest = Inl e \<and>
       e \<noteq> HsTruncated \<longrightarrow>
      (\<exists>c'. negotiate cfg c = (c', Return) \<and> tx c' = tx c @ [5, 2, 1, 1] \<and> evs c' = evs c))"
proof (intro conjI impI)
  assume "required_method cfg \<notin> set ms"
  from greeting_rejected [OF assms this] obtain c' where "negotiate_greeting cfg c = (c', Return)"
    "tx c' = tx c @ [VERSION, METHOD_NONE_ACCEPTABLE]" "evs c' = evs c" .
  then show "\<exists>c'. negotiate cfg c = (c', Return) \<and> tx c' = tx c @ [5, 0xFF] \<and> evs c' = evs c"
    by (simp add: negotiate_def VERSION_def METHOD_NONE_ACCEPTABLE_def)
next
  assume h: "wants_password cfg \<and> METHOD_USERPASS \<in> set ms \<and> sendable u \<and> sendable p \<and>
    rest = userpass_msg (as_bytes u) (as_bytes p) @ after \<and> \<not> credentials_ok cfg u p"
  then have m: "required_method cfg = METHOD_USERPASS" by (simp add: required_method_eq)
  then obtain c1 b1 where g: "negotiate_greeting cfg c = (c1, Next (METHOD_USERPASS, b1))"
    "b1 @ stream_data (rx c1) = rest" "progressed [VERSION, METHOD_USERPASS] [] c c1"
    using greeting_accepted [OF assms, of cfg] h by auto
  moreover from g h have "wr c1 = []" "valid_str u" "length u \<le> 255" "valid_str p" "length p \<le> 255"
    "b1 @ stream_data (rx c1) = userpass_msg (as_bytes u) (as_bytes p) @ after"
    "False = (\<lparr>username = u, password = p\<rparr> \<in> set (users (auth cfg)))"
    by (simp_all add: sendable_def credentials_ok_def)
  then obtain c2 b2 where "negotiate_auth cfg METHOD_USERPASS b1 c1 = (c2, if False then Next b2 else Return)"
    "progressed (userpass_reply False) [EvAuth False u] c1 c2" by (rule auth_decided) blast
  ultimately show "\<exists>c'. negotiate cfg c = (c', Return) \<and> tx c' = tx c @ [5, 2, 1, 1] \<and>
         evs c' = evs c @ [EvAuth False u]"
    by (simp add: negotiate_def VERSION_def METHOD_USERPASS_def userpass_reply_def USERPASS_VERSION_def)
next
  assume h: "wants_password cfg \<and> METHOD_USERPASS \<in> set ms \<and> parse_userpass rest = Inl e \<and> e \<noteq> HsTruncated"
  then have m: "required_method cfg = METHOD_USERPASS" by (simp add: required_method_eq)
  then obtain c1 b1 where g: "negotiate_greeting cfg c = (c1, Next (METHOD_USERPASS, b1))"
    "b1 @ stream_data (rx c1) = rest" "progressed [VERSION, METHOD_USERPASS] [] c c1"
    using greeting_accepted [OF assms, of cfg] h by auto
  moreover from g h have "wr c1 = []" "parse_userpass (b1 @ stream_data (rx c1)) = Inl e" "e \<noteq> HsTruncated"
    by simp_all
  then obtain c2 where "negotiate_auth cfg METHOD_USERPASS b1 c1 = (c2, Return)"
    "tx c2 = tx c1 @ userpass_reply False" "evs c2 = evs c1" by (rule auth_malformed)
  ultimately show "\<exists>c'. negotiate cfg c = (c', Return) \<and> tx c' = tx c @ [5, 2, 1, 1] \<and> evs c' = evs c"
    by (simp add: negotiate_def VERSION_def METHOD_USERPASS_def userpass_reply_def USERPASS_VERSION_def)
qed

definition no_auth_client :: conn where
  "no_auth_client = \<lparr>rx = [Rx [5], Rx [1, 0]], tx = [], wr = [], evs = [], journal = []\<rparr>"

theorem negotiate_denies_witness:
  "\<exists>c'. negotiate pass_config no_auth_client = (c', Return) \<and> tx c' = [5, 0xFF]"
  using negotiate_denies [of no_auth_client "[0]" "[]" pass_config "[]" "[]" "[]" HsTruncated] sample_client(1)
  by (simp add: no_auth_client_def greeting_msg_def VERSION_def required_method_eq METHOD_USERPASS_def)
    blast

text \<open>C19: after a successful greeting and authentication, a malformed request gets exactly
  one failure reply with the code RFC 1928 gives it (0x07 for an unknown command, 0x08 for
  an unknown address type, 0x01 for a malformed domain) and one error event, and a bad
  version closes the connection with no reply.\<close>

theorem negotiate_request_errors:
  assumes "wr c = []" and "length ms \<le> 255" and "required_method cfg \<in> set ms"
    and "wants_password cfg \<longrightarrow> sendable u \<and> sendable p \<and> credentials_ok cfg u p"
    and "stream_data (rx c) = greeting_msg ms @ auth_msg cfg u p @ rest"
    and "parse_request rest = Inl e" and "\<not> request_needs e"
  shows "\<exists>c' out es. negotiate cfg c = (c', Return) \<and>
    tx c' = tx c @ [5, required_method cfg] @ (if wants_password cfg then [1, 0] else []) @ out \<and>
    evs c' = evs c @ (if wants_password cfg then [EvAuth True u] else []) @ es \<and>
    (case e of
       BadCommand b \<Rightarrow> out = [5, 7, 0, 1, 0, 0, 0, 0, 0, 0] \<and> es = [EvError 7 ''malformed request'']
     | ReqAddr (BadAtyp b) \<Rightarrow>
         out = [5, 8, 0, 1, 0, 0, 0, 0, 0, 0] \<and> es = [EvError 8 ''malformed request'']
     | ReqAddr BadDomain \<Rightarrow>
         out = [5, 1, 0, 1, 0, 0, 0, 0, 0, 0] \<and> es = [EvError 1 ''malformed request'']
     | ReqBadVersion v \<Rightarrow> out = [] \<and> es = []
     | _ \<Rightarrow> False)"
proof -
  from assms(1-5) obtain c1 b1 where n: "negotiate cfg c = negotiate_request b1 c1"
    "b1 @ stream_data (rx c1) = rest"
    "progressed ([5, required_method cfg] @ (if wants_password cfg then [1, 0] else []))
       (if wants_password cfg then [EvAuth True u] else []) c c1"
    by (rule negotiate_upto_request)
  then have "wr c1 = []" by simp
  moreover have "parse_request (b1 @ stream_data (rx c1)) = Inl e" using n(2) assms(6) by simp
  ultimately obtain c' where r: "negotiate_request b1 c1 = (c', Return)"
    "tx c' = tx c1 @ (case request_error_code e of Some err \<Rightarrow> failure_reply err | None \<Rightarrow> [])"
    "evs c' = evs c1 @ (case request_error_code e of
       Some err \<Rightarrow> [EvError (reply_code err) ''malformed request''] | None \<Rightarrow> [])"
    using assms(7) by (rule request_rejected)
  have "failure_reply err = [5, reply_code err, 0, 1, 0, 0, 0, 0, 0, 0]" for err
    by (simp add: failure_reply_def failure_bytes)
  with n r assms(7) show ?thesis
    by (auto simp: request_needs_def split: request_error.splits addr_error.splits)
qed

definition bad_command_client :: conn where
  "bad_command_client =
     \<lparr>rx = [Rx [5, 1, 0, 5], Rx [9, 0, 1]], tx = [], wr = [], evs = [], journal = []\<rparr>"

theorem negotiate_request_errors_witness:
  "\<exists>c'. negotiate default_config bad_command_client = (c', Return) \<and>
     tx c' = [5, 0, 5, 7, 0, 1, 0, 0, 0, 0, 0, 0]"
proof -
  have w: "\<not> wants_password default_config" by (simp add: wants_password_def default_config_def auth_default_def)
  have "parse_request [5, 9, 0, 1] = Inl (BadCommand 9)" by code_simp
  moreover have "\<not> request_needs (BadCommand 9)" by (simp add: request_needs_def)
  ultimately show ?thesis
    using negotiate_request_errors [of bad_command_client "[0]" default_config "[]" "[]" "[5, 9, 0, 1]" "BadCommand 9"] w
    by (simp add: bad_command_client_def required_method_eq METHOD_NO_AUTH_def auth_msg_def
        greeting_msg_def VERSION_def) blast
qed

end
