(* ===== verification/Connect.thy ===== *)
theory Connect
  imports Relay Negotiation
begin

text \<open>
  \<open>src/server/connect.rs\<close>, the CONNECT handler as a whole: establish the upstream, reply,
  register, forward the pipelined bytes, relay, and account for the end. What the network
  does is a script, and a handler that waits for something the script does not bring is in
  one of the unfinished states.
\<close>

section \<open>Model\<close>

record upstream =
  up_local :: "socket_addr option" \<comment> \<open>\<open>local_addr().ok()\<close>\<close>

record connect_script =
  sc_started :: instant
  sc_direct :: "(upstream, io_error) result option" \<comment> \<open>a literal target's dial\<close>
  sc_events :: "(instant \<times> upstream est_event) list" \<comment> \<open>a domain's search\<close>
  sc_failed_at :: instant \<comment> \<open>the time read for the failure message\<close>
  sc_initial :: write_outcome \<comment> \<open>\<open>upstream.write_all(&initial)\<close>\<close>
  sc_relay_at :: instant
  sc_relay :: "(instant \<times> relay_event) list"

datatype run_status =
    RunDone
  | RunEstablishing
  | RunReplying
  | RunInitial u64
  | RunRelaying u64
  | RunPanicked

text \<open>The match on \<open>EstablishError\<close>.\<close>

fun establish_failure :: "string \<Rightarrow> nat \<Rightarrow> establish_error \<Rightarrow> socks5_error \<times> string" where
  "establish_failure target ms (EstDns detail) =
     (HostUnreachable, ''could not resolve '' @ target @ '': '' @ detail)"
| "establish_failure target ms EstBlocked = (NotAllowed, ''destination not allowed: '' @ target)"
| "establish_failure target ms (EstDial (IoError k text)) =
     (from_io k, ''connect to '' @ target @ '' failed after '' @ show_nat ms @ '' ms: '' @ text)"

definition connect_failed :: "socks5_error \<Rightarrow> string \<Rightarrow> conn \<Rightarrow> metrics \<Rightarrow> conn \<times> metrics \<times> run_status" where
  "connect_failed err msg c m =
     (case reply_failure err c of
        (c, WrPending) \<Rightarrow> (c, m, RunReplying)
      | (c, w) \<Rightarrow>
          (let (c, m) = call (OpError (reply_code err)) (c, m)
           in (send_event (EvError (reply_code err) msg) c, m, RunDone)))"

text \<open>After the success reply: register, forward \<open>initial\<close>, relay, unregister.\<close>

definition connect_session ::
  "connect_script \<Rightarrow> config \<Rightarrow> socket_addr \<Rightarrow> string \<Rightarrow> bytes \<Rightarrow> conn \<Rightarrow> metrics
   \<Rightarrow> conn \<times> metrics \<times> run_status" where
  "connect_session sc cfg peer target_str initial c m =
     (let (i, m) = register m peer target_str KindConnect;
          c = noted (OpRegister peer target_str KindConnect) c;
          c = send_event (EvConnect i peer target_str KindConnect) c;
          close = (\<lambda>(c, m).
            let (c, m) = call OpSuccess (c, m);
                (c, m) = call (OpUnregister i) (c, m)
            in (send_event (EvClosed i) c, m, RunDone));
          relay = (\<lambda>(c, m).
            case relay_run (from_millis (tcp_idle_ms (timeouts cfg))) i (sc_relay sc)
                   (relay_init (sc_relay_at sc) m) of
              (r, ended) \<Rightarrow>
                (let c = fold noted (rl_calls r) c
                 in if ended then close (c, rl_metrics r) else (c, rl_metrics r, RunRelaying i)))
      in if initial = [] then relay (c, m)
         else
           (case sc_initial sc of
              WrDone \<Rightarrow> relay (call (OpUp i (of_nat (length initial))) (c, m))
            | WrFailed e \<Rightarrow> close (c, m)
            | WrPending \<Rightarrow> (c, m, RunInitial i)))"

definition connect_run ::
  "connect_script \<Rightarrow> config \<Rightarrow> socket_addr \<Rightarrow> address \<Rightarrow> bytes \<Rightarrow> conn \<Rightarrow> metrics
   \<Rightarrow> conn \<times> metrics \<times> run_status" where
  "connect_run sc cfg peer target initial c m =
     (let target_str = address_to_string target;
          deadline = sc_started sc + from_millis (connect_ms (timeouts cfg))
      in case snd (establish target cfg (sc_started sc) deadline (sc_direct sc) (sc_events sc)) of
           Waiting \<Rightarrow> (c, m, RunEstablishing)
         | Failed e \<Rightarrow>
             (case establish_failure target_str (as_millis (sc_failed_at sc - sc_started sc)) e of
                (err, msg) \<Rightarrow> connect_failed err msg c m)
         | Connected u \<Rightarrow>
             (let bind = (case up_local u of Some a \<Rightarrow> addr_from_socket a | None \<Rightarrow> V4 ipv4_unspecified 0)
              in case write_all (encode_reply REP_SUCCEEDED bind []) c of
                   (c, WrFailed e) \<Rightarrow> (c, m, RunDone)
                 | (c, WrPending) \<Rightarrow> (c, m, RunReplying)
                 | (c, WrDone) \<Rightarrow> connect_session sc cfg peer target_str initial c m))"

section \<open>Facts\<close>

lemma register_eq:
  "register m src target kind = (next_id m, snd (register m src target kind))"
  by (simp add: register_def Let_def)

lemma register_counters:
  "successes (snd (register m s t k)) = successes m" "failures (snd (register m s t k)) = failures m"
  "bytes_up (snd (register m s t k)) = bytes_up m" "bytes_down (snd (register m s t k)) = bytes_down m"
  "total_conns (snd (register m s t k)) = total_conns m + 1"
  by (simp_all add: register_def Let_def)

lemma session_relay_metrics:
  assumes "metrics_ok m" and "relay_run idle i hs (relay_init t m) = (r, b)"
  shows "live_ids (rl_metrics r) = live_ids m" "metrics_ok (rl_metrics r)"
    "successes (rl_metrics r) = successes m"
  using relay_run_ok [OF relay_ok_init assms(2)] assms(1) by (auto simp: relay_ok_def)

lemma add_up_successes [simp]: "successes (add_up m i n) = successes m"
  by (simp add: add_up_def Let_def split: option.split)

text \<open>A session that ended closed what it opened; one that has not ended is registered.\<close>

lemma session_closed:
  assumes ok: "metrics_ok m" and left: "ids_left m"
    and run: "connect_session sc cfg peer tgt initial c m = (c', m', RunDone)"
  shows "live_ids m' = live_ids m \<and> metrics_ok m' \<and> successes m' = successes m + 1 \<and>
    evs c' = evs c @ [EvConnect (next_id m) peer tgt KindConnect, EvClosed (next_id m)] \<and>
    tx c' = tx c"
proof -
  let ?i = "next_id m" and ?m1 = "snd (register m peer tgt KindConnect)"
  have reg: "(case (peer, tgt, KindConnect) of (s, t, k) \<Rightarrow> \<lambda>m. register m s t k) m = (?i, ?m1)"
    using register_eq [of m peer tgt KindConnect] by simp
  have ok1: "metrics_ok ?m1" using ok left by (rule metrics_ok_register)
  obtain m2 where m2: "m' = unregister (record_success m2) ?i" "live_ids m2 = live_ids ?m1"
    "metrics_ok m2" "successes m2 = successes ?m1"
    "evs c' = evs c @ [EvConnect ?i peer tgt KindConnect, EvClosed ?i]" "tx c' = tx c"
    using run session_relay_metrics [of ?m1] session_relay_metrics [of "add_up ?m1 ?i (of_nat (length initial))"]
      ok1 metrics_ok_add(1) [OF ok1]
    unfolding connect_session_def
    by (subst (asm) register_eq)
      (auto simp: Let_def split: if_splits prod.splits write_outcome.splits)
  have "live_ids (unregister (record_success m2) ?i) = live_ids m \<and> metrics_ok (unregister (record_success m2) ?i)"
    using conns.bracket [OF ok left reg, of "record_success m2"] m2(2,3)
    by (simp add: metrics_ok_record)
  moreover have "successes m' = successes m + 1"
    by (simp add: m2(1,4) unregister_def record_success_def register_counters)
  ultimately show ?thesis by (simp add: m2(1,5,6))
qed

text \<open>A request whose target cannot be reached.\<close>

lemma connect_failed_run:
  assumes "wr c = []"
    and "snd (establish target cfg (sc_started sc)
           (sc_started sc + from_millis (connect_ms (timeouts cfg))) (sc_direct sc) (sc_events sc)) = Failed e"
  shows "\<exists>err msg c'.
    connect_run sc cfg peer target initial c m = (c', record_error m (reply_code err), RunDone) \<and>
    tx c' = tx c @ [5, reply_code err, 0, 1, 0, 0, 0, 0, 0, 0] \<and>
    evs c' = evs c @ [EvError (reply_code err) msg] \<and>
    (case e of
       EstDns d \<Rightarrow> err = HostUnreachable
     | EstBlocked \<Rightarrow> err = NotAllowed
     | EstDial (IoError k text) \<Rightarrow> err = from_io k)"
proof -
  obtain err msg where f: "establish_failure (address_to_string target)
      (as_millis (sc_failed_at sc - sc_started sc)) e = (err, msg)" by fastforce
  have "connect_run sc cfg peer target initial c m =
      (send_event (EvError (reply_code err) msg)
         (noted (OpError (reply_code err)) (c\<lparr>tx := tx c @ [5, reply_code err, 0, 1, 0, 0, 0, 0, 0, 0]\<rparr>)),
       record_error m (reply_code err), RunDone)"
    using assms(2) f
    by (simp add: connect_run_def connect_failed_def reply_failure_def failure_bytes write_all_ok [OF assms(1)] Let_def)
  moreover have "case e of EstDns d \<Rightarrow> err = HostUnreachable | EstBlocked \<Rightarrow> err = NotAllowed
     | EstDial (IoError k text) \<Rightarrow> err = from_io k"
    using f by (cases "(address_to_string target, as_millis (sc_failed_at sc - sc_started sc), e)"
        rule: establish_failure.cases) auto
  ultimately show ?thesis by (intro exI [of _ err] exI [of _ msg]) simp
qed

lemma connect_run_connected:
  assumes "snd (establish target cfg (sc_started sc)
      (sc_started sc + from_millis (connect_ms (timeouts cfg))) (sc_direct sc) (sc_events sc)) = Connected u"
    and "wr c = []"
  shows "connect_run sc cfg peer target initial c m =
    connect_session sc cfg peer (address_to_string target) initial
      (c\<lparr>tx := tx c @ encode_reply REP_SUCCEEDED
         (case up_local u of Some a \<Rightarrow> addr_from_socket a | None \<Rightarrow> V4 ipv4_unspecified 0) []\<rparr>) m"
  using assms(1) by (simp add: connect_run_def write_all_ok [OF assms(2)])

section \<open>Properties\<close>

text \<open>C22: a CONNECT request that cannot be established gets exactly one failure reply, and the
  error counter and the error event carry the same code: 0x04 when the name does not
  resolve, 0x02 when the egress policy forbids the destination, and the code of the I/O
  error when dialling failed; nothing is registered and no session event is sent.\<close>

theorem connect_failure_reported:
  assumes "wr c = []"
    and "snd (establish target cfg (sc_started sc)
           (sc_started sc + from_millis (connect_ms (timeouts cfg))) (sc_direct sc) (sc_events sc)) = Failed e"
  shows "\<exists>err msg c'.
    connect_run sc cfg peer target initial c m = (c', record_error m (reply_code err), RunDone) \<and>
    tx c' = tx c @ [5, reply_code err, 0, 1, 0, 0, 0, 0, 0, 0] \<and>
    evs c' = evs c @ [EvError (reply_code err) msg] \<and>
    (case e of
       EstDns d \<Rightarrow> err = HostUnreachable
     | EstBlocked \<Rightarrow> err = NotAllowed
     | EstDial (IoError k text) \<Rightarrow> err = from_io k)"
  using assms by (rule connect_failed_run)

definition blocked_script :: connect_script where
  "blocked_script =
     \<lparr>sc_started = 0, sc_direct = None, sc_events = [], sc_failed_at = 0, sc_initial = WrDone,
      sc_relay_at = 0, sc_relay = []\<rparr>"

definition idle_conn :: conn where
  "idle_conn = \<lparr>rx = [], tx = [], wr = [], evs = [], journal = []\<rparr>"

theorem connect_failure_reported_witness:
  "\<exists>c' m'. connect_run blocked_script default_config (SockV4 (Ipv4 10 0 0 7) 4000)
       (V4 (Ipv4 0 0 0 0) 80) [] idle_conn metrics_new = (c', m', RunDone) \<and>
     tx c' = [5, 2, 0, 1, 0, 0, 0, 0, 0, 0]"
proof -
  have e: "snd (establish (V4 (Ipv4 0 0 0 0) 80) default_config (sc_started blocked_script)
      (sc_started blocked_script + from_millis (connect_ms (timeouts default_config)))
      (sc_direct blocked_script) (sc_events blocked_script)) = Failed EstBlocked"
    by (simp add: blocked_v4_zero)
  have w: "wr idle_conn = []" and t: "tx idle_conn = []" by (simp_all add: idle_conn_def)
  from connect_failure_reported [OF w e, of "SockV4 (Ipv4 10 0 0 7) 4000" "[]" metrics_new]
  show ?thesis by (auto simp: t)
qed

text \<open>A CONNECT session that is established and has ended, by both sides closing, an idle or
  write timeout, a failed write of the pipelined bytes, or server shutdown, leaves the
  registry of live connections as it found it, counts one success, has sent its open event
  and then its close event with the same fresh id, and its success reply names the
  upstream's local address.\<close>

theorem connect_session_bracketed:
  assumes "metrics_ok m" and "ids_left m" and "wr c = []"
    and "snd (establish target cfg (sc_started sc)
           (sc_started sc + from_millis (connect_ms (timeouts cfg))) (sc_direct sc) (sc_events sc)) = Connected u"
    and "connect_run sc cfg peer target initial c m = (c', m', RunDone)"
  shows "live_ids m' = live_ids m \<and> metrics_ok m' \<and> successes m' = successes m + 1 \<and>
    next_id m \<notin> live_ids m \<and>
    evs c' = evs c @ [EvConnect (next_id m) peer (address_to_string target) KindConnect, EvClosed (next_id m)] \<and>
    (\<exists>reply. tx c' = tx c @ reply \<and> parse_reply reply =
       Some (REP_SUCCEEDED, case up_local u of Some a \<Rightarrow> addr_from_socket a | None \<Rightarrow> V4 ipv4_unspecified 0,
             length reply))"
proof -
  let ?bind = "case up_local u of Some a \<Rightarrow> addr_from_socket a | None \<Rightarrow> V4 ipv4_unspecified 0"
  let ?c = "c\<lparr>tx := tx c @ encode_reply REP_SUCCEEDED ?bind []\<rparr>"
  have "connect_session sc cfg peer (address_to_string target) initial ?c m = (c', m', RunDone)"
    using assms(5) by (simp only: connect_run_connected [OF assms(4,3)])
  note s = session_closed [OF assms(1,2) this]
  have "wf_address ?bind" by (simp split: option.split)
  note reads_reply [OF this, of REP_SUCCEEDED]
  moreover have "next_id m \<notin> live_ids m" using next_id_unused [OF assms(1)] by (simp add: live_ids_def)
  ultimately show ?thesis using s by simp
qed

definition shutdown_script :: connect_script where
  "shutdown_script =
     \<lparr>sc_started = 0, sc_direct = Some (Inr \<lparr>up_local = None\<rparr>), sc_events = [], sc_failed_at = 0,
      sc_initial = WrDone, sc_relay_at = 0, sc_relay = [(5, ShutdownSignal)]\<rparr>"

lemma shutdown_session_ends:
  "snd (snd (connect_session shutdown_script cfg peer target initial c m)) = RunDone"
  by (simp add: connect_session_def shutdown_script_def register_def Let_def relay_done_def
      relay_init_def leg_init_def)

theorem connect_session_bracketed_witness:
  "\<exists>c' m'. connect_run shutdown_script default_config (SockV4 (Ipv4 10 0 0 7) 4000)
       (V4 (Ipv4 1 1 1 1) 80) [] idle_conn metrics_new = (c', m', RunDone) \<and>
     successes m' = 1 \<and> live_ids m' = {}"
proof -
  let ?run = "connect_run shutdown_script default_config (SockV4 (Ipv4 10 0 0 7) 4000)
       (V4 (Ipv4 1 1 1 1) 80) [] idle_conn metrics_new"
  have e: "snd (establish (V4 (Ipv4 1 1 1 1) 80) default_config (sc_started shutdown_script)
      (sc_started shutdown_script + from_millis (connect_ms (timeouts default_config)))
      (sc_direct shutdown_script) (sc_events shutdown_script)) = Connected \<lparr>up_local = None\<rparr>"
    by (simp add: shutdown_script_def dial_one_def v4_blocked_def)
  have w: "wr idle_conn = []" and t: "tx idle_conn = []" by (simp_all add: idle_conn_def)
  have left: "ids_left metrics_new" by (simp add: ids_left_def metrics_new_def)
  have "snd (snd ?run) = RunDone"
    by (simp only: connect_run_connected [OF e w] shutdown_session_ends)
  then obtain c' m' where run: "?run = (c', m', RunDone)" by (metis prod.collapse)
  from connect_session_bracketed [OF metrics_ok_new(1) left w e run] run show ?thesis
    by (simp add: metrics_new_def live_ids_def)
qed

end
