(* ===== verification/Udp_Codec.thy ===== *)
theory Udp_Codec
  imports Address
begin

text \<open>
  \<open>src/protocol/udp.rs\<close>: the SOCKS5 UDP header \<open>RSV RSV FRAG ATYP DST.ADDR DST.PORT DATA\<close>.
  \<open>decap_ref\<close> borrows the payload from the buffer and \<open>decap\<close> copies it; as values the two
  payloads are the same, so both are modelled over byte lists.
\<close>

section \<open>Model\<close>

record udp_datagram =
  frag :: u8
  dg_address :: address
  dg_data :: bytes

datatype udp_error =
    UdpTruncated
  | UdpAddr addr_error

definition MIN_HEADER :: nat where "MIN_HEADER = 4"

definition decap_ref :: "bytes \<Rightarrow> (udp_datagram, udp_error) result" where
  "decap_ref buf =
     (if length buf < MIN_HEADER then Inl UdpTruncated
      else
        (let f = buf ! 2
         in case address_decode (drop 3 buf) of
              Inl e \<Rightarrow> Inl (UdpAddr e)
            | Inr (a, consumed) \<Rightarrow>
                Inr \<lparr>frag = f, dg_address = a, dg_data = drop (3 + consumed) buf\<rparr>))"

definition decap :: "bytes \<Rightarrow> (udp_datagram, udp_error) result" where
  "decap buf =
     (case decap_ref buf of
        Inl e \<Rightarrow> Inl e
      | Inr d \<Rightarrow> Inr \<lparr>frag = frag d, dg_address = dg_address d, dg_data = dg_data d\<rparr>)"

definition encap :: "address \<Rightarrow> bytes \<Rightarrow> bytes \<Rightarrow> bytes" where
  "encap a data out = address_encode a (out @ [0x00] @ [0x00] @ [0x00]) @ data"

section \<open>Facts\<close>

lemma encap_bytes: "encap a data out = out @ [0, 0, 0] @ address_bytes a @ data"
  by (simp add: encap_def address_encode_append)

lemma decap_ref_header:
  assumes "wf_address a"
  shows "decap_ref ([r0, r1, f] @ address_bytes a @ data) =
    Inr \<lparr>frag = f, dg_address = a, dg_data = data\<rparr>"
  using addr.dec_enc [OF assms, of data] by (simp add: decap_ref_def MIN_HEADER_def)

lemma decap_ref_inv:
  assumes "decap_ref bs = Inr d"
  shows "wf_address (dg_address d) \<and>
    bs = [bs ! 0, bs ! 1, frag d] @ address_bytes (dg_address d) @ dg_data d"
proof -
  from assms have "3 < length bs" by (auto simp: decap_ref_def MIN_HEADER_def split: if_splits)
  then obtain r0 r1 f t where bs: "bs = r0 # r1 # f # t" and "t \<noteq> []"
    by (cases bs; cases "tl bs"; cases "tl (tl bs)") auto
  then have "decap_ref bs = (case address_decode t of Inl e \<Rightarrow> Inl (UdpAddr e)
      | Inr (a, n) \<Rightarrow> Inr \<lparr>frag = f, dg_address = a, dg_data = drop n t\<rparr>)"
    by (cases "address_decode t") (auto simp: decap_ref_def MIN_HEADER_def Suc_le_eq)
  with assms obtain a n where h: "address_decode t = Inr (a, n)"
      and d: "d = \<lparr>frag = f, dg_address = a, dg_data = drop n t\<rparr>"
    by (auto split: sum.splits)
  have "wf_address a" "address_bytes a @ drop n t = t"
    using addr.dec_split [OF h] addr.enc_dec [OF h] by auto
  then show ?thesis by (simp add: bs d)
qed

lemma decap_eq_decap_ref: "decap bs = decap_ref bs"
  by (simp add: decap_def split: sum.split)

section \<open>Properties\<close>

text \<open>C39: a datagram built by \<open>encap\<close> decapsulates to its address and payload with fragment
  zero; conversely, whatever \<open>decap\<close> or \<open>decap_ref\<close> accepts is two reserved bytes, the
  fragment, the encoding of the address, and the payload.\<close>

theorem udp_roundtrip:
  "(wf_address a \<longrightarrow> decap (encap a data []) = Inr \<lparr>frag = 0, dg_address = a, dg_data = data\<rparr>) \<and>
   decap bs = decap_ref bs \<and>
   (decap bs = Inr d \<longrightarrow>
      wf_address (dg_address d) \<and>
      bs = [bs ! 0, bs ! 1, frag d] @ address_encode (dg_address d) [] @ dg_data d)"
  using decap_ref_header [of a 0 0 0 data] decap_ref_inv [of bs d]
  by (simp add: decap_eq_decap_ref encap_bytes address_bytes_def)

theorem udp_roundtrip_witness:
  "decap (encap (V4 (Ipv4 8 8 8 8) 53) [1, 2] []) =
     Inr \<lparr>frag = 0, dg_address = V4 (Ipv4 8 8 8 8) 53, dg_data = [1, 2]\<rparr>"
  using udp_roundtrip [of "V4 (Ipv4 8 8 8 8) 53" "[1, 2]" "[]" "\<lparr>frag = 0, dg_address = V4 (Ipv4 0 0 0 0) 0, dg_data = []\<rparr>"]
  by simp

end
