(* ===== verification/Udp_Relay.thy ===== *)
theory Udp_Relay
  imports Connect Udp_Codec
begin

text \<open>
  \<open>src/server/udp.rs\<close>: binding the relay socket, the address to advertise, and the relay
  loop. One pass of the loop handles one branch of \<open>select!\<close>: a datagram with what the lookup
  and the send it may need return, a read on the control connection, or a change of the
  shutdown flag. The fields \<open>out_log\<close> and \<open>client_log\<close> record the datagrams sent, for the
  statements; the code does not read them.
\<close>

section \<open>Binding the relay socket\<close>

text \<open>The scan over the port range: \<open>bind_udp\<close> is the operating system's answer for a port. The
  second component is the ports \<open>bind\<close> was called on, in order, for the statements.\<close>

fun bind_scan ::
  "(u16 \<Rightarrow> ('s, io_error) result) \<Rightarrow> u16 \<Rightarrow> u32 \<Rightarrow> u32 \<Rightarrow> u32 list \<Rightarrow> ('s, io_error) result \<times> u16 list"
where
  "bind_scan bind_udp start base width [] =
     (Inl (IoError IoAddrInUse ''udp_port_range exhausted''), [])"
| "bind_scan bind_udp start base width (i # is) =
     (let port = start + ucast ((base + i) mod width)
      in case bind_udp port of
           Inr sock \<Rightarrow> (Inr sock, [port])
         | Inl (IoError k text) \<Rightarrow>
             if k = IoAddrInUse \<or> k = IoPermissionDenied
             then (case bind_scan bind_udp start base width is of (res, tried) \<Rightarrow> (res, port # tried))
             else (Inl (IoError k text), [port]))"

text \<open>\<open>cursor\<close> is \<open>PORT_CURSOR\<close>; the result has its new value, and the ports tried.\<close>

definition bind_with_retry ::
  "(u16 \<Rightarrow> ('s, io_error) result) \<Rightarrow> port_range option \<Rightarrow> u32 \<Rightarrow> ('s, io_error) result \<times> u32 \<times> u16 list" where
  "bind_with_retry bind_udp rng cursor =
     (case rng of
        None \<Rightarrow> (bind_udp 0, cursor, [0])
      | Some r \<Rightarrow>
          (let width = ucast (range_end r - range_start r) + 1
           in case bind_scan bind_udp (range_start r) cursor width (map of_nat [0..<unat width]) of
                (res, tried) \<Rightarrow> (res, cursor + 1, tried)))"

text \<open>\<open>answer\<close> is what the lookup of the configured domain returns.\<close>

definition resolve_advertise_ip ::
  "config \<Rightarrow> ip_addr \<Rightarrow> (socket_addr list, resolve_error) result \<Rightarrow> (ip_addr option, string) result" where
  "resolve_advertise_ip cfg bind_ip answer =
     (case advertise (udp cfg) of
        None \<Rightarrow> Inr None
      | Some (AdvertiseIp ip) \<Rightarrow> if ip_is_unspecified ip then Inr None else Inr (Some ip)
      | Some (AdvertiseDomain host) \<Rightarrow>
          (case answer of
             Inl e \<Rightarrow> Inl (show_resolve_error e)
           | Inr addresses \<Rightarrow>
               (case find (\<lambda>ip. \<not> ip_is_unspecified ip \<and> is_ipv4 ip = is_ipv4 bind_ip)
                       (map sock_ip addresses) of
                  Some ip \<Rightarrow> Inr (Some ip)
                | None \<Rightarrow> Inl (host @ '': no addresses matching the UDP socket family''))))"

section \<open>The relay loop\<close>

record assoc =
  client_udp_addr :: "socket_addr option"
  known_targets :: "socket_addr set"
  known_order :: "socket_addr list"
  last_dns_error :: "instant option"
  window_start :: instant
  window_count :: u32
  as_metrics :: metrics
  as_evs :: "event list"
  as_journal :: "act list" \<comment> \<open>the calls and sends in order, for the statements\<close>
  out_log :: "(instant \<times> instant \<times> socket_addr \<times> bytes) list"
    \<comment> \<open>time of the rate check, its window, target, payload\<close>
  client_log :: "(socket_addr \<times> bytes) list"

definition assoc_init :: "instant \<Rightarrow> metrics \<Rightarrow> assoc" where
  "assoc_init now m =
     \<lparr>client_udp_addr = None, known_targets = {}, known_order = [], last_dns_error = None,
      window_start = now, window_count = 0, as_metrics = m, as_evs = [], as_journal = [], out_log = [], client_log = []\<rparr>"

definition UDP_BUF :: nat where "UDP_BUF = 65536"

definition max_targets :: "config \<Rightarrow> nat" where
  "max_targets cfg = max (udp_max_targets (limits cfg)) 1"

text \<open>The rate check: the window may be renewed; the flag says whether to go on.\<close>

definition rate_gate :: "u32 option \<Rightarrow> instant \<Rightarrow> assoc \<Rightarrow> assoc \<times> bool" where
  "rate_gate rate_pps now s =
     (case rate_pps of
        None \<Rightarrow> (s, True)
      | Some limit \<Rightarrow>
          (let s = (if from_secs 1 \<le> now - window_start s
                    then s\<lparr>window_start := now, window_count := 0\<rparr> else s)
           in (s, \<not> limit \<le> window_count s)))"

datatype target_choice = Target socket_addr | NoTarget | TargetError resolve_error string u16

fun choose_target ::
  "config \<Rightarrow> ip_addr \<Rightarrow> address \<Rightarrow> (socket_addr list, resolve_error) result \<Rightarrow> target_choice"
where
  "choose_target cfg bind_ip (V4 ip port) answer = Target (sock_new (IpV4 ip) port)"
| "choose_target cfg bind_ip (V6 ip port) answer = Target (sock_new (IpV6 ip) port)"
| "choose_target cfg bind_ip (Domain host port) answer =
     (case answer of
        Inr addresses \<Rightarrow>
          (case find (\<lambda>a. is_ipv4 (sock_ip a) = is_ipv4 bind_ip \<and>
                          \<not> is_blocked (cfg_egress cfg) (sock_ip a)) addresses of
             Some a \<Rightarrow> Target a
           | None \<Rightarrow> NoTarget)
      | Inl e \<Rightarrow> TargetError e host port)"

text \<open>The event of a failed lookup, at most one a second.\<close>

definition dns_error_event :: "resolve_error \<Rightarrow> string \<Rightarrow> u16 \<Rightarrow> event" where
  "dns_error_event e host port =
     EvError (reply_code HostUnreachable)
       (''could not resolve UDP target '' @ host @ '':'' @ show_nat (unat port) @ '': '' @ show_resolve_error e)"

definition report_dns_error :: "resolve_error \<Rightarrow> string \<Rightarrow> u16 \<Rightarrow> instant \<Rightarrow> assoc \<Rightarrow> assoc" where
  "report_dns_error e host port now s =
     (if (case last_dns_error s of None \<Rightarrow> True | Some at \<Rightarrow> from_secs 1 \<le> now - at) then
        s\<lparr>as_evs := as_evs s @ [dns_error_event e host port],
          as_journal := as_journal s @ [Told (dns_error_event e host port)], last_dns_error := Some now\<rparr>
      else s)"

text \<open>Remembering a target, with the oldest evicted over the cap.\<close>

definition track_target :: "nat \<Rightarrow> socket_addr \<Rightarrow> assoc \<Rightarrow> assoc" where
  "track_target cap target s =
     (if target \<notin> known_targets s then
        (let s = s\<lparr>known_targets := insert target (known_targets s),
                   known_order := known_order s @ [target]\<rparr>
         in if cap < length (known_order s) then
              (case known_order s of
                 old # rest \<Rightarrow> s\<lparr>known_order := rest, known_targets := known_targets s - {old}\<rparr>
               | [] \<Rightarrow> s)
            else s)
      else s)"

definition assoc_call :: "metrics_op \<Rightarrow> assoc \<Rightarrow> assoc" where
  "assoc_call op s = s\<lparr>as_metrics := metrics_step op (as_metrics s), as_journal := as_journal s @ [Called op]\<rparr>"

lemma assoc_call_fields [simp]:
  "as_metrics (assoc_call op s) = metrics_step op (as_metrics s)" "as_evs (assoc_call op s) = as_evs s"
  "as_journal (assoc_call op s) = as_journal s @ [Called op]" "client_udp_addr (assoc_call op s) = client_udp_addr s"
  "known_targets (assoc_call op s) = known_targets s" "known_order (assoc_call op s) = known_order s"
  "last_dns_error (assoc_call op s) = last_dns_error s" "window_start (assoc_call op s) = window_start s"
  "window_count (assoc_call op s) = window_count s" "out_log (assoc_call op s) = out_log s"
  "client_log (assoc_call op s) = client_log s"
  by (simp_all add: assoc_call_def)

definition send_target :: "config \<Rightarrow> u64 \<Rightarrow> instant \<Rightarrow> bool \<Rightarrow> socket_addr \<Rightarrow> bytes \<Rightarrow> assoc \<Rightarrow> assoc" where
  "send_target cfg i now sent target data s =
     (if is_blocked (cfg_egress cfg) (sock_ip target) then s
      else if sent then
        (let s = s\<lparr>out_log := out_log s @ [(now, window_start s, target, data)]\<rparr>;
             s = (if udp_rate_pps (limits cfg) \<noteq> None then s\<lparr>window_count := window_count s + 1\<rparr> else s);
             s = track_target (max_targets cfg) target s
         in assoc_call (OpUp i (of_nat (length data))) s)
      else s)"

definition from_client ::
  "config \<Rightarrow> ip_addr \<Rightarrow> u64 \<Rightarrow> instant \<Rightarrow> bytes \<Rightarrow> socket_addr
   \<Rightarrow> (socket_addr list, resolve_error) result \<Rightarrow> instant \<Rightarrow> bool \<Rightarrow> assoc \<Rightarrow> assoc" where
  "from_client cfg bind_ip i now buf src answer answered_at sent s =
     (let s = (if client_udp_addr s = None then s\<lparr>client_udp_addr := Some src\<rparr> else s)
      in case decap_ref buf of
           Inl e \<Rightarrow> s
         | Inr dg \<Rightarrow>
             if frag dg \<noteq> 0 then s
             else
               (case rate_gate (udp_rate_pps (limits cfg)) now s of
                  (s, False) \<Rightarrow> s
                | (s, True) \<Rightarrow>
                    (case choose_target cfg bind_ip (dg_address dg) answer of
                       NoTarget \<Rightarrow> s
                     | TargetError e host port \<Rightarrow> report_dns_error e host port answered_at s
                     | Target target \<Rightarrow> send_target cfg i now sent target (dg_data dg) s)))"

definition from_target :: "u64 \<Rightarrow> bytes \<Rightarrow> socket_addr \<Rightarrow> assoc \<Rightarrow> assoc" where
  "from_target i buf src s =
     (case client_udp_addr s of
        None \<Rightarrow> s
      | Some dst \<Rightarrow>
          assoc_call (OpDown i (of_nat (length buf)))
            (s\<lparr>client_log := client_log s @ [(dst, encap (addr_from_socket src) buf [])]\<rparr>))"

definition is_client :: "ip_addr \<Rightarrow> socket_addr \<Rightarrow> assoc \<Rightarrow> bool" where
  "is_client client_ip src s =
     (case client_udp_addr s of Some a \<Rightarrow> src = a | None \<Rightarrow> sock_ip src = client_ip)"

definition on_datagram ::
  "config \<Rightarrow> ip_addr \<Rightarrow> ip_addr \<Rightarrow> u64 \<Rightarrow> instant \<Rightarrow> bytes \<Rightarrow> socket_addr
   \<Rightarrow> (socket_addr list, resolve_error) result \<Rightarrow> instant \<Rightarrow> bool \<Rightarrow> assoc \<Rightarrow> assoc" where
  "on_datagram cfg bind_ip client_ip i now buf src answer answered_at sent s =
     (if is_client client_ip src s
      then from_client cfg bind_ip i now buf src answer answered_at sent s
      else if src \<in> known_targets s then from_target i buf src s
      else s)"

datatype assoc_event =
    RecvTimeout
  | RecvError
  | RecvFrom bytes socket_addr "(socket_addr list, resolve_error) result" instant bool
  | ControlClosed \<comment> \<open>a read of 0 bytes or an error\<close>
  | ControlData
  | ShutdownChanged "bool option" \<comment> \<open>\<open>None\<close>: the sender is gone\<close>

text \<open>One pass of the loop; the flag is whether it goes on.\<close>

fun assoc_step ::
  "config \<Rightarrow> ip_addr \<Rightarrow> ip_addr \<Rightarrow> u64 \<Rightarrow> instant \<Rightarrow> assoc_event \<Rightarrow> assoc \<Rightarrow> assoc \<times> bool"
where
  "assoc_step cfg bind_ip client_ip i now RecvTimeout s = (s, False)"
| "assoc_step cfg bind_ip client_ip i now RecvError s = (s, False)"
| "assoc_step cfg bind_ip client_ip i now (RecvFrom buf src answer answered_at sent) s =
     (on_datagram cfg bind_ip client_ip i now (take UDP_BUF buf) src answer answered_at sent s, True)"
| "assoc_step cfg bind_ip client_ip i now ControlClosed s = (s, False)"
| "assoc_step cfg bind_ip client_ip i now ControlData s = (s, True)"
| "assoc_step cfg bind_ip client_ip i now (ShutdownChanged v) s = (s, v = Some False)"

fun assoc_loop ::
  "config \<Rightarrow> ip_addr \<Rightarrow> ip_addr \<Rightarrow> u64 \<Rightarrow> (instant \<times> assoc_event) list \<Rightarrow> assoc \<Rightarrow> assoc \<times> bool"
where
  "assoc_loop cfg bind_ip client_ip i [] s = (s, True)"
| "assoc_loop cfg bind_ip client_ip i ((t, ev) # more_evs) s =
     (case assoc_step cfg bind_ip client_ip i t ev s of
        (s, True) \<Rightarrow> assoc_loop cfg bind_ip client_ip i more_evs s
      | (s, False) \<Rightarrow> (s, False))"

section \<open>The handler\<close>

record udp_script =
  us_local :: "socket_addr option" \<comment> \<open>\<open>control.local_addr()\<close>\<close>
  us_bind :: "u16 \<Rightarrow> (socket_addr option, io_error) result" \<comment> \<open>a bound socket, as its \<open>local_addr()\<close>\<close>
  us_advertise :: "(socket_addr list, resolve_error) result"
  us_started :: instant
  us_events :: "(instant \<times> assoc_event) list"

definition udp_failed ::
  "socks5_error \<Rightarrow> string \<Rightarrow> metrics_op list \<Rightarrow> conn \<Rightarrow> metrics \<Rightarrow> conn \<times> metrics \<times> run_status" where
  "udp_failed err msg ops c m =
     (case reply_failure err c of
        (c, WrPending) \<Rightarrow> (c, m, RunReplying)
      | (c, w) \<Rightarrow>
          (let (c, m) = fold call ops (c, m)
           in (send_event (EvError (reply_code err) msg) c, m, RunDone)))"

definition udp_session ::
  "udp_script \<Rightarrow> config \<Rightarrow> socket_addr \<Rightarrow> ip_addr \<Rightarrow> conn \<Rightarrow> metrics \<Rightarrow> conn \<times> metrics \<times> run_status" where
  "udp_session us cfg peer bind_ip c m =
     (let (i, m) = register m peer ''udp-associate'' KindUdp;
          c = noted (OpRegister peer ''udp-associate'' KindUdp) c;
          c = send_event (EvConnect i peer ''udp-associate'' KindUdp) c
      in case assoc_loop cfg bind_ip (to_canonical (sock_ip peer)) i (us_events us)
                (assoc_init (us_started us) m) of
           (s, go) \<Rightarrow>
             (let c = c\<lparr>evs := evs c @ as_evs s, journal := journal c @ as_journal s\<rparr>
              in if go then (c, as_metrics s, RunRelaying i)
                 else
                   (let (c, m) = call OpSuccess (c, as_metrics s);
                        (c, m) = call (OpUnregister i) (c, m)
                    in (send_event (EvClosed i) c, m, RunDone))))"

definition udp_run ::
  "udp_script \<Rightarrow> config \<Rightarrow> socket_addr \<Rightarrow> u32 \<Rightarrow> conn \<Rightarrow> metrics
   \<Rightarrow> (conn \<times> metrics \<times> run_status) \<times> u32" where
  "udp_run us cfg peer cursor c m =
     (case us_local us of
        None \<Rightarrow> ((c, m, RunDone), cursor)
      | Some local \<Rightarrow>
          (let bind_ip = to_canonical (sock_ip local);
               (bound, cursor, tried) = bind_with_retry (us_bind us) (port_range (udp cfg)) cursor
           in (case bound of
                 Inl e \<Rightarrow>
                   udp_failed General ''udp relay bind failed (port range exhausted?)'' [] c m
               | Inr None \<Rightarrow> (c, m, RunDone)
               | Inr (Some bnd_local) \<Rightarrow>
                   (case resolve_advertise_ip cfg (sock_ip bnd_local) (us_advertise us) of
                      Inl e \<Rightarrow>
                        udp_failed HostUnreachable (''could not resolve UDP advertise host: '' @ e)
                          [OpError (reply_code HostUnreachable)] c m
                    | Inr adv \<Rightarrow>
                        (let advertise_ip = (case adv of Some ip \<Rightarrow> ip | None \<Rightarrow> sock_ip bnd_local);
                             bnd_address = addr_from_socket (sock_new advertise_ip (sock_port bnd_local))
                         in case write_all (encode_reply REP_SUCCEEDED bnd_address []) c of
                              (c, WrFailed e) \<Rightarrow> (c, m, RunDone)
                            | (c, WrPending) \<Rightarrow> (c, m, RunReplying)
                            | (c, WrDone) \<Rightarrow> udp_session us cfg peer bind_ip c m)), cursor)))"

section \<open>The port scan\<close>

text \<open>The ports the scan tries, in order.\<close>

definition scan_ports :: "port_range \<Rightarrow> u32 \<Rightarrow> u16 list" where
  "scan_ports r base =
     (let width = ucast (range_end r - range_start r) + 1
      in map (\<lambda>i. range_start r + ucast ((base + of_nat i) mod (width :: u32))) [0..<unat width])"

definition retriable :: "('s, io_error) result \<Rightarrow> bool" where
  "retriable res \<longleftrightarrow> (\<exists>text. res = Inl (IoError IoAddrInUse text) \<or> res = Inl (IoError IoPermissionDenied text))"

text \<open>The calls of a scan over a list of ports, and the first answer that does not say to try the
  next one.\<close>

definition tries :: "(u16 \<Rightarrow> bool) \<Rightarrow> u16 list \<Rightarrow> u16 list" where
  "tries again ps = takeWhile again ps @ take 1 (dropWhile again ps)"

lemma tries_Cons: "tries again (p # ps) = p # (if again p then tries again ps else [])"
  by (simp add: tries_def)

lemma tries_prefix: "tries again ps = take (length (tries again ps)) ps"
  by (induction ps) (simp_all add: tries_Cons, simp add: tries_def)

lemma tries_again: "p \<in> set (butlast (tries again ps)) \<Longrightarrow> again p"
  by (induction ps) (auto simp: tries_Cons split: if_splits, simp add: tries_def)

lemma tries_end:
  "if \<forall>p \<in> set ps. again p then tries again ps = ps \<and> find (\<lambda>p. \<not> again p) ps = None
   else tries again ps \<noteq> [] \<and> \<not> again (last (tries again ps)) \<and>
     find (\<lambda>p. \<not> again p) ps = Some (last (tries again ps))"
  by (induction ps) (auto simp: tries_Cons split: if_splits, simp_all add: tries_def)

lemma bind_scan_tries:
  "bind_scan bind_udp start base width is =
     (let ps = map (\<lambda>i. start + ucast ((base + i) mod width)) is
      in (case find (\<lambda>p. \<not> retriable (bind_udp p)) ps of
            Some p \<Rightarrow> bind_udp p
          | None \<Rightarrow> Inl (IoError IoAddrInUse ''udp_port_range exhausted''),
          tries (\<lambda>p. retriable (bind_udp p)) ps))"
proof (induction "is")
  case (Cons i "is")
  show ?case
  proof (cases "bind_udp (start + ucast ((base + i) mod width))")
    case (Inl e)
    then show ?thesis using Cons by (cases e) (auto simp: Let_def retriable_def tries_Cons split: prod.split)
  next
    case (Inr v)
    then show ?thesis by (simp add: Let_def retriable_def tries_Cons)
  qed
qed (simp add: tries_def)

lemma bind_with_retry_tries:
  "bind_with_retry bind_udp (Some r) cursor =
     (case find (\<lambda>p. \<not> retriable (bind_udp p)) (scan_ports r cursor) of
        Some p \<Rightarrow> bind_udp p
      | None \<Rightarrow> Inl (IoError IoAddrInUse ''udp_port_range exhausted''),
      cursor + 1, tries (\<lambda>p. retriable (bind_udp p)) (scan_ports r cursor))"
  by (simp add: bind_with_retry_def Let_def bind_scan_tries scan_ports_def comp_def del: bind_scan.simps)

lemma range_width:
  assumes "range_start r \<le> range_end r"
  shows "unat (ucast (range_end r - range_start r) + 1 :: u32) = unat (range_end r) - unat (range_start r) + 1"
proof -
  have "unat (range_end r - range_start r) = unat (range_end r) - unat (range_start r)"
    using assms by (simp add: unat_sub)
  moreover have "unat (range_end r) - unat (range_start r) < 65536"
    using unat_u16_less [of "range_end r"] by linarith
  moreover from this have "take_bit 32 (unat (range_end r) - unat (range_start r)) =
      unat (range_end r) - unat (range_start r)" by (simp add: take_bit_nat_eq_self_iff)
  ultimately show ?thesis by (simp add: unat_word_ariths unsigned_ucast_eq)
qed

lemma rotate_inj: "inj_on (\<lambda>i. (b + i) mod w) {0..<w}" for b w :: nat
proof (rule linorder_inj_onI')
  fix i j :: nat
  assume ij: "i \<in> {0..<w}" "j \<in> {0..<w}" "i < j"
  show "(b + i) mod w \<noteq> (b + j) mod w"
  proof
    assume "(b + i) mod w = (b + j) mod w"
    then have "w dvd (b + j) - (b + i)" using ij by (metis mod_eq_dvd_iff_nat nat_add_left_cancel_le less_imp_le)
    then show False using ij by (simp add: nat_dvd_not_less)
  qed
qed

lemma rotate_surj: "(\<lambda>i. (b + i) mod w) ` {0..<w} = {0..<w}" for b w :: nat
  by (rule endo_inj_surj) (auto simp: rotate_inj)

lemma scan_port_value:
  assumes "range_start r \<le> range_end r" and "unat base + i < 2 ^ 32"
    and "w = unat (range_end r) - unat (range_start r) + 1"
  shows "unat (range_start r + ucast ((base + of_nat i) mod (ucast (range_end r - range_start r) + 1 :: u32))) =
    unat (range_start r) + (unat base + i) mod w"
proof -
  let ?width = "ucast (range_end r - range_start r) + 1 :: u32"
  have w: "unat ?width = w" using range_width [OF assms(1)] assms(3) by simp
  have i: "unat (of_nat i :: u32) = i" using assms(2) by (simp add: unat_of_nat)
  have "unat (base + of_nat i) = unat base + i" using assms(2) by (simp add: unat_word_ariths i)
  then have m: "unat ((base + of_nat i) mod ?width) = (unat base + i) mod w" by (simp add: unat_mod_distrib w)
  have lt: "(unat base + i) mod w < w" using assms(3) by simp
  have "w \<le> 65536" using assms(3) unat_u16_less [of "range_end r"] by linarith
  with lt have "unat (ucast ((base + of_nat i) mod ?width) :: u16) = (unat base + i) mod w"
    by (simp add: unsigned_ucast_eq m take_bit_nat_eq_self_iff)
  moreover have "unat (range_start r) + (unat base + i) mod w < 65536"
    using lt assms(1,3) unat_u16_less [of "range_end r"] unfolding word_le_nat_alt by linarith
  ultimately show ?thesis by (simp add: unat_word_ariths)
qed

lemma scan_ports_nth:
  assumes "range_start r \<le> range_end r"
    and "unat base + (unat (range_end r) - unat (range_start r) + 1) \<le> 2 ^ 32" and "k < length (scan_ports r base)"
  shows "unat (scan_ports r base ! k) =
    unat (range_start r) + (unat base + k) mod (unat (range_end r) - unat (range_start r) + 1)"
  using assms range_width [OF assms(1)] scan_port_value [OF assms(1) _ refl, of base k]
  by (simp add: scan_ports_def Let_def del: upt_Suc)

lemma scan_ports_complete:
  assumes "range_start r \<le> range_end r"
    and "unat base + (unat (range_end r) - unat (range_start r) + 1) \<le> 2 ^ 32"
  shows "distinct (scan_ports r base) \<and> set (scan_ports r base) = {p. range_start r \<le> p \<and> p \<le> range_end r}"
proof -
  define w where "w = unat (range_end r) - unat (range_start r) + 1"
  have "length (scan_ports r base) = w" using range_width [OF assms(1)] by (simp add: scan_ports_def Let_def w_def)
  then have vals: "map unat (scan_ports r base) = map (\<lambda>i. unat (range_start r) + (unat base + i) mod w) [0..<w]"
    using scan_ports_nth [OF assms] by (intro nth_equalityI) (simp_all add: w_def del: upt_Suc)
  have d: "distinct (map unat (scan_ports r base))"
  proof -
    have "inj_on (\<lambda>i. unat (range_start r) + (unat base + i) mod w) {0..<w}"
      by (rule inj_onI) (rule inj_onD [OF rotate_inj], rule add_left_imp_eq)
    then show ?thesis unfolding vals distinct_map by simp
  qed
  have "unat ` set (scan_ports r base) = (\<lambda>k. unat (range_start r) + k) ` (\<lambda>i. (unat base + i) mod w) ` {0..<w}"
    using arg_cong [OF vals, of set] by (simp add: image_image)
  also have "\<dots> = {unat (range_start r)..unat (range_end r)}"
    unfolding rotate_surj image_add_atLeastLessThan using assms(1) by (auto simp: w_def word_le_nat_alt)
  finally have img: "unat ` set (scan_ports r base) = {unat (range_start r)..unat (range_end r)}" .
  have "p \<in> set (scan_ports r base) \<longleftrightarrow> unat p \<in> unat ` set (scan_ports r base)" for p
    by (rule inj_image_mem_iff [symmetric]) (auto intro: injI unsigned_word_eqI)
  then have "set (scan_ports r base) = {p. range_start r \<le> p \<and> p \<le> range_end r}"
    unfolding img word_le_nat_alt by (intro set_eqI) simp
  with d show ?thesis by (simp add: distinct_map)
qed

section \<open>Invariants of the relay\<close>

text \<open>The remembered targets, within their cap and consistent.\<close>

definition targets_ok :: "config \<Rightarrow> assoc \<Rightarrow> bool" where
  "targets_ok cfg s \<longleftrightarrow>
     distinct (known_order s) \<and> set (known_order s) = known_targets s \<and>
     length (known_order s) \<le> max_targets cfg"

abbreviation sent_to :: "assoc \<Rightarrow> socket_addr set" where
  "sent_to s \<equiv> (\<lambda>(t, w, a, d). a) ` set (out_log s)"

text \<open>Where each datagram came from, given the events so far.\<close>

definition from_event :: "(instant \<times> assoc_event) set \<Rightarrow> assoc \<Rightarrow> instant \<times> instant \<times> socket_addr \<times> bytes \<Rightarrow> bool" where
  "from_event past s = (\<lambda>(t, w, a, d).
     \<exists>buf src ans at snt dg. (t, RecvFrom buf src ans at snt) \<in> past \<and> client_udp_addr s = Some src \<and>
       decap_ref (take UDP_BUF buf) = Inr dg \<and> frag dg = 0 \<and> d = dg_data dg)"

definition to_client :: "(instant \<times> assoc_event) set \<Rightarrow> assoc \<Rightarrow> socket_addr \<times> bytes \<Rightarrow> bool" where
  "to_client past s = (\<lambda>(dst, bs).
     client_udp_addr s = Some dst \<and>
     (\<exists>t buf src ans at snt. (t, RecvFrom buf src ans at snt) \<in> past \<and> src \<in> sent_to s \<and> src \<noteq> dst \<and>
        bs = encap (addr_from_socket src) (take UDP_BUF buf) []))"

definition assoc_inv :: "config \<Rightarrow> (instant \<times> assoc_event) set \<Rightarrow> assoc \<Rightarrow> bool" where
  "assoc_inv cfg past s \<longleftrightarrow>
     targets_ok cfg s \<and> known_targets s \<subseteq> sent_to s \<and>
     (\<forall>a \<in> sent_to s. \<not> is_blocked (cfg_egress cfg) (sock_ip a)) \<and>
     (\<forall>e \<in> set (out_log s). from_event past s e) \<and>
     (\<forall>e \<in> set (client_log s). to_client past s e)"

lemma assoc_inv_init: "assoc_inv cfg past (assoc_init t m)"
  by (simp add: assoc_inv_def targets_ok_def assoc_init_def)

lemma from_event_mono: "from_event past s e \<Longrightarrow> past \<subseteq> past' \<Longrightarrow> client_udp_addr s' = client_udp_addr s \<Longrightarrow> from_event past' s' e"
  by (cases e) (simp add: from_event_def, blast)

lemma to_client_mono:
  "to_client past s e \<Longrightarrow> past \<subseteq> past' \<Longrightarrow> client_udp_addr s' = client_udp_addr s \<Longrightarrow>
     set (out_log s) \<subseteq> set (out_log s') \<Longrightarrow> to_client past' s' e"
proof -
  assume h: "to_client past s e" "past \<subseteq> past'" "client_udp_addr s' = client_udp_addr s"
    "set (out_log s) \<subseteq> set (out_log s')"
  have "sent_to s \<subseteq> sent_to s'" using h(4) by (rule image_mono)
  with h(1-3) show ?thesis by (cases e) (simp add: to_client_def, blast)
qed

text \<open>Steps that touch none of what the invariant speaks of.\<close>

lemma assoc_inv_frame:
  assumes "assoc_inv cfg past s" and "past \<subseteq> past'"
    and "client_udp_addr s' = client_udp_addr s" and "known_targets s' = known_targets s"
    and "known_order s' = known_order s" and "out_log s' = out_log s" and "client_log s' = client_log s"
  shows "assoc_inv cfg past' s'"
  using assms from_event_mono [of past s _ past' s'] to_client_mono [of past s _ past' s']
  unfolding assoc_inv_def targets_ok_def by simp

lemma track_target_fields:
  "out_log (track_target cap a s) = out_log s" "client_log (track_target cap a s) = client_log s"
  "client_udp_addr (track_target cap a s) = client_udp_addr s"
  "window_start (track_target cap a s) = window_start s" "window_count (track_target cap a s) = window_count s"
  "as_metrics (track_target cap a s) = as_metrics s" "as_evs (track_target cap a s) = as_evs s"
  by (auto simp: track_target_def Let_def split: list.splits)

lemma track_target_ok:
  assumes "targets_ok cfg s"
  shows "targets_ok cfg (track_target (max_targets cfg) a s) \<and>
    known_targets (track_target (max_targets cfg) a s) \<subseteq> insert a (known_targets s)"
proof (cases "a \<in> known_targets s \<or> length (known_order s) < max_targets cfg")
  case True
  then have "track_target (max_targets cfg) a s = s \<or> (a \<notin> known_targets s \<and>
      track_target (max_targets cfg) a s =
        s\<lparr>known_targets := insert a (known_targets s), known_order := known_order s @ [a]\<rparr> \<and>
      length (known_order s @ [a]) \<le> max_targets cfg)"
    by (auto simp: track_target_def)
  then show ?thesis
  proof
    assume "track_target (max_targets cfg) a s = s"
    with assms show ?thesis by auto
  qed (use assms in \<open>simp add: targets_ok_def\<close>)
next
  case False
  moreover have "0 < max_targets cfg" by (simp add: max_targets_def)
  ultimately obtain old rest where o: "known_order s = old # rest" by (cases "known_order s") auto
  have len: "length (known_order s) = max_targets cfg" "a \<notin> known_targets s"
    using False assms by (auto simp: targets_ok_def)
  then have "track_target (max_targets cfg) a s =
      s\<lparr>known_order := rest @ [a], known_targets := insert a (known_targets s) - {old}\<rparr>"
    by (simp add: track_target_def o)
  moreover have "distinct (old # rest)" "known_targets s = set (old # rest)"
    using assms o by (auto simp: targets_ok_def)
  ultimately show ?thesis using len o by (auto simp: targets_ok_def)
qed

lemma rate_gate_fields:
  assumes "rate_gate lim now s = (s', go)"
  shows "client_udp_addr s' = client_udp_addr s" "known_targets s' = known_targets s"
    "known_order s' = known_order s" "out_log s' = out_log s" "client_log s' = client_log s"
    "as_metrics s' = as_metrics s" "as_evs s' = as_evs s"
  using assms by (auto simp: rate_gate_def Let_def split: option.splits if_splits)

lemma report_fields:
  "client_udp_addr (report_dns_error e h p t s) = client_udp_addr s"
  "known_targets (report_dns_error e h p t s) = known_targets s"
  "known_order (report_dns_error e h p t s) = known_order s"
  "out_log (report_dns_error e h p t s) = out_log s"
  "client_log (report_dns_error e h p t s) = client_log s"
  "as_metrics (report_dns_error e h p t s) = as_metrics s"
  "window_start (report_dns_error e h p t s) = window_start s"
  "window_count (report_dns_error e h p t s) = window_count s"
  by (simp_all add: report_dns_error_def)

lemma send_target_log:
  "out_log (send_target cfg i now sent a d s) =
     (if \<not> is_blocked (cfg_egress cfg) (sock_ip a) \<and> sent
      then out_log s @ [(now, window_start s, a, d)] else out_log s)"
  "client_log (send_target cfg i now sent a d s) = client_log s"
  "client_udp_addr (send_target cfg i now sent a d s) = client_udp_addr s"
  by (auto simp: send_target_def Let_def track_target_fields)

lemma send_target_inv:
  assumes inv: "assoc_inv cfg past s" and src: "client_udp_addr s = Some src"
    and ev: "(now, RecvFrom buf src ans at snt) \<in> past"
    and dg: "decap_ref (take UDP_BUF buf) = Inr dg" "frag dg = 0"
  shows "assoc_inv cfg past (send_target cfg i now sent a (dg_data dg) s)"
proof (cases "\<not> is_blocked (cfg_egress cfg) (sock_ip a) \<and> sent")
  case True
  let ?s = "send_target cfg i now sent a (dg_data dg) s"
  have log: "out_log ?s = out_log s @ [(now, window_start s, a, dg_data dg)]" using True by (simp add: send_target_log)
  obtain s1 where s1: "targets_ok cfg s1" "known_targets s1 = known_targets s"
    "known_targets ?s = known_targets (track_target (max_targets cfg) a s1)"
    "known_order ?s = known_order (track_target (max_targets cfg) a s1)"
  proof
    let ?s1 = "let s = s\<lparr>out_log := out_log s @ [(now, window_start s, a, dg_data dg)]\<rparr>
       in if udp_rate_pps (limits cfg) \<noteq> None then s\<lparr>window_count := window_count s + 1\<rparr> else s"
    show "targets_ok cfg ?s1" "known_targets ?s1 = known_targets s"
      using inv by (simp_all add: assoc_inv_def targets_ok_def Let_def)
    show "known_targets ?s = known_targets (track_target (max_targets cfg) a ?s1)"
      "known_order ?s = known_order (track_target (max_targets cfg) a ?s1)"
      using True by (simp_all add: send_target_def Let_def)
  qed
  have "targets_ok cfg ?s" "known_targets ?s \<subseteq> insert a (known_targets s)"
    using track_target_ok [OF s1(1), of a] s1 by (auto simp: targets_ok_def)
  moreover have "from_event past ?s e" if "e \<in> set (out_log ?s)" for e
    using that inv log src ev dg from_event_mono [of past s e past ?s]
    by (auto simp: assoc_inv_def send_target_log(3)) (auto simp: from_event_def send_target_log(3))
  moreover have "to_client past ?s e" if "e \<in> set (client_log ?s)" for e
    using that inv log to_client_mono [of past s e past ?s] by (auto simp: assoc_inv_def send_target_log)
  ultimately show ?thesis using inv log True unfolding assoc_inv_def by auto
next
  case False
  then have "send_target cfg i now sent a (dg_data dg) s = s" by (auto simp: send_target_def)
  with inv show ?thesis by simp
qed

lemma unlocked_empty:
  assumes "assoc_inv cfg past s" and "client_udp_addr s = None"
  shows "out_log s = []" "client_log s = []"
proof -
  have "\<not> from_event past s e" "\<not> to_client past s e'" for e e'
    using assms(2) by (auto simp: from_event_def to_client_def split: prod.splits)
  with assms(1) show "out_log s = []" "client_log s = []"
    unfolding assoc_inv_def by (metis last_in_set)+
qed

lemma lock_inv:
  assumes "assoc_inv cfg past s" and "past \<subseteq> past'"
    and "s' = (if client_udp_addr s = None then s\<lparr>client_udp_addr := Some src\<rparr> else s)"
  shows "assoc_inv cfg past' s'"
proof (cases "client_udp_addr s = None")
  case True
  have "assoc_inv cfg past' (s\<lparr>client_udp_addr := Some src\<rparr>)"
    using assms(1) unlocked_empty [OF assms(1) True] by (simp add: assoc_inv_def targets_ok_def)
  with True assms(3) show ?thesis by simp
next
  case False
  with assms(3) have "s' = s" by simp
  then show ?thesis using assms(1,2) by (simp add: assoc_inv_frame)
qed

lemma from_client_inv:
  assumes inv: "assoc_inv cfg past s" and cl: "is_client client_ip src s"
    and ev: "(now, RecvFrom buf src ans at snt) \<in> past'" and sub: "past \<subseteq> past'"
  shows "assoc_inv cfg past' (from_client cfg bind_ip i now (take UDP_BUF buf) src ans at snt s)"
proof -
  define s1 where "s1 = (if client_udp_addr s = None then s\<lparr>client_udp_addr := Some src\<rparr> else s)"
  have i1: "assoc_inv cfg past' s1" using inv sub s1_def by (rule lock_inv)
  have c1: "client_udp_addr s1 = Some src"
    using cl by (auto simp: s1_def is_client_def split: option.splits)
  have eq: "from_client cfg bind_ip i now (take UDP_BUF buf) src ans at snt s =
      (case decap_ref (take UDP_BUF buf) of
         Inl e \<Rightarrow> s1
       | Inr dg \<Rightarrow>
           if frag dg \<noteq> 0 then s1
           else (case rate_gate (udp_rate_pps (limits cfg)) now s1 of
                  (s, False) \<Rightarrow> s
                | (s, True) \<Rightarrow>
                    (case choose_target cfg bind_ip (dg_address dg) ans of
                       NoTarget \<Rightarrow> s
                     | TargetError e host port \<Rightarrow> report_dns_error e host port at s
                     | Target target \<Rightarrow> send_target cfg i now snt target (dg_data dg) s)))"
    unfolding from_client_def Let_def s1_def [symmetric] ..
  show ?thesis
  proof (cases "decap_ref (take UDP_BUF buf)")
    case (Inl e)
    then show ?thesis using eq i1 by simp
  next
    case (Inr dg)
    show ?thesis
    proof (cases "frag dg = 0")
      case False
      then show ?thesis using eq Inr i1 by simp
    next
      case True
      obtain s2 go where g: "rate_gate (udp_rate_pps (limits cfg)) now s1 = (s2, go)" by fastforce
      note f = rate_gate_fields [OF g]
      have i2: "assoc_inv cfg past' s2" using i1 f by (auto intro: assoc_inv_frame)
      have c2: "client_udp_addr s2 = Some src" using f c1 by simp
      have "assoc_inv cfg past' (send_target cfg i now snt a (dg_data dg) s2)" for a
        by (rule send_target_inv [OF i2 c2 ev Inr True])
      moreover have "assoc_inv cfg past' (report_dns_error e h p at s2)" for e h p
        using i2 report_fields by (auto intro: assoc_inv_frame)
      ultimately show ?thesis
        using i2 eq Inr True g by (cases go; cases "choose_target cfg bind_ip (dg_address dg) ans") simp_all
    qed
  qed
qed

lemma from_target_inv:
  assumes inv: "assoc_inv cfg past s" and nc: "\<not> is_client client_ip src s" and kt: "src \<in> known_targets s"
    and ev: "(now, RecvFrom buf src ans at snt) \<in> past'" and sub: "past \<subseteq> past'"
  shows "assoc_inv cfg past' (from_target i (take UDP_BUF buf) src s)"
proof (cases "client_udp_addr s")
  case None
  then show ?thesis using inv sub by (auto simp: from_target_def intro: assoc_inv_frame)
next
  case (Some dst)
  let ?e = "(dst, encap (addr_from_socket src) (take UDP_BUF buf) [])"
  let ?s = "from_target i (take UDP_BUF buf) src s"
  have s: "client_udp_addr ?s = Some dst" "known_targets ?s = known_targets s" "known_order ?s = known_order s"
    "out_log ?s = out_log s" "client_log ?s = client_log s @ [?e]"
    using Some by (simp_all add: from_target_def)
  have ne: "src \<noteq> dst" using nc Some by (simp add: is_client_def)
  have "src \<in> sent_to s" using inv kt by (auto simp: assoc_inv_def)
  then have st: "src \<in> sent_to ?s" by (simp only: s(4))
  have "\<exists>t b sr an x sn. (t, RecvFrom b sr an x sn) \<in> past' \<and> sr \<in> sent_to ?s \<and> sr \<noteq> dst \<and>
      encap (addr_from_socket src) (take UDP_BUF buf) [] = encap (addr_from_socket sr) (take UDP_BUF b) []"
    by (intro exI conjI, rule ev, rule st, rule ne, rule refl)
  then have "to_client past' ?s ?e" unfolding to_client_def split_conv s(1) by simp
  moreover have "to_client past' ?s e" if "e \<in> set (client_log s)" for e
    using inv that sub s Some to_client_mono [of past s e past' ?s] by (simp add: assoc_inv_def)
  moreover have "from_event past' ?s e" if "e \<in> set (out_log s)" for e
    using inv that sub s Some from_event_mono [of past s e past' ?s] by (simp add: assoc_inv_def)
  ultimately show ?thesis
    using inv unfolding assoc_inv_def targets_ok_def s by auto
qed

lemma assoc_step_inv:
  assumes "assoc_inv cfg past s" and "assoc_step cfg bind_ip client_ip i t ev s = (s', go)"
  shows "assoc_inv cfg (insert (t, ev) past) s'"
proof (cases ev)
  case (RecvFrom buf src ans at snt)
  then have s': "s' = on_datagram cfg bind_ip client_ip i t (take UDP_BUF buf) src ans at snt s"
    using assms(2) by simp
  have ev: "(t, RecvFrom buf src ans at snt) \<in> insert (t, ev) past" by (simp add: RecvFrom)
  have sub: "past \<subseteq> insert (t, ev) past" by blast
  show ?thesis
    unfolding s' on_datagram_def
    using from_client_inv [OF assms(1) _ ev sub] from_target_inv [OF assms(1) _ _ ev sub]
      assoc_inv_frame [OF assms(1) sub] by simp
qed (use assms in \<open>auto intro: assoc_inv_frame\<close>)

lemma assoc_loop_inv:
  assumes "assoc_inv cfg past s" and "assoc_loop cfg bind_ip client_ip i es s = (s', go)"
  shows "assoc_inv cfg (past \<union> set es) s'"
  using assms
proof (induction es arbitrary: past s)
  case Nil
  then show ?case by simp
next
  case (Cons e es)
  obtain t ev where e: "e = (t, ev)" by (cases e)
  obtain s1 g1 where st: "assoc_step cfg bind_ip client_ip i t ev s = (s1, g1)" by fastforce
  have i1: "assoc_inv cfg (insert e past) s1" using assoc_step_inv [OF Cons.prems(1) st] e by simp
  show ?case
  proof (cases g1)
    case True
    with Cons.prems(2) e st have "assoc_loop cfg bind_ip client_ip i es s1 = (s', go)" by simp
    from Cons.IH [OF i1 this] show ?thesis by simp
  next
    case False
    with Cons.prems(2) e st have "s' = s1" by simp
    with i1 show ?thesis by (auto intro: assoc_inv_frame)
  qed
qed

section \<open>The rate window\<close>

definition in_window :: "instant \<Rightarrow> assoc \<Rightarrow> nat" where
  "in_window w s = length (filter (\<lambda>e. fst (snd e) = w) (out_log s))"

definition rate_inv :: "u32 \<Rightarrow> instant \<Rightarrow> assoc \<Rightarrow> bool" where
  "rate_inv limit now s \<longleftrightarrow>
     window_start s \<le> now \<and> window_count s \<le> limit \<and>
     unat (window_count s) = in_window (window_start s) s \<and>
     (\<forall>w. in_window w s \<le> unat limit) \<and>
     (\<forall>e \<in> set (out_log s). fst (snd e) \<le> fst e \<and> fst e < fst (snd e) + from_secs 1 \<and>
        (fst (snd e) = window_start s \<or> fst (snd e) + from_secs 1 \<le> window_start s)) \<and>
     (\<forall>e \<in> set (out_log s). \<forall>f \<in> set (out_log s). fst (snd e) < fst (snd f) \<longrightarrow>
        fst (snd e) + from_secs 1 \<le> fst (snd f))"

lemma rate_inv_init: "rate_inv limit t (assoc_init t m)"
  by (simp add: rate_inv_def assoc_init_def in_window_def)

lemma rate_inv_frame:
  assumes "rate_inv limit now s" and "now \<le> now'" and "window_start s' = window_start s"
    and "window_count s' = window_count s" and "out_log s' = out_log s"
  shows "rate_inv limit now' s'"
  using assms unfolding rate_inv_def in_window_def by auto

lemma in_window_absent: "(\<And>e. e \<in> set (out_log s) \<Longrightarrow> fst (snd e) \<noteq> w) \<Longrightarrow> in_window w s = 0"
  by (simp add: in_window_def filter_empty_conv)

lemma rate_gate_inv:
  assumes inv: "rate_inv limit now s" and t: "now \<le> t" and g: "rate_gate (Some limit) t s = (s', go)"
  shows "rate_inv limit t s' \<and> t < window_start s' + from_secs 1 \<and> (go \<longrightarrow> window_count s' < limit)"
proof -
  have go: "go \<longleftrightarrow> window_count s' < limit" using g by (auto simp: rate_gate_def Let_def not_le)
  show ?thesis
  proof (cases "from_secs 1 \<le> t - window_start s")
    case False
    then have "s' = s" using g by (simp add: rate_gate_def)
    then show ?thesis using False go rate_inv_frame [OF inv t, of s] by auto
  next
    case True
    then have s': "s' = s\<lparr>window_start := t, window_count := 0\<rparr>" using g by (simp add: rate_gate_def)
    have later: "window_start s + from_secs 1 \<le> t" using True by (simp add: from_secs_def)
    have far: "fst (snd e) + from_secs 1 \<le> t" if "e \<in> set (out_log s)" for e
      using that inv later unfolding rate_inv_def by fastforce
    have "in_window t s' = 0"
      using far by (intro in_window_absent) (fastforce simp: s' from_secs_def)
    moreover have "in_window w s' = in_window w s" for w by (simp add: in_window_def s')
    ultimately have "rate_inv limit t s'"
      using inv far unfolding rate_inv_def by (simp add: s')
    then show ?thesis using go by (simp add: s' from_secs_def)
  qed
qed

lemma send_target_rate:
  assumes inv: "rate_inv limit t s" and lim: "udp_rate_pps (limits cfg) = Some limit"
    and room: "window_count s < limit" and fresh: "t < window_start s + from_secs 1"
  shows "rate_inv limit t (send_target cfg i t sent a d s)"
proof (cases "\<not> is_blocked (cfg_egress cfg) (sock_ip a) \<and> sent")
  case True
  let ?s = "send_target cfg i t sent a d s" and ?e = "(t, window_start s, a, d)"
  have f: "out_log ?s = out_log s @ [?e]" "window_start ?s = window_start s"
    "window_count ?s = window_count s + 1"
    using True lim by (simp_all add: send_target_def Let_def track_target_fields)
  have bump: "unat (window_count s + 1) = Suc (unat (window_count s))"
  proof -
    have "Suc (unat (window_count s)) < 4294967296"
      using room unat_u32_less [of limit] unfolding word_less_nat_alt by linarith
    then show ?thesis by (simp add: unat_word_ariths)
  qed
  have le: "window_count s + 1 \<le> limit" using room bump by (simp add: word_le_nat_alt word_less_nat_alt)
  have w: "in_window w ?s = in_window w s + (if w = window_start s then 1 else 0)" for w
    by (simp add: in_window_def f)
  have cnt: "in_window (window_start s) s = unat (window_count s)" using inv by (simp add: rate_inv_def)
  have "in_window w ?s \<le> unat limit" for w
    using inv room cnt unfolding w rate_inv_def by (auto simp: word_less_nat_alt)
  moreover have "unat (window_count ?s) = in_window (window_start ?s) ?s"
    by (simp add: f(2,3) w bump cnt)
  moreover have "fst (snd e) = window_start s \<or> fst (snd e) + from_secs 1 \<le> window_start s"
    if "e \<in> set (out_log s)" for e using inv that by (simp add: rate_inv_def)
  then have "fst (snd e) + from_secs 1 \<le> fst (snd f')" if "e \<in> set (out_log ?s)" "f' \<in> set (out_log ?s)"
    "fst (snd e) < fst (snd f')" for e f'
    using that inv unfolding rate_inv_def f by fastforce
  ultimately show ?thesis
    using inv le fresh unfolding rate_inv_def f by auto
next
  case False
  then have "send_target cfg i t sent a d s = s" by (auto simp: send_target_def)
  with inv show ?thesis by simp
qed

lemma from_client_rate:
  assumes inv: "rate_inv limit now s" and lim: "udp_rate_pps (limits cfg) = Some limit" and t: "now \<le> t"
  shows "rate_inv limit t (from_client cfg bind_ip i t buf src ans at snt s)"
proof -
  define s1 where "s1 = (if client_udp_addr s = None then s\<lparr>client_udp_addr := Some src\<rparr> else s)"
  have i1: "rate_inv limit now s1" using rate_inv_frame [OF inv, of now s1] by (simp add: s1_def)
  then have i1': "rate_inv limit t s1" using rate_inv_frame [OF i1 t, of s1] by simp
  obtain s2 go where g: "rate_gate (udp_rate_pps (limits cfg)) t s1 = (s2, go)" by fastforce
  note i2 = rate_gate_inv [OF i1 t g [unfolded lim]]
  have "rate_inv limit t (send_target cfg i t snt a d s2)" if go for a d
    using i2 that by (intro send_target_rate [OF _ lim]) simp_all
  moreover have "rate_inv limit t (report_dns_error e h p at s2)" for e h p
    using i2 rate_inv_frame [of limit t s2 t] report_fields by simp
  ultimately show ?thesis
    unfolding from_client_def Let_def s1_def [symmetric]
    using i1' i2 g by (auto split: sum.splits bool.splits target_choice.splits)
qed

lemma assoc_step_rate:
  assumes inv: "rate_inv limit now s" and lim: "udp_rate_pps (limits cfg) = Some limit" and t: "now \<le> t"
    and st: "assoc_step cfg bind_ip client_ip i t ev s = (s', go)"
  shows "rate_inv limit t s'"
proof (cases ev)
  case (RecvFrom buf src ans at snt)
  have "rate_inv limit t s" using rate_inv_frame [OF inv t] by simp
  moreover from this have "rate_inv limit t (from_target i (take UDP_BUF buf) src s)"
    by (rule rate_inv_frame) (auto simp: from_target_def split: option.split)
  ultimately show ?thesis using st from_client_rate [OF inv lim t] RecvFrom by (auto simp: on_datagram_def)
qed (use st rate_inv_frame [OF inv t] in auto)

lemma assoc_loop_rate:
  assumes "rate_inv limit now s" and "udp_rate_pps (limits cfg) = Some limit" and "sorted (now # map fst es)"
    and "assoc_loop cfg bind_ip client_ip i es s = (s', go)"
  shows "\<exists>t. rate_inv limit t s'"
  using assms
proof (induction es arbitrary: now s)
  case Nil
  then show ?case by auto
next
  case (Cons e es)
  obtain t ev where e: "e = (t, ev)" by (cases e)
  obtain s1 g1 where st: "assoc_step cfg bind_ip client_ip i t ev s = (s1, g1)" by fastforce
  have t: "now \<le> t" "sorted (t # map fst es)" using Cons.prems(3) e by auto
  have i1: "rate_inv limit t s1" using assoc_step_rate [OF Cons.prems(1,2) t(1) st] .
  show ?case
  proof (cases g1)
    case True
    with Cons.prems(4) e st have "assoc_loop cfg bind_ip client_ip i es s1 = (s', go)" by simp
    from Cons.IH [OF i1 Cons.prems(2) t(2) this] show ?thesis .
  next
    case False
    with Cons.prems(4) e st i1 show ?thesis by auto
  qed
qed

lemma length_filter_two:
  "(\<And>x. x \<in> set xs \<Longrightarrow> P x \<Longrightarrow> A x \<or> B x) \<Longrightarrow>
     length (filter P xs) \<le> length (filter A xs) + length (filter B xs)"
proof (induction xs)
  case (Cons a xs)
  then have "length (filter P xs) \<le> length (filter A xs) + length (filter B xs)" by simp
  moreover have "P a \<longrightarrow> A a \<or> B a" using Cons.prems by simp
  ultimately show ?case by auto
qed simp

text \<open>Any span of one second meets at most two windows.\<close>

lemma rate_span:
  assumes "rate_inv limit now s"
  shows "length (filter (\<lambda>e. T \<le> fst e \<and> fst e < T + from_secs 1) (out_log s)) \<le> 2 * unat limit"
proof (cases "\<exists>e \<in> set (out_log s). T \<le> fst e \<and> fst e < T + from_secs 1")
  case False
  then have "filter (\<lambda>e. T \<le> fst e \<and> fst e < T + from_secs 1) (out_log s) = []"
    by (auto simp: filter_empty_conv)
  then show ?thesis by simp
next
  case True
  define W where "W = (\<lambda>e. fst (snd e)) ` {e \<in> set (out_log s). T \<le> fst e \<and> fst e < T + from_secs 1}"
  have fin: "finite W" by (simp add: W_def)
  moreover have "W \<noteq> {}" using True unfolding W_def by blast
  ultimately have fin: "finite W" "W \<noteq> {}" by simp_all
  define lo hi where "lo = Min W" and "hi = Max W"
  have range: "w < T + from_secs 1 \<and> T < w + from_secs 1" if "w \<in> W" for w
    using that assms unfolding W_def rate_inv_def by fastforce
  have apart: "w < v \<Longrightarrow> w + from_secs 1 \<le> v" if "w \<in> W" "v \<in> W" for w v
    using that assms unfolding W_def rate_inv_def by fastforce
  have "w = lo \<or> w = hi" if "w \<in> W" for w
  proof (rule ccontr)
    assume "\<not> (w = lo \<or> w = hi)"
    then have "lo < w" "w < hi"
      using Min_le [OF fin(1) that] Max_ge [OF fin(1) that] by (auto simp: lo_def hi_def)
    moreover have "lo \<in> W" "hi \<in> W" using fin by (simp_all add: lo_def hi_def)
    ultimately have "lo + from_secs 1 \<le> w" "w + from_secs 1 \<le> hi" using apart that by blast+
    then show False using range [OF \<open>lo \<in> W\<close>] range [OF \<open>hi \<in> W\<close>] by linarith
  qed
  then have "fst (snd e) = lo \<or> fst (snd e) = hi"
    if "e \<in> set (out_log s)" "T \<le> fst e \<and> fst e < T + from_secs 1" for e
    using that by (auto simp: W_def)
  from length_filter_two [of "out_log s" _ "\<lambda>e. fst (snd e) = lo" "\<lambda>e. fst (snd e) = hi", OF this]
  have "length (filter (\<lambda>e. T \<le> fst e \<and> fst e < T + from_secs 1) (out_log s)) \<le> in_window lo s + in_window hi s"
    by (simp add: in_window_def)
  also have "\<dots> \<le> 2 * unat limit" using assms by (simp add: rate_inv_def mult_2 add_mono)
  finally show ?thesis .
qed

section \<open>The handler\<close>

lemma send_target_metrics:
  "as_metrics (send_target cfg i t sent a d s) = as_metrics s \<or>
   as_metrics (send_target cfg i t sent a d s) = add_up (as_metrics s) i (of_nat (length d))"
  by (auto simp: send_target_def Let_def track_target_fields)

definition same_sessions :: "metrics \<Rightarrow> metrics \<Rightarrow> bool" where
  "same_sessions m m' \<longleftrightarrow>
     live_ids m' = live_ids m \<and> (metrics_ok m \<longrightarrow> metrics_ok m') \<and> successes m' = successes m"

lemma same_sessions_add:
  "same_sessions m (add_up m i n)" "same_sessions m (add_down m i n)" "same_sessions m m"
  "same_sessions m m' \<Longrightarrow> same_sessions m' m'' \<Longrightarrow> same_sessions m m''"
  using add_bytes_counters(6) [of Down m i n] by (auto simp: same_sessions_def metrics_ok_add)

lemma from_client_cases:
  "\<exists>n. as_metrics (from_client cfg b i t buf src ans at snt s) \<in> {as_metrics s, add_up (as_metrics s) i n}"
proof -
  define s1 where "s1 = (if client_udp_addr s = None then s\<lparr>client_udp_addr := Some src\<rparr> else s)"
  have m1: "as_metrics s1 = as_metrics s" by (simp add: s1_def)
  obtain s2 go where g: "rate_gate (udp_rate_pps (limits cfg)) t s1 = (s2, go)" by fastforce
  have m2: "as_metrics s2 = as_metrics s" using rate_gate_fields(6) [OF g] m1 by simp
  have "as_metrics (send_target cfg i t snt a d s2) \<in> {as_metrics s, add_up (as_metrics s) i (of_nat (length d))}" for a d
    using send_target_metrics [of cfg i t snt a d s2] m2 by simp
  then show ?thesis
    unfolding from_client_def Let_def s1_def [symmetric]
    using g m1 m2 by (auto simp: report_fields split: sum.splits bool.splits target_choice.splits)
qed

lemma from_client_metrics: "same_sessions (as_metrics s) (as_metrics (from_client cfg b i t buf src ans at snt s))"
  using from_client_cases [of cfg b i t buf src ans at snt s] same_sessions_add(1,3) by (elim exE insertE) simp_all

lemma assoc_step_metrics:
  "assoc_step cfg b c i t ev s = (s', go) \<Longrightarrow> same_sessions (as_metrics s) (as_metrics s')"
proof (cases ev)
  case (RecvFrom buf src ans at snt)
  assume st: "assoc_step cfg b c i t ev s = (s', go)"
  have "same_sessions (as_metrics s) (as_metrics (from_target i (take UDP_BUF buf) src s))"
    by (auto simp: from_target_def same_sessions_add split: option.splits)
  then show ?thesis using st RecvFrom from_client_metrics by (auto simp: on_datagram_def same_sessions_add)
qed (auto simp: same_sessions_add)

lemma assoc_loop_metrics:
  "assoc_loop cfg b c i es s = (s', go) \<Longrightarrow> same_sessions (as_metrics s) (as_metrics s')"
proof (induction es arbitrary: s)
  case (Cons e es)
  obtain t ev where e: "e = (t, ev)" by (cases e)
  obtain s1 g1 where st: "assoc_step cfg b c i t ev s = (s1, g1)" by fastforce
  note m = assoc_step_metrics [OF st]
  show ?case using Cons st e m same_sessions_add(4) [OF m] by (cases g1) auto
qed (simp add: same_sessions_add)

lemma udp_session_result:
  assumes "assoc_loop cfg b (to_canonical (sock_ip peer)) (next_id m) (us_events us)
      (assoc_init (us_started us) (snd (register m peer ''udp-associate'' KindUdp))) = (s, go)"
    and "c1 = send_event (EvConnect (next_id m) peer ''udp-associate'' KindUdp) (noted (OpRegister peer ''udp-associate'' KindUdp) c)"
    and "c2 = c1\<lparr>evs := evs c1 @ as_evs s, journal := journal c1 @ as_journal s\<rparr>"
  shows "udp_session us cfg peer b c m =
    (if go then (c2, as_metrics s, RunRelaying (next_id m))
     else (send_event (EvClosed (next_id m)) (noted (OpUnregister (next_id m)) (noted OpSuccess c2)),
           unregister (record_success (as_metrics s)) (next_id m), RunDone))"
  unfolding udp_session_def Let_def
  by (subst register_eq) (simp only: prod.case assms split_def fst_conv snd_conv call_pair metrics_step.simps)

lemma udp_session_closed:
  assumes ok: "metrics_ok m" and left: "ids_left m"
    and run: "udp_session us cfg peer b c m = (c', m', RunDone)"
  shows "live_ids m' = live_ids m \<and> metrics_ok m' \<and> successes m' = successes m + 1 \<and> tx c' = tx c \<and>
    (\<exists>es. evs c' = evs c @ [EvConnect (next_id m) peer ''udp-associate'' KindUdp] @ es @ [EvClosed (next_id m)])"
proof -
  let ?i = "next_id m" and ?m1 = "snd (register m peer ''udp-associate'' KindUdp)"
  have reg: "(case (peer, ''udp-associate'', KindUdp) of (s, t, k) \<Rightarrow> \<lambda>m. register m s t k) m = (?i, ?m1)"
    using register_eq [of m peer "''udp-associate''" KindUdp] by simp
  obtain s go where l: "assoc_loop cfg b (to_canonical (sock_ip peer)) ?i (us_events us)
      (assoc_init (us_started us) ?m1) = (s, go)" by fastforce
  have ss: "same_sessions ?m1 (as_metrics s)" using assoc_loop_metrics [OF l] by (simp add: assoc_init_def)
  have r: "\<not> go" "m' = unregister (record_success (as_metrics s)) ?i"
    "evs c' = evs c @ [EvConnect ?i peer ''udp-associate'' KindUdp] @ as_evs s @ [EvClosed ?i]" "tx c' = tx c"
    using run unfolding udp_session_result [OF l refl refl] by (auto split: if_splits)
  have ok1: "metrics_ok ?m1" using ok left by (rule metrics_ok_register)
  have "live_ids (unregister (record_success (as_metrics s)) ?i) = live_ids m \<and>
      metrics_ok (unregister (record_success (as_metrics s)) ?i)"
    using conns.bracket [OF ok left reg, of "record_success (as_metrics s)"] ss ok1
    by (simp add: metrics_ok_record same_sessions_def)
  moreover have "successes m' = successes m + 1"
    using ss by (simp add: r(2) unregister_def record_success_def register_counters same_sessions_def)
  ultimately show ?thesis by (simp add: r(2-4))
qed

section \<open>Properties\<close>

text \<open>C10: whatever datagrams arrive, from whomever, and whatever the resolver answers, the relay
  sends no datagram to a target the egress policy blocks; every datagram it sends out is
  the payload of an unfragmented datagram that came from the one address locked as the
  client; and every datagram it hands the client, at that address, is what a target the
  client has sent to answered, with that target's address in front.\<close>

theorem udp_relay_filters:
  assumes "assoc_loop cfg bind_ip client_ip i es (assoc_init t m) = (s, go)"
  shows "(\<forall>(now, w, a, d) \<in> set (out_log s).
      \<not> is_blocked (cfg_egress cfg) (sock_ip a) \<and>
      (\<exists>buf src ans at snt dg. (now, RecvFrom buf src ans at snt) \<in> set es \<and> client_udp_addr s = Some src \<and>
         decap_ref (take UDP_BUF buf) = Inr dg \<and> frag dg = 0 \<and> d = dg_data dg)) \<and>
    (\<forall>(dst, bs) \<in> set (client_log s). client_udp_addr s = Some dst \<and>
      (\<exists>now buf src ans at snt. (now, RecvFrom buf src ans at snt) \<in> set es \<and>
         src \<in> (\<lambda>(t, w, a, d). a) ` set (out_log s) \<and> src \<noteq> dst \<and>
         bs = encap (addr_from_socket src) (take UDP_BUF buf) []))"
proof -
  have inv: "assoc_inv cfg (set es) s" using assoc_loop_inv [OF assoc_inv_init [of cfg "{}"] assms] by simp
  have "\<forall>e \<in> set (out_log s). case e of (now, w, a, d) \<Rightarrow>
      \<not> is_blocked (cfg_egress cfg) (sock_ip a) \<and>
      (\<exists>buf src ans at snt dg. (now, RecvFrom buf src ans at snt) \<in> set es \<and> client_udp_addr s = Some src \<and>
         decap_ref (take UDP_BUF buf) = Inr dg \<and> frag dg = 0 \<and> d = dg_data dg)"
    using inv unfolding assoc_inv_def from_event_def by fastforce
  moreover have "\<forall>e \<in> set (client_log s). to_client (set es) s e" using inv by (simp add: assoc_inv_def)
  ultimately show ?thesis unfolding to_client_def by blast
qed

definition sample_client :: socket_addr where
  "sample_client = SockV4 (Ipv4 10 0 0 7) 5000"

definition sample_dg :: bytes where
  "sample_dg = [0, 0, 0, 1, 8, 8, 8, 8, 0, 53, 42]"

definition sample_assoc_events :: "(instant \<times> assoc_event) list" where
  "sample_assoc_events =
     [(1, RecvFrom sample_dg sample_client (Inr []) 1 True),
      (2, RecvFrom [7, 7] (SockV4 (Ipv4 8 8 8 8) 53) (Inr []) 2 True),
      (3, RecvFrom [9] (SockV4 (Ipv4 9 9 9 9) 53) (Inr []) 3 True)]"

theorem udp_relay_filters_witness:
  "list_all (\<lambda>e. client_udp_addr (fst (assoc_loop default_config (IpV4 (Ipv4 10 0 0 1))
      (IpV4 (Ipv4 10 0 0 7)) 1 sample_assoc_events (assoc_init 0 metrics_new))) = Some (fst e))
    (client_log (fst (assoc_loop default_config (IpV4 (Ipv4 10 0 0 1))
      (IpV4 (Ipv4 10 0 0 7)) 1 sample_assoc_events (assoc_init 0 metrics_new))))"
  using udp_relay_filters [of default_config "IpV4 (Ipv4 10 0 0 1)" "IpV4 (Ipv4 10 0 0 7)" 1
      sample_assoc_events 0 metrics_new, OF prod.collapse [symmetric]]
  by (fastforce simp: list_all_iff)

text \<open>The targets an association remembers are distinct, agree with their eviction queue
  and never exceed \<open>udp_max_targets\<close> (at least one), so a client spraying destinations
  cannot grow them without bound.\<close>

theorem udp_targets_bounded:
  assumes "assoc_loop cfg bind_ip client_ip i es (assoc_init t m) = (s, go)"
  shows "distinct (known_order s) \<and> set (known_order s) = known_targets s \<and>
    card (known_targets s) \<le> max (udp_max_targets (limits cfg)) 1"
proof -
  have "targets_ok cfg s"
    using assoc_loop_inv [OF assoc_inv_init [of cfg "{}"] assms] by (simp add: assoc_inv_def)
  then show ?thesis unfolding targets_ok_def max_targets_def by (metis distinct_card)
qed

theorem udp_targets_bounded_witness:
  "card (known_targets (fst (assoc_loop default_config (IpV4 (Ipv4 10 0 0 1))
      (IpV4 (Ipv4 10 0 0 7)) 1 sample_assoc_events (assoc_init 0 metrics_new)))) \<le> 1024"
  using udp_targets_bounded [of default_config "IpV4 (Ipv4 10 0 0 1)" "IpV4 (Ipv4 10 0 0 7)" 1
      sample_assoc_events 0 metrics_new, OF prod.collapse [symmetric]]
  by (simp add: default_config_def limits_default_def default_udp_max_targets_def)

text \<open>C25: with a rate cap, at most twice the cap is sent out for datagrams that pass the check
  within any span of one second, and the window's counter never passes the cap, so it
  does not overflow.\<close>

theorem udp_rate_limited:
  assumes "udp_rate_pps (limits cfg) = Some limit" and "sorted (t # map fst es)"
    and "assoc_loop cfg bind_ip client_ip i es (assoc_init t m) = (s, go)"
  shows "length (filter (\<lambda>e. T \<le> fst e \<and> fst e < T + from_secs 1) (out_log s)) \<le> 2 * unat limit \<and>
    window_count s \<le> limit"
proof -
  obtain n where "rate_inv limit n s"
    using assoc_loop_rate [OF rate_inv_init assms(1,2,3)] by blast
  then show ?thesis using rate_span [of limit n s T] by (simp add: rate_inv_def)
qed

definition rate_config :: config where
  "rate_config = default_config\<lparr>limits := (limits default_config)\<lparr>udp_rate_pps := Some 3\<rparr>\<rparr>"

theorem udp_rate_limited_witness:
  "window_count (fst (assoc_loop rate_config (IpV4 (Ipv4 10 0 0 1))
      (IpV4 (Ipv4 10 0 0 7)) 1 sample_assoc_events (assoc_init 0 metrics_new))) \<le> 3"
  using udp_rate_limited [of rate_config 3 0 sample_assoc_events "IpV4 (Ipv4 10 0 0 1)" "IpV4 (Ipv4 10 0 0 7)" 1
      metrics_new, OF _ _ prod.collapse [symmetric]]
  by (simp add: rate_config_def sample_assoc_events_def)

text \<open>C26: binding in a port range calls \<open>bind\<close> on the ports of the range one after the other,
  from the one the cursor selects and round the end of the range, and moves the cursor on by
  one. As long as the cursor does not wrap during the scan, no port is tried twice; the scan
  goes on exactly while ports are in use or privileged: it returns the answer of the first
  that is neither, the last it tries, and it gives up only when it has tried every port of
  the range.\<close>

theorem bind_scan_exhaustive:
  assumes "range_start r \<le> range_end r"
    and "unat cursor + (unat (range_end r) - unat (range_start r) + 1) \<le> 2 ^ 32"
    and "bind_with_retry bind_udp (Some r) cursor = (res, cursor', tried)"
  shows "cursor' = cursor + 1 \<and> distinct tried \<and>
    (\<forall>k < length tried. unat (tried ! k) =
       unat (range_start r) + (unat cursor + k) mod (unat (range_end r) - unat (range_start r) + 1)) \<and>
    (\<forall>p \<in> set (butlast tried). retriable (bind_udp p)) \<and>
    (if \<forall>p. range_start r \<le> p \<and> p \<le> range_end r \<longrightarrow> retriable (bind_udp p)
     then res = Inl (IoError IoAddrInUse ''udp_port_range exhausted'') \<and>
       set tried = {p. range_start r \<le> p \<and> p \<le> range_end r}
     else tried \<noteq> [] \<and> \<not> retriable (bind_udp (last tried)) \<and> res = bind_udp (last tried))"
proof -
  let ?ps = "scan_ports r cursor" and ?again = "\<lambda>p. retriable (bind_udp p)"
  note ports = scan_ports_complete [OF assms(1,2)]
  have t: "tried = tries ?again ?ps" "cursor' = cursor + 1"
    and res: "res = (case find (\<lambda>p. \<not> ?again p) ?ps of
        Some p \<Rightarrow> bind_udp p | None \<Rightarrow> Inl (IoError IoAddrInUse ''udp_port_range exhausted''))"
    using assms(3) by (auto simp: bind_with_retry_tries)
  have pre: "tried = take (length tried) ?ps" unfolding t(1) by (rule tries_prefix)
  then have "length tried \<le> length ?ps" by (metis length_take min.cobounded1)
  moreover have "distinct tried" using ports pre by (metis distinct_take)
  moreover have "unat (tried ! k) =
      unat (range_start r) + (unat cursor + k) mod (unat (range_end r) - unat (range_start r) + 1)" if "k < length tried" for k
  proof -
    have "tried ! k = ?ps ! k" using pre that by (metis nth_take)
    then show ?thesis using scan_ports_nth [OF assms(1,2), of k] that calculation(1) by simp
  qed
  moreover have "\<forall>p \<in> set (butlast tried). ?again p" unfolding t(1) using tries_again [of _ ?again] by blast
  moreover have "if \<forall>p. range_start r \<le> p \<and> p \<le> range_end r \<longrightarrow> ?again p
     then res = Inl (IoError IoAddrInUse ''udp_port_range exhausted'') \<and> set tried = {p. range_start r \<le> p \<and> p \<le> range_end r}
     else tried \<noteq> [] \<and> \<not> ?again (last tried) \<and> res = bind_udp (last tried)"
    using tries_end [of ?ps ?again] ports unfolding t(1) res by (auto split: if_splits)
  ultimately show ?thesis using t(2) by blast
qed

definition only_5002 :: "u16 \<Rightarrow> (unit, io_error) result" where
  "only_5002 p = (if p = 5002 then Inr () else Inl (IoError IoAddrInUse ''in use''))"

theorem bind_scan_exhaustive_witness:
  "fst (bind_with_retry only_5002 (Some \<lparr>range_start = 5000, range_end = 5002\<rparr>) 7) = Inr ()"
proof -
  have r: "\<not> retriable (only_5002 p) \<longleftrightarrow> p = 5002" for p by (simp add: only_5002_def retriable_def)
  have v: "range_start \<lparr>range_start = 5000, range_end = 5002\<rparr> \<le> range_end \<lparr>range_start = 5000, range_end = 5002\<rparr>"
    "unat (7 :: u32) + (unat (range_end \<lparr>range_start = 5000, range_end = 5002\<rparr>) -
       unat (range_start \<lparr>range_start = 5000, range_end = 5002\<rparr>) + 1) \<le> 2 ^ 32" by simp_all
  have ex: "\<not> (\<forall>p. 5000 \<le> p \<and> p \<le> 5002 \<longrightarrow> retriable (only_5002 p))"
    using r [of 5002] by (metis word_le_nat_alt order_refl v(1) port_range.select_convs(1,2))
  obtain res c' tried where b:
    "bind_with_retry only_5002 (Some \<lparr>range_start = 5000, range_end = 5002\<rparr>) 7 = (res, c', tried)"
    by (metis prod.collapse)
  have "\<not> retriable (only_5002 (last tried)) \<and> res = only_5002 (last tried)"
    using bind_scan_exhaustive [OF v b] ex by (simp split: if_splits)
  then show ?thesis using r b by (auto simp: only_5002_def)
qed

text \<open>When the cursor passes \<open>u32::MAX\<close> during a scan, the offsets restart and some ports are
  tried twice and others not at all: here the one free port of the range is never tried.\<close>

theorem bind_cursor_wrap_skips:
  "only_5002 5002 = Inr () \<and>
   bind_with_retry only_5002 (Some \<lparr>range_start = 5000, range_end = 5002\<rparr>) 0xFFFFFFFF =
     (Inl (IoError IoAddrInUse ''udp_port_range exhausted''), 0, [5000, 5000, 5001])"
proof -
  have p: "scan_ports \<lparr>range_start = 5000, range_end = 5002\<rparr> 0xFFFFFFFF = [5000, 5000, 5001]"
    by (simp add: scan_ports_def Let_def upt_rec)
  moreover have "retriable (only_5002 5000)" "retriable (only_5002 5001)"
    by (simp_all add: only_5002_def retriable_def)
  ultimately show ?thesis by (simp add: bind_with_retry_tries only_5002_def tries_Cons) (simp add: tries_def)
qed

text \<open>A UDP association that was granted and has ended, by the control connection closing,
  an idle timeout, a socket error or server shutdown, leaves the registry of live
  connections as it found it, counts one success and sends its open event first and its
  close event last, with the same id. When a domain is configured to be advertised, the
  address in the reply is one the lookup returned, of the relay socket's family and not
  unspecified; the advertised port is the relay socket's.\<close>

theorem udp_association_bracketed:
  assumes "metrics_ok m" and "ids_left m" and "wr c = []"
    and "us_local us = Some local" and "fst (bind_with_retry (us_bind us) (port_range (udp cfg)) cursor) = Inr (Some bnd)"
    and "resolve_advertise_ip cfg (sock_ip bnd) (us_advertise us) = Inr adv"
    and "fst (udp_run us cfg peer cursor c m) = (c', m', RunDone)"
  shows "live_ids m' = live_ids m \<and> metrics_ok m' \<and> successes m' = successes m + 1 \<and>
    (\<exists>es. evs c' = evs c @ [EvConnect (next_id m) peer ''udp-associate'' KindUdp] @ es @ [EvClosed (next_id m)]) \<and>
    (\<exists>ip. tx c' = tx c @ encode_reply REP_SUCCEEDED (addr_from_socket (sock_new ip (sock_port bnd))) [] \<and>
       ip = (case adv of Some ip \<Rightarrow> ip | None \<Rightarrow> sock_ip bnd) \<and>
       (\<forall>host. advertise (udp cfg) = Some (AdvertiseDomain host) \<longrightarrow>
          is_ipv4 ip = is_ipv4 (sock_ip bnd) \<and> \<not> ip_is_unspecified ip \<and>
          (\<exists>as. us_advertise us = Inr as \<and> ip \<in> sock_ip ` set as)))"
proof -
  define ip where "ip = (case adv of Some ip \<Rightarrow> ip | None \<Rightarrow> sock_ip bnd)"
  let ?out = "encode_reply REP_SUCCEEDED (addr_from_socket (sock_new ip (sock_port bnd))) []"
  let ?c = "c\<lparr>tx := tx c @ ?out\<rparr>"
  have "udp_session us cfg peer (to_canonical (sock_ip local)) ?c m = (c', m', RunDone)"
    using assms(4-7) unfolding udp_run_def ip_def
    by (auto simp: Let_def write_all_ok [OF assms(3)] split: prod.splits)
  note s = udp_session_closed [OF assms(1,2) this]
  have "is_ipv4 ip = is_ipv4 (sock_ip bnd) \<and> \<not> ip_is_unspecified ip \<and>
      (\<exists>as. us_advertise us = Inr as \<and> ip \<in> sock_ip ` set as)"
    if dom: "advertise (udp cfg) = Some (AdvertiseDomain host)" for host
  proof -
    obtain as ip' where f: "us_advertise us = Inr as" "adv = Some ip'"
      "find (\<lambda>ip. \<not> ip_is_unspecified ip \<and> is_ipv4 ip = is_ipv4 (sock_ip bnd)) (map sock_ip as) = Some ip'"
      using assms(6) unfolding resolve_advertise_ip_def dom
      by (cases "us_advertise us") (auto split: option.splits dest: sym)
    have "ip' \<in> set (map sock_ip as)" "\<not> ip_is_unspecified ip' \<and> is_ipv4 ip' = is_ipv4 (sock_ip bnd)"
      using f(3) by (auto simp: find_Some_iff simp del: set_map intro: nth_mem)
    with f(1,2) show ?thesis by (simp add: ip_def)
  qed
  then show ?thesis using s by (auto simp: ip_def)
qed

definition udp_sample_script :: udp_script where
  "udp_sample_script =
     \<lparr>us_local = Some (SockV4 (Ipv4 10 0 0 1) 1080),
      us_bind = (\<lambda>p. Inr (Some (SockV4 (Ipv4 10 0 0 1) 40000))), us_advertise = Inr [],
      us_started = 0, us_events = [(4, ControlClosed)]\<rparr>"

theorem udp_association_bracketed_witness:
  "\<exists>c' m'. fst (udp_run udp_sample_script default_config sample_client 0 idle_conn metrics_new) = (c', m', RunDone) \<and>
     successes m' = 1"
proof -
  let ?run = "udp_run udp_sample_script default_config sample_client 0 idle_conn metrics_new"
  have w: "wr idle_conn = []" by (simp add: idle_conn_def)
  have left: "ids_left metrics_new" by (simp add: ids_left_def metrics_new_def)
  have l: "us_local udp_sample_script = Some (SockV4 (Ipv4 10 0 0 1) 1080)"
    and b: "fst (bind_with_retry (us_bind udp_sample_script) (port_range (udp default_config)) 0) =
      Inr (Some (SockV4 (Ipv4 10 0 0 1) 40000))"
    and a: "resolve_advertise_ip default_config (sock_ip (SockV4 (Ipv4 10 0 0 1) 40000)) (us_advertise udp_sample_script) = Inr None"
    by (simp_all add: udp_sample_script_def bind_with_retry_def default_config_def resolve_advertise_ip_def)
  have "snd (snd (fst ?run)) = RunDone"
    by (simp add: udp_run_def udp_sample_script_def bind_with_retry_def default_config_def
        resolve_advertise_ip_def write_all_ok [OF w] udp_session_def register_def Let_def)
  then obtain c' m' where run: "fst ?run = (c', m', RunDone)" by (metis prod.collapse)
  from udp_association_bracketed [OF metrics_ok_new(1) left w l b a run] run show ?thesis
    by (simp add: metrics_new_def)
qed

end
