(* ===== verification/Admission.thy ===== *)
theory Admission
  imports Std_Net Interfaces "HOL-Library.Finite_Map"
begin

text \<open>
  \<open>src/server/admission.rs\<close>: the cap on concurrent connections, in total and per source
  address. The mutex makes \<open>try_admit\<close> and the drop of a permit atomic, so each is one
  function on the state. A drop's \<open>*c -= 1\<close> panics on zero, which is the result \<open>None\<close>.
\<close>

section \<open>Model\<close>

record admission_state =
  total :: usize
  per_ip :: "(ip_addr, usize) fmap"

record admission =
  max_total :: "usize option"
  max_per_ip :: "usize option"
  adm_state :: admission_state

definition admission_new :: "usize option \<Rightarrow> usize option \<Rightarrow> admission" where
  "admission_new mt mp =
     \<lparr>max_total = mt, max_per_ip = mp, adm_state = \<lparr>total = 0, per_ip = fmempty\<rparr>\<rparr>"

definition ip_count :: "admission_state \<Rightarrow> ip_addr \<Rightarrow> usize" where
  "ip_count st ip = (case fmlookup (per_ip st) ip of Some c \<Rightarrow> c | None \<Rightarrow> 0)"

text \<open>\<open>Some\<close> is the permit, with the state after it.\<close>

definition try_admit :: "ip_addr \<Rightarrow> admission \<Rightarrow> admission option" where
  "try_admit ip a =
     (let st = adm_state a
      in if (case max_total a of Some mx \<Rightarrow> mx \<le> total st | None \<Rightarrow> False) then None
         else if (case max_per_ip a of Some mx \<Rightarrow> mx \<le> ip_count st ip | None \<Rightarrow> False) then None
         else Some (a\<lparr>adm_state := \<lparr>total = total st + 1,
                                   per_ip = fmupd ip (ip_count st ip + 1) (per_ip st)\<rparr>\<rparr>))"

definition drop_permit :: "ip_addr \<Rightarrow> admission \<Rightarrow> admission option" where
  "drop_permit ip a =
     (let st = adm_state a; tot = total st - 1
      in case fmlookup (per_ip st) ip of
           None \<Rightarrow> Some (a\<lparr>adm_state := st\<lparr>total := tot\<rparr>\<rparr>)
         | Some c \<Rightarrow>
             if c = 0 then None
             else if c - 1 = 0
             then Some (a\<lparr>adm_state := \<lparr>total = tot, per_ip = fmdrop ip (per_ip st)\<rparr>\<rparr>)
             else Some (a\<lparr>adm_state := \<lparr>total = tot, per_ip = fmupd ip (c - 1) (per_ip st)\<rparr>\<rparr>))"

section \<open>Abstraction: the multiset of live permits\<close>

text \<open>The counters stand for the multiset of addresses that hold a permit. The map has an
  entry exactly for the addresses that hold one, so it does not grow with past clients.\<close>

definition permits :: "admission_state \<Rightarrow> ip_addr multiset" where
  "permits st = (\<Sum>ip \<in> fset (fmdom (per_ip st)). replicate_mset (ip_count st ip) ip)"

definition admission_ok :: "admission \<Rightarrow> bool" where
  "admission_ok a \<longleftrightarrow>
     (\<forall>ip c. fmlookup (per_ip (adm_state a)) ip = Some c \<longrightarrow> 0 < c) \<and>
     size (permits (adm_state a)) = total (adm_state a)"

definition fits_caps :: "usize option \<Rightarrow> usize option \<Rightarrow> ip_addr multiset \<Rightarrow> bool" where
  "fits_caps mt mp M \<longleftrightarrow>
     (\<forall>n. mt = Some n \<longrightarrow> size M \<le> n) \<and> (\<forall>n ip. mp = Some n \<longrightarrow> count M ip \<le> n)"

definition pool_ok :: "usize option \<Rightarrow> usize option \<Rightarrow> admission \<Rightarrow> bool" where
  "pool_ok mt mp a \<longleftrightarrow>
     admission_ok a \<and> max_total a = mt \<and> max_per_ip a = mp \<and> fits_caps mt mp (permits (adm_state a))"

lemma count_permits [simp]: "count (permits st) ip = ip_count st ip"
proof -
  have "count (permits st) ip
      = (\<Sum>x \<in> fset (fmdom (per_ip st)). if x = ip then ip_count st ip else 0)"
    by (simp add: permits_def count_sum)
  also have "\<dots> = ip_count st ip"
    by (auto simp: sum.delta ip_count_def fmlookup_dom_iff split: option.splits)
  finally show ?thesis .
qed

lemma permits_eqI: "(\<And>ip. ip_count st ip = count M ip) \<Longrightarrow> permits st = M"
  by (rule multiset_eqI) simp

lemma admission_new_ok: "pool_ok mt mp (admission_new mt mp)" "permits (adm_state (admission_new mt mp)) = {#}"
proof -
  show p: "permits (adm_state (admission_new mt mp)) = {#}"
    by (simp add: permits_def admission_new_def)
  show "pool_ok mt mp (admission_new mt mp)"
    unfolding pool_ok_def fits_caps_def admission_ok_def p by (simp add: admission_new_def)
qed

lemma try_admit_permits:
  assumes "try_admit ip a = Some a'"
  shows "permits (adm_state a') = add_mset ip (permits (adm_state a))"
  using assms
  by (intro permits_eqI) (auto simp: try_admit_def Let_def ip_count_def split: if_splits option.splits)

lemma try_admit_fields:
  "try_admit ip a = Some a' \<Longrightarrow>
     max_total a' = max_total a \<and> max_per_ip a' = max_per_ip a \<and>
     total (adm_state a') = total (adm_state a) + 1"
  by (auto simp: try_admit_def Let_def split: if_splits)

lemma try_admit_positive:
  assumes "\<forall>k c. fmlookup (per_ip (adm_state a)) k = Some c \<longrightarrow> 0 < c" and "try_admit ip a = Some a'"
  shows "\<forall>k c. fmlookup (per_ip (adm_state a')) k = Some c \<longrightarrow> 0 < c"
  using assms by (auto simp: try_admit_def Let_def split: if_splits)

lemma try_admit_ok: "admission_ok a \<Longrightarrow> try_admit ip a = Some a' \<Longrightarrow> admission_ok a'"
  using try_admit_permits [of ip a a'] try_admit_fields [of ip a a'] try_admit_positive [of a ip a']
  by (simp add: admission_ok_def)

lemma fits_caps_add:
  assumes "fits_caps mt mp M"
  shows "fits_caps mt mp (add_mset ip M) \<longleftrightarrow>
    (\<forall>n. mt = Some n \<longrightarrow> Suc (size M) \<le> n) \<and> (\<forall>n. mp = Some n \<longrightarrow> Suc (count M ip) \<le> n)"
  using assms by (auto simp: fits_caps_def)

lemma try_admit_iff:
  assumes "pool_ok mt mp a"
  shows "try_admit ip a \<noteq> None \<longleftrightarrow> fits_caps mt mp (add_mset ip (permits (adm_state a)))"
proof -
  have tot: "size (permits (adm_state a)) = total (adm_state a)"
    and caps: "max_total a = mt" "max_per_ip a = mp"
    and fit: "fits_caps mt mp (permits (adm_state a))"
    using assms by (auto simp: pool_ok_def admission_ok_def)
  have "try_admit ip a \<noteq> None \<longleftrightarrow>
      (\<forall>n. mt = Some n \<longrightarrow> total (adm_state a) < n) \<and>
      (\<forall>n. mp = Some n \<longrightarrow> ip_count (adm_state a) ip < n)"
    using caps by (auto simp: try_admit_def Let_def split: option.splits)
  also have "\<dots> \<longleftrightarrow> fits_caps mt mp (add_mset ip (permits (adm_state a)))"
    using fits_caps_add [OF fit, of ip] tot by (simp add: Suc_le_eq)
  finally show ?thesis .
qed

lemma drop_permit_held:
  assumes ok: "admission_ok a" and held: "ip \<in># permits (adm_state a)"
  shows "\<exists>a'. drop_permit ip a = Some a' \<and> admission_ok a' \<and>
    max_total a' = max_total a \<and> max_per_ip a' = max_per_ip a \<and>
    permits (adm_state a') = permits (adm_state a) - {#ip#}"
proof -
  have pos: "0 < ip_count (adm_state a) ip" using held by (metis count_permits count_greater_zero_iff)
  then obtain c where c: "fmlookup (per_ip (adm_state a)) ip = Some c" "0 < c"
    by (auto simp: ip_count_def split: option.splits)
  obtain a' where a': "drop_permit ip a = Some a'" using c
    by (cases "c \<le> 1") (auto simp: drop_permit_def Let_def)
  have per: "permits (adm_state a') = permits (adm_state a) - {#ip#}"
    using a' c
    by (intro permits_eqI)
      (auto simp: drop_permit_def Let_def ip_count_def fmlookup_drop split: if_splits)
  have "total (adm_state a') = total (adm_state a) - 1"
    and same: "max_total a' = max_total a" "max_per_ip a' = max_per_ip a"
    using a' c by (auto simp: drop_permit_def Let_def split: if_splits)
  moreover have "size (permits (adm_state a')) = size (permits (adm_state a)) - 1"
    using held by (simp add: per size_Diff_singleton)
  moreover have "\<forall>k d. fmlookup (per_ip (adm_state a')) k = Some d \<longrightarrow> 0 < d"
    using a' c ok
    by (auto simp: drop_permit_def Let_def fmlookup_drop admission_ok_def split: if_splits)
  ultimately have "admission_ok a'" using ok by (simp add: admission_ok_def)
  with a' per same show ?thesis by blast
qed

lemma fits_caps_mono: "fits_caps mt mp (add_mset k M) \<Longrightarrow> fits_caps mt mp M"
  unfolding fits_caps_def
  by (metis Suc_leD count_add_mset size_add_mset)

interpretation pool: permit_pool try_admit drop_permit "\<lambda>a. permits (adm_state a)"
  "pool_ok mt mp" "fits_caps mt mp" for mt mp
proof
  fix a k
  assume ok: "pool_ok mt mp a"
  show "(try_admit k a \<noteq> None) = fits_caps mt mp (add_mset k (permits (adm_state a)))"
    using ok by (rule try_admit_iff)
  fix a'
  assume s: "try_admit k a = Some a'"
  then have "fits_caps mt mp (add_mset k (permits (adm_state a)))"
    using try_admit_iff [OF ok] by (metis option.distinct(1))
  then show "pool_ok mt mp a' \<and> permits (adm_state a') = add_mset k (permits (adm_state a))"
    using ok s try_admit_permits [OF s] try_admit_fields [OF s] try_admit_ok [of a k a']
    by (simp add: pool_ok_def)
next
  fix a k
  assume ok: "pool_ok mt mp a" and held: "k \<in># permits (adm_state a)"
  then obtain a' where a': "drop_permit k a = Some a'" "admission_ok a'"
    "max_total a' = max_total a" "max_per_ip a' = max_per_ip a"
    "permits (adm_state a') = permits (adm_state a) - {#k#}"
    using drop_permit_held [of a k] by (auto simp: pool_ok_def)
  have "fits_caps mt mp (permits (adm_state a'))"
    using ok held a'(5) fits_caps_mono [of mt mp k "permits (adm_state a) - {#k#}"]
    by (simp add: pool_ok_def)
  with a' ok show "\<exists>a'. drop_permit k a = Some a' \<and> pool_ok mt mp a' \<and>
      permits (adm_state a') = permits (adm_state a) - {#k#}"
    by (auto simp: pool_ok_def)
qed (rule fits_caps_mono)

section \<open>Runs\<close>

text \<open>The states the accept loop and its tasks can drive the controller through. The ghost
  multiset is the set of permits alive: one is created by a successful \<open>try_admit\<close> and
  destroyed by its drop.\<close>

inductive pool_run :: "usize option \<Rightarrow> usize option \<Rightarrow> admission \<Rightarrow> ip_addr multiset \<Rightarrow> bool"
  for mt mp where
  fresh: "pool_run mt mp (admission_new mt mp) {#}"
| admit: "pool_run mt mp a H \<Longrightarrow> try_admit ip a = Some a' \<Longrightarrow> pool_run mt mp a' (add_mset ip H)"
| release: "pool_run mt mp a H \<Longrightarrow> ip \<in># H \<Longrightarrow> drop_permit ip a = Some a' \<Longrightarrow>
    pool_run mt mp a' (H - {#ip#})"

lemma pool_run_ok: "pool_run mt mp a H \<Longrightarrow> pool_ok mt mp a \<and> permits (adm_state a) = H"
proof (induction rule: pool_run.induct)
  case fresh
  then show ?case using admission_new_ok by blast
next
  case (admit a H ip a')
  then show ?case using pool.admit_held by blast
next
  case (release a H ip a')
  then show ?case using pool.release_held [of mt mp a ip] by auto
qed

section \<open>Properties\<close>

text \<open>In every state the controller can reach, the live permits are within the global
  cap and, for every source address, within the per-address cap; the global counter is the
  number of live permits and the per-address map has an entry, with the exact count, just
  for the addresses that hold one.\<close>

theorem admission_exact:
  assumes "pool_run mt mp a H"
  shows "(\<forall>n. mt = Some n \<longrightarrow> size H \<le> n) \<and> (\<forall>n ip. mp = Some n \<longrightarrow> count H ip \<le> n) \<and>
    total (adm_state a) = size H \<and>
    (\<forall>ip. fmlookup (per_ip (adm_state a)) ip = (if ip \<in># H then Some (count H ip) else None))"
proof -
  have ok: "pool_ok mt mp a" and H: "permits (adm_state a) = H" using pool_run_ok [OF assms] by auto
  have "fmlookup (per_ip (adm_state a)) ip = (if ip \<in># H then Some (count H ip) else None)" for ip
    using ok count_permits [of "adm_state a" ip] unfolding H pool_ok_def admission_ok_def
    by (auto simp: ip_count_def not_in_iff split: option.splits)
  with ok H show ?thesis by (auto simp: pool_ok_def admission_ok_def fits_caps_def)
qed

definition sample_ip :: ip_addr where
  "sample_ip = IpV4 (Ipv4 10 0 0 7)"

lemma sample_pool:
  "pool_run (Some 2) (Some 1) (the (try_admit sample_ip (admission_new (Some 2) (Some 1)))) {#sample_ip#}"
  using pool_run.admit [OF pool_run.fresh, of sample_ip "Some 2" "Some 1"]
  by (simp add: try_admit_def admission_new_def ip_count_def)

theorem admission_exact_witness:
  "total (adm_state (the (try_admit sample_ip (admission_new (Some 2) (Some 1))))) = 1"
  using admission_exact [OF sample_pool] by simp

text \<open>A connection is refused exactly when one more permit for its address would exceed
  the global or the per-address cap; dropping a live permit never underflows a counter and
  makes its slot available again.\<close>

theorem admission_decides:
  assumes "pool_run mt mp a H"
  shows "(try_admit ip a = None \<longleftrightarrow>
      (\<exists>n. mt = Some n \<and> n < size H + 1) \<or> (\<exists>n. mp = Some n \<and> n < count H ip + 1)) \<and>
    (ip \<in># H \<longrightarrow> (\<exists>a'. drop_permit ip a = Some a' \<and> pool_run mt mp a' (H - {#ip#}) \<and>
       try_admit ip a' \<noteq> None))"
proof
  have ok: "pool_ok mt mp a" and H: "permits (adm_state a) = H" using pool_run_ok [OF assms] by auto
  have fit: "fits_caps mt mp H" using ok H by (auto simp: pool_ok_def)
  have "try_admit ip a = None \<longleftrightarrow> \<not> fits_caps mt mp (add_mset ip H)"
    using pool.admit_iff [OF ok, of ip] H by blast
  also have "\<dots> \<longleftrightarrow> (\<exists>n. mt = Some n \<and> n < size H + 1) \<or> (\<exists>n. mp = Some n \<and> n < count H ip + 1)"
    using fits_caps_add [OF fit, of ip] by (auto simp: not_le)
  finally show "try_admit ip a = None \<longleftrightarrow>
      (\<exists>n. mt = Some n \<and> n < size H + 1) \<or> (\<exists>n. mp = Some n \<and> n < count H ip + 1)" .
  show "ip \<in># H \<longrightarrow> (\<exists>a'. drop_permit ip a = Some a' \<and> pool_run mt mp a' (H - {#ip#}) \<and>
       try_admit ip a' \<noteq> None)"
  proof
    assume held: "ip \<in># H"
    then obtain a' where a': "drop_permit ip a = Some a'"
      using pool.release_held [OF ok, of ip] H by auto
    then have "\<exists>s. try_admit ip a' = Some s"
      using pool.release_admit [OF ok, of ip a'] held H fit by auto
    with a' held assms show "\<exists>a'. drop_permit ip a = Some a' \<and> pool_run mt mp a' (H - {#ip#}) \<and>
       try_admit ip a' \<noteq> None"
      by (auto intro: pool_run.release)
  qed
qed

theorem admission_decides_witness:
  "try_admit sample_ip (the (try_admit sample_ip (admission_new (Some 2) (Some 1)))) = None"
  using admission_decides [OF sample_pool, of sample_ip] by simp

end
