(* ===== verification/Server.thy ===== *)
theory Server
  imports Udp_Relay Admission
begin

text \<open>
  \<open>src/server/connection.rs\<close>'s \<open>handle\<close>, which joins the negotiation to the command handlers:
  a client without credentials gets nothing, and one that is let in gets what its command
  promises. Then \<open>src/server/mod.rs\<close>, the accept loop. The loop is a transition system over the branches
  of its \<open>select!\<close> and the ends of the tasks it spawned; it is shown to follow an abstract
  server that only knows the multiset of addresses being served.
\<close>

section \<open>One connection\<close>

record handler_script =
  hs_connect :: connect_script
  hs_udp :: udp_script

text \<open>\<open>cursor\<close> is the UDP port cursor of the process. A negotiation still pending when the
  handshake deadline expires is dropped.\<close>

definition handle ::
  "handler_script \<Rightarrow> config \<Rightarrow> socket_addr \<Rightarrow> u32 \<Rightarrow> conn \<Rightarrow> metrics
   \<Rightarrow> (conn \<times> metrics \<times> run_status) \<times> u32" where
  "handle hs cfg peer cursor c m =
     (case negotiate cfg c of
        (c, Return) \<Rightarrow> ((c, m, RunDone), cursor)
      | (c, Pending) \<Rightarrow> ((c, m, RunDone), cursor)
      | (c, Panic) \<Rightarrow> ((c, m, RunPanicked), cursor)
      | (c, Next (req, initial)) \<Rightarrow>
          (case command req of
             Connect \<Rightarrow> (connect_run (hs_connect hs) cfg peer (address req) initial c m, cursor)
           | UdpAssociate \<Rightarrow> udp_run (hs_udp hs) cfg peer cursor c m
           | Bind \<Rightarrow>
               ((case reply_failure CommandNotSupported c of
                   (c, WrPending) \<Rightarrow> (c, m, RunReplying)
                 | (c, w) \<Rightarrow>
                     (send_event (EvError (reply_code CommandNotSupported) ''BIND not supported'') c,
                      m, RunDone)), cursor)))"

lemma negotiate_no_panic: "snd (negotiate cfg c) \<noteq> Panic"
proof -
  have "alike [] c [] c" by (simp add: alike.simps out_eq.simps)
  from negotiate_sim [OF this, of cfg] show ?thesis
    by (cases "negotiate cfg c"; cases "snd (negotiate cfg c)") auto
qed

lemma connect_failed_registry:
  "connect_failed err msg c m = (c', m', st) \<Longrightarrow> metrics_ok m \<Longrightarrow> live_ids m' = live_ids m \<and> metrics_ok m' \<and> st \<noteq> RunPanicked"
  by (auto simp: connect_failed_def metrics_ok_record split: prod.splits write_outcome.splits)

lemma connect_run_registry:
  assumes "metrics_ok m" and "ids_left m" and "connect_run sc cfg peer tgt initial c m = (c', m', RunDone)"
  shows "live_ids m' = live_ids m \<and> metrics_ok m'"
  using assms(3,1) unfolding connect_run_def
  by (auto simp: Let_def split: est_outcome.splits prod.splits write_outcome.splits
      dest: connect_failed_registry [OF _ assms(1)] session_closed [OF assms(1,2)])

lemma udp_failed_registry:
  assumes "udp_failed err msg ops c m = (c', m', st)" and "metrics_ok m"
    and "live_ids (fold metrics_step ops m) = live_ids m" and "metrics_ok (fold metrics_step ops m)"
  shows "live_ids m' = live_ids m \<and> metrics_ok m'"
  using assms by (auto simp: udp_failed_def split: prod.splits write_outcome.splits)

lemma udp_run_registry:
  assumes ok: "metrics_ok m" "ids_left m" and run: "fst (udp_run us cfg peer cursor c m) = (c', m', RunDone)"
  shows "live_ids m' = live_ids m \<and> metrics_ok m'"
  using run ok(1) unfolding udp_run_def
  by (auto simp: Let_def metrics_ok_record split: option.splits sum.splits prod.splits write_outcome.splits
      dest: udp_failed_registry [OF _ ok(1)] udp_session_closed [OF ok])

lemma connect_run_status: "connect_run sc cfg peer tgt initial c m = (c', m', st) \<Longrightarrow> st \<noteq> RunPanicked"
  by (auto simp: connect_run_def connect_session_def connect_failed_def Let_def
      split: prod.splits write_outcome.splits est_outcome.splits if_splits)

lemma udp_run_status: "fst (udp_run us cfg peer cursor c m) = (c', m', st) \<Longrightarrow> st \<noteq> RunPanicked"
  by (auto simp: udp_run_def udp_session_def udp_failed_def Let_def
      split: prod.splits write_outcome.splits option.splits sum.splits bool.splits if_splits)

lemma ids_left_new: "ids_left metrics_new"
  by (simp add: ids_left_def metrics_new_def)

section \<open>The accept loop\<close>

record task =
  t_ip :: ip_addr
  t_running :: bool

record server =
  sv_admission :: admission
  sv_tasks :: "task list"
  sv_accepting :: bool
  sv_events :: "event list"

definition server_init :: "config \<Rightarrow> server" where
  "server_init cfg =
     \<lparr>sv_admission = admission_new (max_connections (limits cfg)) (limits_config.max_per_ip (limits cfg)),
      sv_tasks = [], sv_accepting = True, sv_events = []\<rparr>"

text \<open>\<open>run\<close>: the resolver is built from the configuration first; its failure is the result.\<close>

definition server_run :: "(dns_config \<Rightarrow> 'e + 'r dns_resolver) \<Rightarrow> config \<Rightarrow> 'e + server" where
  "server_run new_resolver cfg =
     (case new_resolver (dns cfg) of
        Inl e \<Rightarrow> Inl e
      | Inr resolver \<Rightarrow> Inr (server_init cfg))"

datatype server_event =
    Accepted socket_addr
  | AcceptError string
  | TaskEnded nat \<comment> \<open>a connection's task returns and drops its permit\<close>
  | TaskReaped nat \<comment> \<open>\<open>join_next\<close> yields a task that has ended\<close>
  | ShutdownFlag "bool option"

text \<open>What the loop does with an accepted connection.\<close>

definition on_accept :: "socket_addr \<Rightarrow> server \<Rightarrow> server" where
  "on_accept peer s =
     (case try_admit (sock_ip peer) (sv_admission s) of
        None \<Rightarrow>
          s\<lparr>sv_events := sv_events s @
              [EvLog (''connection from '' @ show_sock peer @ '' rejected: limit reached'')]\<rparr>
      | Some a \<Rightarrow>
          s\<lparr>sv_admission := a, sv_tasks := sv_tasks s @ [\<lparr>t_ip = sock_ip peer, t_running = True\<rparr>]\<rparr>)"

text \<open>After the loop has stopped accepting, only \<open>join_next\<close> and the tasks go on. A drop that
  panicked would have no successor.\<close>

inductive server_step :: "server \<Rightarrow> server_event \<Rightarrow> server \<Rightarrow> bool" where
  accept: "sv_accepting s \<Longrightarrow> server_step s (Accepted peer) (on_accept peer s)"
| accept_error: "sv_accepting s \<Longrightarrow>
    server_step s (AcceptError e) (s\<lparr>sv_events := sv_events s @ [EvLog (''accept error: '' @ e)]\<rparr>)"
| task_ended: "k < length (sv_tasks s) \<Longrightarrow> t_running (sv_tasks s ! k) \<Longrightarrow>
    drop_permit (t_ip (sv_tasks s ! k)) (sv_admission s) = Some a \<Longrightarrow>
    server_step s (TaskEnded k)
      (s\<lparr>sv_admission := a, sv_tasks := (sv_tasks s)[k := (sv_tasks s ! k)\<lparr>t_running := False\<rparr>]\<rparr>)"
| task_reaped: "k < length (sv_tasks s) \<Longrightarrow> \<not> t_running (sv_tasks s ! k) \<Longrightarrow>
    server_step s (TaskReaped k) (s\<lparr>sv_tasks := take k (sv_tasks s) @ drop (Suc k) (sv_tasks s)\<rparr>)"
| shutdown_flag: "sv_accepting s \<Longrightarrow>
    server_step s (ShutdownFlag v) (s\<lparr>sv_accepting := (v = Some False)\<rparr>)"

inductive_simps server_step_simps:
  "server_step s (Accepted peer) s'" "server_step s (AcceptError e) s'"
  "server_step s (TaskEnded k) s'" "server_step s (TaskReaped k) s'" "server_step s (ShutdownFlag v) s'"

text \<open>\<open>run_with_resolver\<close> returns when it no longer accepts and every task is reaped.\<close>

definition server_returned :: "server \<Rightarrow> bool" where
  "server_returned s \<longleftrightarrow> \<not> sv_accepting s \<and> sv_tasks s = []"

section \<open>The abstract server\<close>

text \<open>The specification knows the addresses being served, who was turned away, and whether
  the server is open.\<close>

record spec =
  served :: "ip_addr multiset"
  is_open :: bool

fun spec_step :: "usize option \<Rightarrow> usize option \<Rightarrow> spec \<Rightarrow> server_event \<Rightarrow> spec \<Rightarrow> bool" where
  "spec_step mt mp a (Accepted peer) b \<longleftrightarrow>
     is_open a \<and>
     b = (if fits_caps mt mp (add_mset (sock_ip peer) (served a))
          then a\<lparr>served := add_mset (sock_ip peer) (served a)\<rparr> else a)"
| "spec_step mt mp a (AcceptError e) b \<longleftrightarrow> is_open a \<and> b = a"
| "spec_step mt mp a (TaskEnded k) b \<longleftrightarrow> (\<exists>ip. ip \<in># served a \<and> b = a\<lparr>served := served a - {#ip#}\<rparr>)"
| "spec_step mt mp a (TaskReaped k) b \<longleftrightarrow> b = a"
| "spec_step mt mp a (ShutdownFlag v) b \<longleftrightarrow> is_open a \<and> b = a\<lparr>is_open := (v = Some False)\<rparr>"

definition running_ips :: "task list \<Rightarrow> ip_addr multiset" where
  "running_ips ts = mset (map t_ip (filter t_running ts))"

definition server_abs :: "server \<Rightarrow> spec" where
  "server_abs s = \<lparr>served = running_ips (sv_tasks s), is_open = sv_accepting s\<rparr>"

text \<open>The permits counted are those of the running tasks.\<close>

definition server_ok :: "usize option \<Rightarrow> usize option \<Rightarrow> server \<Rightarrow> bool" where
  "server_ok mt mp s \<longleftrightarrow>
     pool_ok mt mp (sv_admission s) \<and> permits (adm_state (sv_admission s)) = running_ips (sv_tasks s)"

lemma server_init_ok: "server_ok (max_connections (limits cfg)) (limits_config.max_per_ip (limits cfg)) (server_init cfg)"
  using admission_new_ok by (simp add: server_ok_def server_init_def running_ips_def)

lemma running_ips_append: "running_ips (xs @ ys) = running_ips xs + running_ips ys"
  by (simp add: running_ips_def)

lemma running_ips_end:
  assumes "k < length ts" and "t_running (ts ! k)"
  shows "running_ips ts = add_mset (t_ip (ts ! k)) (running_ips (ts[k := (ts ! k)\<lparr>t_running := False\<rparr>]))"
proof -
  have ts: "ts = take k ts @ ts ! k # drop (Suc k) ts" using assms(1) by (simp add: id_take_nth_drop)
  have "ts[k := t] = take k ts @ t # drop (Suc k) ts" for t using assms(1) by (simp add: upd_conv_take_nth_drop)
  then show ?thesis using assms(2)
    by (subst ts) (simp add: running_ips_append, simp add: running_ips_def)
qed

lemma running_ips_reap:
  assumes "k < length ts" and "\<not> t_running (ts ! k)"
  shows "running_ips (take k ts @ drop (Suc k) ts) = running_ips ts"
proof -
  have ts: "ts = take k ts @ ts ! k # drop (Suc k) ts" using assms(1) by (simp add: id_take_nth_drop)
  have "running_ips ts = running_ips (take k ts @ ts ! k # drop (Suc k) ts)" using ts by simp
  also have "\<dots> = running_ips (take k ts @ drop (Suc k) ts)" using assms(2) by (simp add: running_ips_def)
  finally show ?thesis by simp
qed

lemma on_accept_ok:
  assumes ok: "server_ok mt mp s"
  shows "server_ok mt mp (on_accept peer s) \<and>
    server_abs (on_accept peer s) =
      (if fits_caps mt mp (add_mset (sock_ip peer) (running_ips (sv_tasks s)))
       then (server_abs s)\<lparr>served := add_mset (sock_ip peer) (running_ips (sv_tasks s))\<rparr> else server_abs s)"
proof -
  have p: "pool_ok mt mp (sv_admission s)" and held: "permits (adm_state (sv_admission s)) = running_ips (sv_tasks s)"
    using ok by (simp_all add: server_ok_def)
  show ?thesis
  proof (cases "try_admit (sock_ip peer) (sv_admission s)")
    case None
    then have "\<not> fits_caps mt mp (add_mset (sock_ip peer) (running_ips (sv_tasks s)))"
      using pool.admit_iff [OF p, of "sock_ip peer"] held by simp
    then show ?thesis using ok None by (simp add: on_accept_def server_ok_def server_abs_def)
  next
    case (Some a)
    then have "fits_caps mt mp (add_mset (sock_ip peer) (running_ips (sv_tasks s)))"
      using pool.admit_iff [OF p, of "sock_ip peer"] held by simp
    then show ?thesis using Some pool.admit_held [OF p Some] held
      by (simp add: on_accept_def server_ok_def server_abs_def running_ips_append) (simp add: running_ips_def)
  qed
qed

interpretation accepts: simulation server_step "spec_step mt mp" server_abs "server_ok mt mp" for mt mp
proof
  fix s e s'
  assume ok: "server_ok mt mp s" and step: "server_step s e s'"
  from step have "server_ok mt mp s' \<and> spec_step mt mp (server_abs s) e (server_abs s')"
  proof cases
    case (accept peer)
    then show ?thesis using on_accept_ok [OF ok, of peer] by (simp add: server_abs_def)
  next
    case (task_ended k a)
    let ?ts = "(sv_tasks s)[k := (sv_tasks s ! k)\<lparr>t_running := False\<rparr>]"
    have r: "running_ips (sv_tasks s) = add_mset (t_ip (sv_tasks s ! k)) (running_ips ?ts)"
      using task_ended by (intro running_ips_end) simp_all
    have "pool_ok mt mp a \<and> permits (adm_state a) = running_ips ?ts"
      using pool.release_held [of mt mp "sv_admission s" "t_ip (sv_tasks s ! k)"] ok r task_ended
      by (simp add: server_ok_def)
    with r task_ended show ?thesis
      by (auto simp: server_ok_def server_abs_def intro!: exI [of _ "t_ip (sv_tasks s ! k)"])
  next
    case (task_reaped k)
    then show ?thesis using ok by (simp add: server_ok_def server_abs_def running_ips_reap)
  qed (use ok in \<open>simp_all add: server_ok_def server_abs_def\<close>)
  then show "server_ok mt mp s'" "spec_step mt mp (server_abs s) e (server_abs s')" by simp_all
qed

lemma running_ips_count:
  "size (running_ips ts) = length (filter t_running ts)"
  "count (running_ips ts) ip = length (filter (\<lambda>t. t_running t \<and> t_ip t = ip) ts)"
  by (induction ts) (simp_all add: running_ips_def)

section \<open>Winding down\<close>

text \<open>The events left: two for a running task, one for an ended one.\<close>

definition work :: "task list \<Rightarrow> nat" where
  "work ts = (\<Sum>t \<leftarrow> ts. if t_running t then 2 else 1)"

lemma work_le: "work ts \<le> 2 * length ts"
  by (induction ts) (simp_all add: work_def)

lemma split_nth: "k < length ts \<Longrightarrow> work ts = work (take k ts) + work [ts ! k] + work (drop (Suc k) ts)"
  by (subst id_take_nth_drop [of k ts]) (simp_all add: work_def)

lemma work_end:
  assumes "k < length ts" and "t_running (ts ! k)"
  shows "Suc (work (ts[k := (ts ! k)\<lparr>t_running := False\<rparr>])) = work ts"
  using assms split_nth [OF assms(1)] split_nth [of k "ts[k := (ts ! k)\<lparr>t_running := False\<rparr>]"]
  by (simp add: work_def)

lemma work_reap:
  assumes "k < length ts" and "\<not> t_running (ts ! k)"
  shows "Suc (work (take k ts @ drop (Suc k) ts)) = work ts"
  using assms split_nth [OF assms(1)] by (simp add: work_def)

lemma closed_step:
  assumes "server_step s e t" and "\<not> sv_accepting s"
  shows "\<not> sv_accepting t \<and> Suc (work (sv_tasks t)) = work (sv_tasks s) \<and> length (sv_tasks t) \<le> length (sv_tasks s)"
  using assms by cases (simp_all add: work_end work_reap)

lemma closed_run:
  assumes "steps server_step s fs t" and "\<not> sv_accepting s"
  shows "\<not> sv_accepting t \<and> length fs + work (sv_tasks t) = work (sv_tasks s) \<and>
    length (sv_tasks t) \<le> length (sv_tasks s)"
  using assms
proof (induction rule: steps.induct)
  case (steps_snoc s fs t e u)
  then show ?case using closed_step [of t e u] by auto
qed simp

lemma task_progress:
  assumes ok: "server_ok mt mp s" and k: "k < length (sv_tasks s)"
  shows "\<exists>u. server_step s (if t_running (sv_tasks s ! k) then TaskEnded k else TaskReaped k) u"
proof (cases "t_running (sv_tasks s ! k)")
  case True
  have "t_ip (sv_tasks s ! k) \<in># running_ips (sv_tasks s)"
    using running_ips_end [OF k True] by simp
  then obtain a where "drop_permit (t_ip (sv_tasks s ! k)) (sv_admission s) = Some a"
    using pool.release_held [of mt mp "sv_admission s" "t_ip (sv_tasks s ! k)"] ok
    by (auto simp: server_ok_def)
  with k True show ?thesis by (simp add: server_step_simps)
next
  case False
  with k show ?thesis by (simp add: server_step_simps)
qed

section \<open>Properties\<close>

text \<open>C2: without a configured user's credentials in its stream, a client of a server that
  requires a password gets nothing but handshake replies: whatever it sends, however its
  bytes arrive and whatever the network does, the negotiation hands no request to any
  handler, nothing is registered or counted, and the UDP port cursor does not move; all the
  client is ever sent is a beginning of the refusal of its methods, or of the choice of
  password authentication and the refusal of its credentials; and the only event there can
  be is one failed authentication.\<close>

theorem handle_unauthenticated:
  assumes "wants_password cfg"
    and "\<not> (\<exists>ms u p rest. stream_data (rx c) = greeting_msg ms @ userpass_msg (as_bytes u) (as_bytes p) @ rest \<and>
            credentials_ok cfg u p)"
  shows "(\<forall>q. snd (negotiate cfg c) \<noteq> Next q) \<and>
    (\<exists>c' n reply. handle hs cfg peer cursor c m = ((c', m, RunDone), cursor) \<and>
       reply \<in> {[5, 0xFF], [5, 2, 1, 1]} \<and> tx c' = tx c @ take n reply \<and>
       (evs c' = evs c \<or> (\<exists>u. evs c' = evs c @ [EvAuth False u])))"
proof -
  obtain c1 r where n: "negotiate cfg c = (c1, r)" by fastforce
  note st = negotiate_stops [OF assms(1) n assms(2)]
  have "r \<noteq> Panic" using negotiate_no_panic [of cfg c] n by simp
  then have "handle hs cfg peer cursor c m = ((c1, m, RunDone), cursor)"
    using n st by (cases r) (auto simp: handle_def)
  then show ?thesis using n st by auto
qed

definition no_script :: handler_script where
  "no_script = \<lparr>hs_connect = blocked_script, hs_udp = udp_sample_script\<rparr>"

theorem handle_unauthenticated_witness:
  "(\<forall>q. snd (negotiate pass_config idle_conn) \<noteq> Next q) \<and>
   (\<exists>c' n reply. handle no_script pass_config sample_client 3 idle_conn metrics_new = ((c', metrics_new, RunDone), 3) \<and>
      reply \<in> {[5, 0xFF], [5, 2, 1, 1]} \<and> tx c' = tx idle_conn @ take n reply \<and>
      (evs c' = evs idle_conn \<or> (\<exists>u. evs c' = evs idle_conn @ [EvAuth False u])))"
proof (rule handle_unauthenticated)
  show "wants_password pass_config" by (rule Negotiation.sample_client(1))
  show "\<not> (\<exists>ms u p rest. stream_data (rx idle_conn) = greeting_msg ms @ userpass_msg (as_bytes u) (as_bytes p) @ rest \<and>
            credentials_ok pass_config u p)"
    by (simp add: idle_conn_def greeting_msg_def)
qed

text \<open>What the program promises a client whose request got through, on every outcome: the
  command's reply, its events, and what happens to the shared metrics.\<close>

definition failed_with ::
  "socks5_error \<Rightarrow> (metrics \<Rightarrow> metrics) \<Rightarrow> metrics \<Rightarrow> metrics \<Rightarrow> bytes \<Rightarrow> event list \<Rightarrow> bool" where
  "failed_with err tally m m' reply es \<longleftrightarrow>
     reply = [5, reply_code err, 0, 1, 0, 0, 0, 0, 0, 0] \<and> m' = tally m \<and>
     (\<exists>msg. es = [EvError (reply_code err) msg])"

definition session_held ::
  "socket_addr \<Rightarrow> string \<Rightarrow> conn_kind \<Rightarrow> metrics \<Rightarrow> metrics \<Rightarrow> event list \<Rightarrow> bool" where
  "session_held peer target kind m m' es \<longleftrightarrow>
     live_ids m' = live_ids m \<and> metrics_ok m' \<and> successes m' = successes m + 1 \<and>
     (\<exists>inner. es = [EvConnect (next_id m) peer target kind] @ inner @ [EvClosed (next_id m)])"

definition connect_served ::
  "connect_script \<Rightarrow> config \<Rightarrow> socket_addr \<Rightarrow> address \<Rightarrow> metrics \<Rightarrow> metrics \<Rightarrow> bytes \<Rightarrow> event list \<Rightarrow> bool" where
  "connect_served sc cfg peer target m m' reply es \<longleftrightarrow>
     (case snd (establish target cfg (sc_started sc)
             (sc_started sc + from_millis (connect_ms (timeouts cfg))) (sc_direct sc) (sc_events sc)) of
        Waiting \<Rightarrow> False
      | Failed e \<Rightarrow>
          (case e of
             EstDns d \<Rightarrow> failed_with HostUnreachable (\<lambda>m. record_error m 4) m m' reply es
           | EstBlocked \<Rightarrow> failed_with NotAllowed (\<lambda>m. record_error m 2) m m' reply es
           | EstDial (IoError k text) \<Rightarrow>
               failed_with (from_io k) (\<lambda>m. record_error m (reply_code (from_io k))) m m' reply es)
      | Connected u \<Rightarrow>
          parse_reply reply = Some (REP_SUCCEEDED,
            case up_local u of Some a \<Rightarrow> addr_from_socket a | None \<Rightarrow> V4 ipv4_unspecified 0, length reply) \<and>
          session_held peer (address_to_string target) KindConnect m m' es)"

definition udp_served ::
  "udp_script \<Rightarrow> config \<Rightarrow> socket_addr \<Rightarrow> u32 \<Rightarrow> metrics \<Rightarrow> metrics \<Rightarrow> bytes \<Rightarrow> event list \<Rightarrow> bool" where
  "udp_served us cfg peer cursor m m' reply es \<longleftrightarrow>
     (case us_local us of
        None \<Rightarrow> reply = [] \<and> es = [] \<and> m' = m
      | Some local \<Rightarrow>
          (case fst (bind_with_retry (us_bind us) (port_range (udp cfg)) cursor) of
             Inl e \<Rightarrow> failed_with General (\<lambda>m. m) m m' reply es
           | Inr None \<Rightarrow> reply = [] \<and> es = [] \<and> m' = m
           | Inr (Some bnd) \<Rightarrow>
               (case resolve_advertise_ip cfg (sock_ip bnd) (us_advertise us) of
                  Inl e \<Rightarrow> failed_with HostUnreachable (\<lambda>m. record_error m 4) m m' reply es
                | Inr adv \<Rightarrow>
                    parse_reply reply = Some (REP_SUCCEEDED,
                      addr_from_socket (sock_new (case adv of Some ip \<Rightarrow> ip | None \<Rightarrow> sock_ip bnd) (sock_port bnd)),
                      length reply) \<and>
                    session_held peer ''udp-associate'' KindUdp m m' es)))"

text \<open>The client sees at its offset in the output what a handler wrote.\<close>

lemma connect_serves:
  assumes "metrics_ok m" and "ids_left m" and "wr c = []"
    and "connect_run sc cfg peer target initial c m = (c', m', RunDone)"
  shows "\<exists>reply es. tx c' = tx c @ reply \<and> evs c' = evs c @ es \<and> connect_served sc cfg peer target m m' reply es"
proof (cases "snd (establish target cfg (sc_started sc)
    (sc_started sc + from_millis (connect_ms (timeouts cfg))) (sc_direct sc) (sc_events sc))")
  case Waiting
  then show ?thesis using assms(4) by (simp add: connect_run_def Let_def)
next
  case (Failed e)
  from connect_failed_run [OF assms(3) this, of peer initial m] assms(4) obtain err msg where
    "m' = record_error m (reply_code err)" "tx c' = tx c @ [5, reply_code err, 0, 1, 0, 0, 0, 0, 0, 0]"
    "evs c' = evs c @ [EvError (reply_code err) msg]"
    "case e of EstDns d \<Rightarrow> err = HostUnreachable | EstBlocked \<Rightarrow> err = NotAllowed
     | EstDial (IoError k text) \<Rightarrow> err = from_io k" by auto
  then show ?thesis using Failed
    by (auto simp: connect_served_def failed_with_def split: establish_error.splits io_error.splits)
next
  case (Connected u)
  note s = connect_session_bracketed [OF assms(1-3) Connected assms(4)]
  then obtain reply where "tx c' = tx c @ reply" "parse_reply reply = Some (REP_SUCCEEDED,
      case up_local u of Some a \<Rightarrow> addr_from_socket a | None \<Rightarrow> V4 ipv4_unspecified 0, length reply)" by blast
  with s Connected show ?thesis
    by (intro exI [of _ reply]) (auto simp: connect_served_def session_held_def)
qed

lemma udp_failed_serves:
  assumes "udp_failed err msg ops c m = (c', m', RunDone)" and "wr c = []"
  shows "\<exists>reply es. tx c' = tx c @ reply \<and> evs c' = evs c @ es \<and> failed_with err (fold metrics_step ops) m m' reply es"
  using assms by (auto simp: udp_failed_def reply_failure_def failure_bytes write_all_ok failed_with_def send_event_def)

lemma udp_serves:
  assumes ok: "metrics_ok m" "ids_left m" "wr c = []" and run: "fst (udp_run us cfg peer cursor c m) = (c', m', RunDone)"
  shows "\<exists>reply es. tx c' = tx c @ reply \<and> evs c' = evs c @ es \<and> udp_served us cfg peer cursor m m' reply es"
proof (cases "us_local us")
  case None
  then show ?thesis using run by (simp add: udp_run_def udp_served_def)
next
  case (Some local)
  obtain bound cur tried where b: "bind_with_retry (us_bind us) (port_range (udp cfg)) cursor = (bound, cur, tried)"
    by (metis prod.collapse)
  note failed = udp_failed_serves [OF _ ok(3)]
  show ?thesis
  proof (cases bound)
    case (Inl e)
    then show ?thesis using run Some b failed by (fastforce simp: udp_run_def udp_served_def Let_def failed_with_def)
  next
    case (Inr bnd)
    show ?thesis
    proof (cases bnd)
      case None
      then show ?thesis using run Some b Inr by (simp add: udp_run_def udp_served_def Let_def)
    next
      case bl: (Some bnd_local)
      show ?thesis
      proof (cases "resolve_advertise_ip cfg (sock_ip bnd_local) (us_advertise us)")
        case (Inl e)
        then show ?thesis using run Some b Inr bl failed by (fastforce simp: udp_run_def udp_served_def Let_def failed_with_def)
      next
        case a: (Inr adv)
        have "fst (bind_with_retry (us_bind us) (port_range (udp cfg)) cursor) = Inr (Some bnd_local)"
          using b Inr bl by simp
        note s = udp_association_bracketed [OF ok Some this a run]
        then have ip: "tx c' = tx c @ encode_reply REP_SUCCEEDED
            (addr_from_socket (sock_new (case adv of Some ip \<Rightarrow> ip | None \<Rightarrow> sock_ip bnd_local) (sock_port bnd_local))) []"
          by blast
        then show ?thesis using s Some b Inr bl a
          by (auto simp: udp_served_def session_held_def reads_reply)
      qed
    qed
  qed
qed

text \<open>C3: the whole of a served connection. When the handler of a client that offers the
  required method, authenticates as a configured user where that is required and sends a
  well-formed request has ended, the client has received, after the method and the
  authentication status, exactly the reply its command and the network's answers call for:
  for CONNECT a success naming the upstream's local address (0.0.0.0:0 when the system cannot
  tell it) or the failure reply of what went wrong, for UDP ASSOCIATE a success naming the advertised address and the relay's port
  or a failure reply, and 0x07 for BIND. The events are the authentication and then either
  one error with the reply's code or a session's open event first and its close event last.
  The metrics count one success for a session that was opened, leave no connection
  registered, and for a failure record the reply's code, except that a BIND request and a
  failed UDP bind are not recorded. In one case a served request is dropped in silence: when
  the system cannot tell the local address of the control connection or of the relay socket
  it has just bound, UDP ASSOCIATE ends with no reply, no event and nothing recorded.\<close>

theorem handle_serves:
  assumes "metrics_ok m" and "ids_left m" and "wr c = []" and "length ms \<le> 255"
    and "required_method cfg \<in> set ms"
    and "wants_password cfg \<longrightarrow> sendable u \<and> sendable p \<and> credentials_ok cfg u p"
    and "wf_address (address req)"
    and "stream_data (rx c) = greeting_msg ms @ auth_msg cfg u p @ request_msg rsv req @ payload"
    and "handle hs cfg peer cursor c m = ((c', m', RunDone), cursor')"
  shows "\<exists>reply es.
    tx c' = tx c @ [5, required_method cfg] @ (if wants_password cfg then [1, 0] else []) @ reply \<and>
    evs c' = evs c @ (if wants_password cfg then [EvAuth True u] else []) @ es \<and>
    (case command req of
       Connect \<Rightarrow> connect_served (hs_connect hs) cfg peer (address req) m m' reply es
     | UdpAssociate \<Rightarrow> udp_served (hs_udp hs) cfg peer cursor m m' reply es
     | Bind \<Rightarrow> failed_with CommandNotSupported (\<lambda>m. m) m m' reply es)"
proof -
  from negotiate_ok [OF assms(3-8)] obtain c1 tail where n: "negotiate cfg c = (c1, Next (req, tail))"
    "tx c1 = tx c @ [5, required_method cfg] @ (if wants_password cfg then [1, 0] else [])"
    "evs c1 = evs c @ (if wants_password cfg then [EvAuth True u] else [])" "wr c1 = []" by blast
  have "\<exists>reply es. tx c' = tx c1 @ reply \<and> evs c' = evs c1 @ es \<and>
    (case command req of
       Connect \<Rightarrow> connect_served (hs_connect hs) cfg peer (address req) m m' reply es
     | UdpAssociate \<Rightarrow> udp_served (hs_udp hs) cfg peer cursor m m' reply es
     | Bind \<Rightarrow> failed_with CommandNotSupported (\<lambda>m. m) m m' reply es)"
  proof (cases "command req")
    case Connect
    then have "connect_run (hs_connect hs) cfg peer (address req) tail c1 m = (c', m', RunDone)"
      using assms(9) n(1) by (simp add: handle_def)
    from connect_serves [OF assms(1,2) n(4) this] Connect show ?thesis by simp
  next
    case UdpAssociate
    then have "fst (udp_run (hs_udp hs) cfg peer cursor c1 m) = (c', m', RunDone)"
      using assms(9) n(1) by (simp add: handle_def)
    from udp_serves [OF assms(1,2) n(4) this] UdpAssociate show ?thesis by simp
  next
    case Bind
    then show ?thesis using assms(9) n(1,4) failure_bytes [of CommandNotSupported]
      by (auto simp: handle_def reply_failure_def write_all_ok failed_with_def send_event_def)
  qed
  with n(2,3) show ?thesis by auto
qed

definition answering_script :: handler_script where
  "answering_script = \<lparr>hs_connect = shutdown_script, hs_udp = udp_sample_script\<rparr>"

theorem handle_serves_witness:
  "\<exists>c' m' rest. handle answering_script pass_config sample_client 3 byte_reads metrics_new = ((c', m', RunDone), 3) \<and>
     tx c' = [5, 2, 1, 0] @ rest \<and> parse_reply rest = Some (REP_SUCCEEDED, V4 ipv4_unspecified 0, length rest) \<and>
     successes m' = 1 \<and> live_ids m' = {}"
proof -
  let ?run = "handle answering_script pass_config sample_client 3 byte_reads metrics_new"
  from negotiate_ok [of byte_reads "[2]" pass_config "''u''" "''p''" sample_request 0 "[71, 69, 84]"]
  obtain c1 tail where n: "negotiate pass_config byte_reads = (c1, Next (sample_request, tail))" "wr c1 = []"
    using Negotiation.sample_client by auto
  have e: "snd (establish (address sample_request) pass_config (sc_started shutdown_script)
      (sc_started shutdown_script + from_millis (connect_ms (timeouts pass_config)))
      (sc_direct shutdown_script) (sc_events shutdown_script)) = Connected \<lparr>up_local = None\<rparr>"
    by (simp add: shutdown_script_def sample_request_def dial_one_def v4_blocked_def pass_config_def)
  have "?run = (connect_run shutdown_script pass_config sample_client (address sample_request) tail c1 metrics_new, 3)"
    by (simp add: handle_def n answering_script_def) (simp add: sample_request_def)
  moreover have "snd (snd (connect_run shutdown_script pass_config sample_client (address sample_request) tail c1 metrics_new)) = RunDone"
    by (simp only: connect_run_connected [OF e n(2)] shutdown_session_ends)
  ultimately have "snd ?run = 3 \<and> snd (snd (fst ?run)) = RunDone" by simp
  then obtain c' m' where run: "?run = ((c', m', RunDone), 3)" by (metis prod.collapse)
  have left: "ids_left metrics_new" by (rule ids_left_new)
  from handle_serves [OF metrics_ok_new(1) left _ _ _ _ _ _ run, of "[2]" "''u''" "''p''" sample_request 0 "[71, 69, 84]"]
  show ?thesis using run Negotiation.sample_client e
    by (auto simp: answering_script_def connect_served_def session_held_def sample_request_def
        required_method_eq METHOD_USERPASS_def byte_reads_def metrics_new_def live_ids_def)
qed

text \<open>On every path out of a connection's handler (refused, failed, timed out, relayed to
  the end, or shut down) the registry of live connections is as the handler found it and
  still well formed, and the handler never panics.\<close>

theorem handle_leaves_registry:
  assumes "metrics_ok m" and "ids_left m" and "handle hs cfg peer cursor c m = ((c', m', st), cursor')"
  shows "st \<noteq> RunPanicked \<and> (st = RunDone \<longrightarrow> live_ids m' = live_ids m \<and> metrics_ok m')"
proof -
  obtain c1 r where n: "negotiate cfg c = (c1, r)" by fastforce
  have np: "r \<noteq> Panic" using negotiate_no_panic [of cfg c] n by simp
  show ?thesis
  proof (cases r)
    case (Next v)
    obtain req initial where v: "v = (req, initial)" by (cases v)
    show ?thesis
    proof (cases "command req")
      case Connect
      then have "connect_run (hs_connect hs) cfg peer (address req) initial c1 m = (c', m', st)"
        using assms(3) n Next v by (simp add: handle_def)
      then show ?thesis using connect_run_registry [OF assms(1,2)] connect_run_status by blast
    next
      case UdpAssociate
      then have "fst (udp_run (hs_udp hs) cfg peer cursor c1 m) = (c', m', st)"
        using assms(3) n Next v by (simp add: handle_def)
      then show ?thesis using udp_run_registry [OF assms(1,2)] udp_run_status by blast
    next
      case Bind
      then show ?thesis using assms n Next v
        by (auto simp: handle_def split: prod.splits write_outcome.splits)
    qed
  qed (use assms n np in \<open>auto simp: handle_def\<close>)
qed

theorem handle_leaves_registry_witness:
  "snd (snd (fst (handle no_script pass_config sample_client 3 idle_conn metrics_new))) \<noteq> RunPanicked"
  using handle_leaves_registry [of metrics_new no_script pass_config sample_client 3 idle_conn,
      OF metrics_ok_new(1)]
  by (metis ids_left_new prod.collapse)

text \<open>C4: the accept loop with its shared counters follows the abstract server event by event:
  a connection is served exactly when one more from its address fits the caps, whatever
  the order of accepts and task ends; so the tasks running at any time are within
  \<open>max_connections\<close> in all and \<open>max_per_ip\<close> for each address.\<close>

theorem server_refines:
  assumes "steps server_step (server_init cfg) es s"
    and "mt = max_connections (limits cfg)" and "mp = limits_config.max_per_ip (limits cfg)"
  shows "steps (spec_step mt mp) \<lparr>served = {#}, is_open = True\<rparr> es (server_abs s) \<and>
    (\<forall>n. mt = Some n \<longrightarrow> length (filter t_running (sv_tasks s)) \<le> n) \<and>
    (\<forall>n ip. mp = Some n \<longrightarrow> length (filter (\<lambda>t. t_running t \<and> t_ip t = ip) (sv_tasks s)) \<le> n)"
proof -
  have i: "server_ok mt mp (server_init cfg)" using server_init_ok [of cfg] assms(2,3) by simp
  have abs0: "server_abs (server_init cfg) = \<lparr>served = {#}, is_open = True\<rparr>"
    by (simp add: server_abs_def server_init_def running_ips_def)
  have "server_ok mt mp s" using accepts.run_inv [OF assms(1) i] .
  then have fit: "fits_caps mt mp (running_ips (sv_tasks s))" by (auto simp: server_ok_def pool_ok_def)
  then have "\<forall>n. mt = Some n \<longrightarrow> length (filter t_running (sv_tasks s)) \<le> n"
    and "\<forall>n ip. mp = Some n \<longrightarrow> length (filter (\<lambda>t. t_running t \<and> t_ip t = ip) (sv_tasks s)) \<le> n"
    by (simp_all add: fits_caps_def running_ips_count)
  then show ?thesis using accepts.run_sim [OF assms(1) i] abs0 by simp
qed

definition sample_server :: server where
  "sample_server = on_accept sample_client (server_init default_config)"

lemma sample_server_run: "steps server_step (server_init default_config) [Accepted sample_client] sample_server"
  unfolding sample_server_def by (intro steps_one server_step.accept) (simp add: server_init_def)

theorem server_refines_witness:
  "steps (spec_step (max_connections (limits default_config)) (limits_config.max_per_ip (limits default_config)))
     \<lparr>served = {#}, is_open = True\<rparr> [Accepted sample_client] (server_abs sample_server)"
  using server_refines [OF sample_server_run refl refl] by simp

text \<open>C20: once the loop has stopped accepting, the server winds down whatever the order of
  the remaining events: it takes on no connection, every event is the end of a running task
  or the reaping of an ended one, so there are at most two of them for each task; a running
  task can always end (the drop of its permit does not panic), an ended one can always be
  reaped, and when there is nothing left to do the server has returned with every slot
  free.\<close>

theorem server_drains:
  assumes "steps server_step (server_init cfg) es s" and "\<not> sv_accepting s"
    and "steps server_step s fs t"
  shows "length fs + work (sv_tasks t) = work (sv_tasks s) \<and> length (sv_tasks t) \<le> length (sv_tasks s) \<and>
    work (sv_tasks s) \<le> 2 * length (sv_tasks s) \<and>
    (\<forall>k < length (sv_tasks t). \<exists>u. server_step t (if t_running (sv_tasks t ! k) then TaskEnded k else TaskReaped k) u) \<and>
    (server_returned t \<longleftrightarrow> (\<forall>e u. \<not> server_step t e u)) \<and>
    (server_returned t \<longrightarrow> permits (adm_state (sv_admission t)) = {#})"
proof -
  note i = server_init_ok [of cfg]
  have "server_ok (max_connections (limits cfg)) (limits_config.max_per_ip (limits cfg)) t"
    using accepts.run_inv [OF steps_append [OF assms(3,1)] i] .
  moreover have closed: "\<not> sv_accepting t" and len: "length fs + work (sv_tasks t) = work (sv_tasks s)"
    "length (sv_tasks t) \<le> length (sv_tasks s)"
    using closed_run [OF assms(3,2)] by simp_all
  moreover have live: "\<exists>u. server_step t (if t_running (sv_tasks t ! k) then TaskEnded k else TaskReaped k) u"
    if "k < length (sv_tasks t)" for k
    using task_progress [OF calculation(1) that] .
  moreover have "server_returned t \<longleftrightarrow> (\<forall>e u. \<not> server_step t e u)"
    using live closed by (fastforce simp: server_returned_def elim: server_step.cases)
  moreover have "permits (adm_state (sv_admission t)) = {#}" if "server_returned t"
    using calculation(1) that by (simp add: server_returned_def server_ok_def running_ips_def)
  ultimately show ?thesis using work_le by simp
qed

definition closing_server :: server where
  "closing_server = sample_server\<lparr>sv_accepting := False\<rparr>"

lemma closing_server_run:
  "steps server_step (server_init default_config) [Accepted sample_client, ShutdownFlag None] closing_server"
  using steps_snoc [OF sample_server_run, of "ShutdownFlag None" closing_server]
    server_step.shutdown_flag [of sample_server None]
  by (simp add: closing_server_def sample_server_def on_accept_def server_init_def split: option.split)

theorem server_drains_witness:
  "work (sv_tasks closing_server) \<le> 2 * length (sv_tasks closing_server)"
  using server_drains [OF closing_server_run _ steps_Nil] by (simp add: closing_server_def)

end
