(* ===== verification/System.thy ===== *)
theory System
  imports Server
begin

text \<open>
  The composition of the accept loop, the connection handlers and the metrics they share. A
  handler touches the metrics only by a few calls, in an order a small state machine describes
  (\<open>phase\<close>): the handler of \<open>Server\<close> is shown to follow it. A call is one step here; \<open>Atomics\<close>
  splits it into the atomic operations the code makes. The system is then the interleaving of the accept loop's steps
  with those calls of all its tasks, on one registry.
\<close>

section \<open>The metrics calls of one task\<close>

datatype phase =
    Starting
  | Open u64
  | Counted u64 \<comment> \<open>its success is recorded\<close>
  | Released

datatype task_op =
    TkError u8
  | TkOpen socket_addr string conn_kind
  | TkUp u64
  | TkDown u64
  | TkSuccess
  | TkClose

fun phase_step :: "task_op \<Rightarrow> phase \<Rightarrow> metrics \<Rightarrow> (phase \<times> metrics) option" where
  "phase_step (TkError code) Starting m = Some (Released, record_error m code)"
| "phase_step (TkOpen src target kind) Starting m =
     (case register m src target kind of (i, m) \<Rightarrow> Some (Open i, m))"
| "phase_step (TkUp n) (Open i) m = Some (Open i, add_up m i n)"
| "phase_step (TkDown n) (Open i) m = Some (Open i, add_down m i n)"
| "phase_step TkSuccess (Open i) m = Some (Counted i, record_success m)"
| "phase_step TkClose (Counted i) m = Some (Released, unregister m i)"
| "phase_step _ _ m = None"

fun task_run :: "task_op list \<Rightarrow> phase \<Rightarrow> metrics \<Rightarrow> (phase \<times> metrics) option" where
  "task_run [] p m = Some (p, m)"
| "task_run (op # ops) p m =
     (case phase_step op p m of None \<Rightarrow> None | Some (p, m) \<Rightarrow> task_run ops p m)"

fun_cases phase_stepE: "phase_step op p m = Some (q, n)"

text \<open>The calls a phase allows, with what each does.\<close>

lemma phase_step_cases:
  assumes "phase_step op p m = Some (q, n)"
  obtains (fails) code where "op = TkError code" "p = Starting" "q = Released" "n = record_error m code"
  | (opens) src target kind where "op = TkOpen src target kind" "p = Starting" "q = Open (next_id m)"
      "n = snd (register m src target kind)"
  | (up) i b where "op = TkUp b" "p = Open i" "q = Open i" "n = add_up m i b"
  | (down) i b where "op = TkDown b" "p = Open i" "q = Open i" "n = add_down m i b"
  | (success) i where "op = TkSuccess" "p = Open i" "q = Counted i" "n = record_success m"
  | (closes) i where "op = TkClose" "p = Counted i" "q = Released" "n = unregister m i"
  using assms by (elim phase_stepE) (auto simp: register_def Let_def)

text \<open>The session events a task sends right after each call.\<close>

fun session_event :: "event \<Rightarrow> bool" where
  "session_event (EvConnect i src target kind) = True"
| "session_event (EvClosed i) = True"
| "session_event ev = False"

fun call_events :: "task_op \<Rightarrow> phase \<Rightarrow> metrics \<Rightarrow> event list" where
  "call_events (TkOpen src target kind) p m = [EvConnect (next_id m) src target kind]"
| "call_events TkClose (Counted i) m = [EvClosed i]"
| "call_events op p m = []"

text \<open>Each call as the handler's journal has it, with the session event sent right after it.\<close>

fun call_acts :: "task_op \<Rightarrow> phase \<Rightarrow> metrics \<Rightarrow> act list" where
  "call_acts (TkError code) p m = [Called (OpError code)]"
| "call_acts (TkOpen src target kind) p m =
     [Called (OpRegister src target kind), Told (EvConnect (next_id m) src target kind)]"
| "call_acts (TkUp n) (Open i) m = [Called (OpUp i n)]"
| "call_acts (TkDown n) (Open i) m = [Called (OpDown i n)]"
| "call_acts TkSuccess p m = [Called OpSuccess]"
| "call_acts TkClose (Counted i) m = [Called (OpUnregister i), Told (EvClosed i)]"
| "call_acts op p m = []"

fun task_acts :: "task_op list \<Rightarrow> phase \<Rightarrow> metrics \<Rightarrow> act list" where
  "task_acts [] p m = []"
| "task_acts (op # ops) p m =
     call_acts op p m @ (case phase_step op p m of None \<Rightarrow> [] | Some (p, m) \<Rightarrow> task_acts ops p m)"

fun session_act :: "act \<Rightarrow> bool" where
  "session_act (Called op) = True"
| "session_act (Told e) = session_event e"

fun events_of :: "act list \<Rightarrow> event list" where
  "events_of [] = []"
| "events_of (Called op # as) = events_of as"
| "events_of (Told e # as) = e # events_of as"

text \<open>The phase a handler is in when it stops with a status.\<close>

fun phase_at :: "run_status \<Rightarrow> phase \<Rightarrow> bool" where
  "phase_at RunDone p \<longleftrightarrow> p = Starting \<or> p = Released"
| "phase_at (RunRelaying i) p \<longleftrightarrow> p = Open i"
| "phase_at (RunInitial i) p \<longleftrightarrow> p = Open i"
| "phase_at RunEstablishing p \<longleftrightarrow> p = Starting"
| "phase_at RunReplying p \<longleftrightarrow> p = Starting"
| "phase_at RunPanicked p \<longleftrightarrow> False"

section \<open>The interleaving\<close>

record system =
  sy_server :: server
  sy_metrics :: metrics
  sy_phases :: "phase list" \<comment> \<open>one for each of the server's tasks\<close>

definition system_init :: "config \<Rightarrow> system" where
  "system_init cfg = \<lparr>sy_server = server_init cfg, sy_metrics = metrics_new, sy_phases = []\<rparr>"

datatype system_event = SysServer server_event | SysTask nat task_op

fun phase_ids :: "phase \<Rightarrow> u64 list" where
  "phase_ids (Open i) = [i]"
| "phase_ids (Counted i) = [i]"
| "phase_ids p = []"

text \<open>What is kept for each task appears with it and goes with it.\<close>

fun slots_after :: "'a \<Rightarrow> server_event \<Rightarrow> server \<Rightarrow> 'a list \<Rightarrow> 'a list" where
  "slots_after new (Accepted peer) s xs =
     (if length (sv_tasks (on_accept peer s)) = length (sv_tasks s) then xs else xs @ [new])"
| "slots_after new (TaskReaped k) s xs = take k xs @ drop (Suc k) xs"
| "slots_after new _ s xs = xs"

text \<open>A task ends when its handler returns, which \<open>handle_follows\<close> shows to be outside a session.\<close>

fun may_end :: "server_event \<Rightarrow> phase list \<Rightarrow> bool" where
  "may_end (TaskEnded k) phs \<longleftrightarrow> phase_ids (phs ! k) = []"
| "may_end e phs \<longleftrightarrow> True"

fun opens_from :: "ip_addr \<Rightarrow> task_op \<Rightarrow> bool" where
  "opens_from ip (TkOpen src target kind) \<longleftrightarrow> sock_ip src = ip"
| "opens_from ip op \<longleftrightarrow> True"

inductive system_step :: "system \<Rightarrow> system_event \<Rightarrow> system \<Rightarrow> bool" where
  server: "server_step (sy_server s) e v \<Longrightarrow> may_end e (sy_phases s) \<Longrightarrow>
    system_step s (SysServer e)
      (s\<lparr>sy_server := v, sy_phases := slots_after Starting e (sy_server s) (sy_phases s)\<rparr>)"
| task: "k < length (sv_tasks (sy_server s)) \<Longrightarrow> t_running (sv_tasks (sy_server s) ! k) \<Longrightarrow>
    opens_from (t_ip (sv_tasks (sy_server s) ! k)) op \<Longrightarrow>
    phase_step op (sy_phases s ! k) (sy_metrics s) = Some (p, m) \<Longrightarrow>
    system_step s (SysTask k op) (s\<lparr>sy_metrics := m, sy_phases := (sy_phases s)[k := p]\<rparr>)"

section \<open>Facts: a handler follows the phases\<close>

fun opens_as :: "socket_addr \<Rightarrow> task_op \<Rightarrow> bool" where
  "opens_as peer (TkOpen src target kind) \<longleftrightarrow> src = peer"
| "opens_as peer op \<longleftrightarrow> True"

text \<open>The calls that lead from one state to another, and the journal they leave.\<close>

definition moves :: "socket_addr \<Rightarrow> act list \<Rightarrow> phase \<Rightarrow> metrics \<Rightarrow> phase \<Rightarrow> metrics \<Rightarrow> bool" where
  "moves peer as p m p' m' \<longleftrightarrow>
     (\<exists>ops. task_run ops p m = Some (p', m') \<and> list_all (opens_as peer) ops \<and> task_acts ops p m = as)"

lemma task_run_append:
  "task_run (xs @ ys) p m = (case task_run xs p m of None \<Rightarrow> None | Some (p, m) \<Rightarrow> task_run ys p m)"
  by (induction xs arbitrary: p m) (auto split: option.split)

lemma task_acts_append:
  "task_run xs p m = Some (q, n) \<Longrightarrow> task_acts (xs @ ys) p m = task_acts xs p m @ task_acts ys q n"
  by (induction xs arbitrary: p m) (auto split: option.splits)

lemma events_of_append [simp]: "events_of (as @ bs) = events_of as @ events_of bs"
  by (induction as rule: events_of.induct) simp_all

lemma events_of_calls [simp]: "events_of (map Called ops) = []" "filter session_act (map Called ops) = map Called ops"
  by (induction ops) simp_all

lemma moves_refl: "moves peer [] p m p m"
  unfolding moves_def by (intro exI [of _ "[]"]) simp

lemma moves_trans:
  assumes "moves peer as p m q n" and "moves peer bs q n r l"
  shows "moves peer (as @ bs) p m r l"
proof -
  obtain xs ys where "task_run xs p m = Some (q, n)" "list_all (opens_as peer) xs" "task_acts xs p m = as"
    "task_run ys q n = Some (r, l)" "list_all (opens_as peer) ys" "task_acts ys q n = bs"
    using assms by (auto simp: moves_def)
  then have "task_run (xs @ ys) p m = Some (r, l)" "list_all (opens_as peer) (xs @ ys)"
    "task_acts (xs @ ys) p m = as @ bs"
    by (simp_all add: task_run_append task_acts_append)
  then show ?thesis unfolding moves_def by blast
qed

lemma moves_step:
  "phase_step op p m = Some (q, n) \<Longrightarrow> opens_as peer op \<Longrightarrow> moves peer (call_acts op p m) p m q n"
  unfolding moves_def by (intro exI [of _ "[op]"]) simp

lemma moves_add:
  "moves peer [Called (OpUp i n)] (Open i) m (Open i) (add_up m i n)"
  "moves peer [Called (OpDown i n)] (Open i) m (Open i) (add_down m i n)"
  using moves_step [of "TkUp n" "Open i" m "Open i" "add_up m i n" peer]
    moves_step [of "TkDown n" "Open i" m "Open i" "add_down m i n" peer] by simp_all

lemma moves_open:
  "moves peer [Called (OpRegister peer target kind), Told (EvConnect (next_id m) peer target kind)]
     Starting m (Open (next_id m)) (snd (register m peer target kind))"
  using moves_step [of "TkOpen peer target kind" Starting m] by (simp add: register_def Let_def)

lemma moves_close:
  "moves peer [Called OpSuccess, Called (OpUnregister i), Told (EvClosed i)]
     (Open i) m Released (unregister (record_success m) i)"
  using moves_trans [of peer "[Called OpSuccess]" "Open i" m "Counted i" "record_success m"
      "[Called (OpUnregister i), Told (EvClosed i)]"]
    moves_step [of TkSuccess "Open i" m] moves_step [of TkClose "Counted i" "record_success m"] by simp

lemma moves_error: "moves peer [Called (OpError code)] Starting m Released (record_error m code)"
  using moves_step [of "TkError code" Starting m] by simp

lemma copy_half_moves:
  "\<exists>cs. rl_calls (copy_half idle i dir t h r) = rl_calls r @ cs \<and>
     moves peer (map Called cs) (Open i) (rl_metrics r) (Open i) (rl_metrics (copy_half idle i dir t h r))"
proof (cases h)
  case WriteDone
  then show ?thesis by (cases dir) (simp_all add: Let_def moves_add)
qed (simp_all add: Let_def moves_refl)

lemma relay_run_moves:
  "relay_run idle i es r = (r', b) \<Longrightarrow>
     \<exists>cs. rl_calls r' = rl_calls r @ cs \<and> moves peer (map Called cs) (Open i) (rl_metrics r) (Open i) (rl_metrics r')"
proof (induction idle i es r rule: relay_run.induct)
  case (2 idle i t ev es r)
  show ?case
  proof (cases "\<not> relay_done r \<and> (\<exists>dir h. ev = HalfEvent dir h \<and> half_enabled idle t (leg_half (leg_of dir r)) h)")
    case True
    then obtain dir h where h: "\<not> relay_done r" "ev = HalfEvent dir h" "half_enabled idle t (leg_half (leg_of dir r)) h"
      by blast
    then have "relay_run idle i es (copy_half idle i dir t h r) = (r', b)" using 2(3) by simp
    from 2(1) [OF h this] obtain cs where "rl_calls r' = rl_calls (copy_half idle i dir t h r) @ cs"
      "moves peer (map Called cs) (Open i) (rl_metrics (copy_half idle i dir t h r)) (Open i) (rl_metrics r')" by blast
    moreover obtain ds where "rl_calls (copy_half idle i dir t h r) = rl_calls r @ ds"
      "moves peer (map Called ds) (Open i) (rl_metrics r) (Open i) (rl_metrics (copy_half idle i dir t h r))"
      using copy_half_moves [of idle i dir t h r peer] by blast
    ultimately show ?thesis using moves_trans by (intro exI [of _ "ds @ cs"]) fastforce
  next
    case False
    with 2 show ?thesis by (auto simp: moves_refl split: if_splits relay_event.splits)
  qed
qed (simp add: moves_refl)

text \<open>What the loop of a UDP association adds to its journal, and what that says.\<close>

definition assoc_moves :: "socket_addr \<Rightarrow> u64 \<Rightarrow> assoc \<Rightarrow> assoc \<Rightarrow> bool" where
  "assoc_moves peer i s s' \<longleftrightarrow>
     (\<exists>as. as_journal s' = as_journal s @ as \<and> as_evs s' = as_evs s @ events_of as \<and>
        moves peer (filter session_act as) (Open i) (as_metrics s) (Open i) (as_metrics s'))"

lemma assoc_moves_same:
  "as_journal s' = as_journal s \<Longrightarrow> as_evs s' = as_evs s \<Longrightarrow> as_metrics s' = as_metrics s \<Longrightarrow> assoc_moves peer i s s'"
  unfolding assoc_moves_def by (intro exI [of _ "[]"]) (simp add: moves_refl)

lemma assoc_moves_call:
  assumes "as_journal s' = as_journal s" "as_evs s' = as_evs s" "as_metrics s' = as_metrics s"
  shows "assoc_moves peer i s (assoc_call (OpUp i n) s')" "assoc_moves peer i s (assoc_call (OpDown i n) s')"
  unfolding assoc_moves_def
  by (intro exI [of _ "[Called (OpUp i n)]"], simp add: assms moves_add)
    (intro exI [of _ "[Called (OpDown i n)]"], simp add: assms moves_add)

lemma assoc_moves_trans: "assoc_moves peer i s t \<Longrightarrow> assoc_moves peer i t u \<Longrightarrow> assoc_moves peer i s u"
  unfolding assoc_moves_def by (elim exE conjE) (rule exI, auto intro: moves_trans)

lemma track_target_journal: "as_journal (track_target n a s) = as_journal s"
  by (simp add: track_target_def Let_def split: list.split)

lemma send_target_moves: "assoc_moves peer i s (send_target cfg i t snt a d s)"
  by (auto simp: send_target_def Let_def track_target_fields track_target_journal
      intro!: assoc_moves_same assoc_moves_call)

lemma report_moves: "assoc_moves peer i s (report_dns_error e host port t s)"
  unfolding assoc_moves_def
  by (cases "as_journal (report_dns_error e host port t s) = as_journal s")
    (auto simp: report_dns_error_def dns_error_event_def moves_refl)

lemma rate_gate_acts: "rate_gate pps t s = (s', ok) \<Longrightarrow> as_journal s' = as_journal s \<and> as_evs s' = as_evs s \<and> as_metrics s' = as_metrics s"
  by (auto simp: rate_gate_def Let_def split: option.splits)

lemma from_client_moves: "assoc_moves peer i s (from_client cfg b i t buf src ans at snt s)"
proof -
  define s0 where "s0 = (if client_udp_addr s = None then s\<lparr>client_udp_addr := Some src\<rparr> else s)"
  have 0: "assoc_moves peer i s s0" by (rule assoc_moves_same) (simp_all add: s0_def)
  obtain s1 ok where g: "rate_gate (udp_rate_pps (limits cfg)) t s0 = (s1, ok)" by fastforce
  have 1: "assoc_moves peer i s s1"
    by (rule assoc_moves_trans [OF 0 assoc_moves_same]) (use rate_gate_acts [OF g] in simp_all)
  show ?thesis unfolding from_client_def Let_def s0_def [symmetric]
    by (auto simp: g 0 1 split: sum.split bool.split target_choice.split
        intro: assoc_moves_trans [OF 1 send_target_moves] assoc_moves_trans [OF 1 report_moves])
qed

lemma assoc_step_moves:
  assumes "assoc_step cfg b c i t ev s = (s', go)"
  shows "assoc_moves peer i s s'"
proof (cases ev)
  case (RecvFrom buf src ans at snt)
  have "assoc_moves peer i s (from_target i bs src s)" for bs
    by (auto simp: from_target_def intro: assoc_moves_same assoc_moves_call split: option.split)
  then show ?thesis using assms RecvFrom from_client_moves by (auto simp: on_datagram_def assoc_moves_same)
qed (use assms in \<open>auto simp: assoc_moves_same\<close>)

lemma assoc_loop_moves: "assoc_loop cfg b c i es s = (s', go) \<Longrightarrow> assoc_moves peer i s s'"
proof (induction cfg b c i es s rule: assoc_loop.induct)
  case (2 cfg b c i t ev es s)
  obtain s1 g1 where st: "assoc_step cfg b c i t ev s = (s1, g1)" by fastforce
  show ?case using 2 st assoc_moves_trans [OF assoc_step_moves [OF st]] assoc_step_moves [OF st]
    by (cases g1) auto
qed (simp add: assoc_moves_same)

text \<open>Everything else a handler does is no call and no session event.\<close>

definition quiet :: "conn \<Rightarrow> conn \<Rightarrow> bool" where
  "quiet c c' \<longleftrightarrow> (\<exists>as. journal c' = journal c @ as \<and> evs c' = evs c @ events_of as \<and> filter session_act as = [])"

lemma quiet_same: "evs c' = evs c \<Longrightarrow> journal c' = journal c \<Longrightarrow> quiet c c'"
  by (simp add: quiet_def)

lemma quiet_trans:
  assumes "quiet c d" and "quiet d e"
  shows "quiet c e"
proof -
  obtain as bs where "journal d = journal c @ as" "evs d = evs c @ events_of as" "filter session_act as = []"
    "journal e = journal d @ bs" "evs e = evs d @ events_of bs" "filter session_act bs = []"
    using assms by (auto simp: quiet_def)
  then show ?thesis unfolding quiet_def by (intro exI [of _ "as @ bs"]) simp
qed

lemma quiet_send: "quiet c d \<Longrightarrow> \<not> session_event e \<Longrightarrow> quiet c (send_event e d)"
  by (erule quiet_trans) (auto simp: quiet_def intro!: exI [of _ "[Told e]"])

lemmas quiet_auth = quiet_send [of _ _ "EvAuth ok u" for ok u, simplified]

lemma write_all_acts: "write_all bs c = (c', w) \<Longrightarrow> journal c' = journal c"
  by (auto simp: write_all_def split: list.splits write_item.splits)

lemma quiet_write: "quiet c d \<Longrightarrow> write_all bs d = (c', w) \<Longrightarrow> quiet c c'"
  using quiet_trans quiet_same write_all_rx write_all_acts by metis

lemma quiet_reply: "reply_failure err c = (c', w) \<Longrightarrow> quiet c c'"
  unfolding reply_failure_def by (rule quiet_write [OF quiet_same]) simp_all

lemma read_until_quiet: "read_until p n s b c = (c', r) \<Longrightarrow> quiet c c'"
proof (induction p n s b c arbitrary: c' r rule: read_until.induct)
  case (1 parse need size_of buf c)
  have more: "quiet c d" if "read_more buf c = (d, x)" for d x
    using that by (auto simp: read_more_def quiet_def split: prod.splits read_outcome.splits)
  show ?case using 1(2)
    by (subst (asm) read_until.simps)
      (auto split: sum.splits option.splits if_splits prod.splits more.splits
        intro: quiet_same more quiet_trans [OF more 1(1)])
qed

lemma negotiate_greeting_quiet: "negotiate_greeting cfg c = (c', r) \<Longrightarrow> quiet c c'"
  by (auto simp: negotiate_greeting_def Let_def intro: read_until_quiet quiet_write [OF read_until_quiet]
      split: prod.splits read_result.splits write_outcome.splits if_splits)

lemma negotiate_auth_quiet: "negotiate_auth cfg m b c = (c', r) \<Longrightarrow> quiet c c'"
  by (auto simp: negotiate_auth_def Let_def
      intro: read_until_quiet quiet_same quiet_write [OF read_until_quiet] quiet_write [OF quiet_auth [OF read_until_quiet]]
      split: prod.splits read_result.splits write_outcome.splits if_splits)

lemma request_failure_quiet: "request_failure e c = (c', r) \<Longrightarrow> quiet c c'"
  by (cases "(e, c)" rule: request_failure.cases)
    (auto simp: reply_request_error_def intro: quiet_send quiet_same quiet_reply
      split: prod.splits write_outcome.splits)

lemma negotiate_quiet:
  assumes "negotiate cfg c = (c', r)"
  shows "quiet c c'"
proof -
  have req: "negotiate_request b d = (d', x) \<Longrightarrow> quiet d d'" for b d d' and x :: "(request \<times> bytes) Negotiation.phase"
    by (auto simp: negotiate_request_def intro: read_until_quiet quiet_trans [OF read_until_quiet request_failure_quiet]
        split: prod.splits read_result.splits)
  obtain c1 p1 where g: "negotiate_greeting cfg c = (c1, p1)" by fastforce
  note q1 = negotiate_greeting_quiet [OF g]
  show ?thesis
  proof (cases p1)
    case (Next mb)
    obtain m b where mb: "mb = (m, b)" by fastforce
    obtain c2 p2 where a: "negotiate_auth cfg m b c1 = (c2, p2)" by fastforce
    note q2 = quiet_trans [OF q1 negotiate_auth_quiet [OF a]]
    show ?thesis using assms g Next mb a q2 quiet_trans [OF q2 req]
      by (cases p2) (auto simp: negotiate_def)
  qed (use assms g q1 in \<open>auto simp: negotiate_def\<close>)
qed

text \<open>A stretch of a handler's run, in the metrics and in its journal.\<close>

definition advances :: "socket_addr \<Rightarrow> phase \<Rightarrow> conn \<Rightarrow> metrics \<Rightarrow> phase \<Rightarrow> conn \<Rightarrow> metrics \<Rightarrow> bool" where
  "advances peer p c m q c' m' \<longleftrightarrow>
     (\<exists>as. moves peer (filter session_act as) p m q m' \<and>
        journal c' = journal c @ as \<and> evs c' = evs c @ events_of as)"

lemma advances_trans:
  assumes "advances peer p c m q d n" and "advances peer q d n r e l"
  shows "advances peer p c m r e l"
proof -
  obtain as bs where "moves peer (filter session_act as) p m q n" "journal d = journal c @ as" "evs d = evs c @ events_of as"
    "moves peer (filter session_act bs) q n r l" "journal e = journal d @ bs" "evs e = evs d @ events_of bs"
    using assms by (auto simp: advances_def)
  then show ?thesis unfolding advances_def using moves_trans by (intro exI [of _ "as @ bs"]) fastforce
qed

lemma advances_quiet: "quiet c d \<Longrightarrow> advances peer p c m p d m"
  unfolding quiet_def advances_def by (metis moves_refl)

lemma advances_open:
  "advances peer Starting c m (Open (next_id m))
     (send_event (EvConnect (next_id m) peer target kind) (noted (OpRegister peer target kind) c))
     (snd (register m peer target kind))"
  unfolding advances_def using moves_open
  by (intro exI [of _ "[Called (OpRegister peer target kind), Told (EvConnect (next_id m) peer target kind)]"]) simp

lemma advances_up: "advances peer (Open i) c m (Open i) (noted (OpUp i n) c) (add_up m i n)"
  unfolding advances_def using moves_add(1) by (intro exI [of _ "[Called (OpUp i n)]"]) simp

lemma advances_relay:
  assumes "relay_run idle i es (relay_init t m) = (r, b)"
  shows "advances peer (Open i) c m (Open i) (fold noted (rl_calls r) c) (rl_metrics r)"
  using relay_run_moves [OF assms, of peer] unfolding advances_def
  by (intro exI [of _ "map Called (rl_calls r)"]) (auto simp: relay_init_def)

lemma advances_assoc:
  assumes "assoc_loop cfg b ip i es (assoc_init t m) = (s, go)"
  shows "advances peer (Open i) c m (Open i) (c\<lparr>evs := evs c @ as_evs s, journal := journal c @ as_journal s\<rparr>) (as_metrics s)"
  using assoc_loop_moves [OF assms, of peer] unfolding advances_def
  by (intro exI [of _ "as_journal s"]) (auto simp: assoc_moves_def assoc_init_def)

lemma advances_close:
  "advances peer (Open i) c m Released
     (send_event (EvClosed i) (noted (OpUnregister i) (noted OpSuccess c))) (unregister (record_success m) i)"
  unfolding advances_def using moves_close
  by (intro exI [of _ "[Called OpSuccess, Called (OpUnregister i), Told (EvClosed i)]"]) simp

lemma advances_error:
  "advances peer Starting c m Released (send_event (EvError code msg) (noted (OpError k) c)) (record_error m k)"
  unfolding advances_def using moves_error
  by (intro exI [of _ "[Called (OpError k), Told (EvError code msg)]"]) simp

text \<open>A handler's run, up to where it stops.\<close>

definition follows :: "socket_addr \<Rightarrow> conn \<Rightarrow> metrics \<Rightarrow> conn \<Rightarrow> metrics \<Rightarrow> run_status \<Rightarrow> bool" where
  "follows peer c m c' m' st \<longleftrightarrow> (\<exists>p. advances peer Starting c m p c' m' \<and> phase_at st p)"

lemma followsI: "advances peer Starting c m p c' m' \<Longrightarrow> phase_at st p \<Longrightarrow> follows peer c m c' m' st"
  by (auto simp: follows_def)

lemma follows_on: "quiet c d \<Longrightarrow> follows peer d m c' m' st \<Longrightarrow> follows peer c m c' m' st"
  by (metis follows_def advances_trans advances_quiet)

lemma follows_start: "quiet c c' \<Longrightarrow> phase_at st Starting \<Longrightarrow> follows peer c m c' m st"
  by (rule followsI [OF advances_quiet])

lemma follows_error:
  "quiet c d \<Longrightarrow> follows peer c m (send_event (EvError code msg) d) m RunDone"
  "quiet c d \<Longrightarrow> follows peer c m (send_event (EvError code msg) (noted (OpError k) d)) (record_error m k) RunDone"
  by (rule follows_start [OF quiet_send], assumption, simp, simp)
    (rule followsI [OF advances_trans [OF advances_quiet advances_error]], assumption, simp)

text \<open>The handlers, each from the start of a connection.\<close>

lemma connect_session_follows:
  assumes "connect_session sc cfg peer tgt initial c m = (c', m', st)"
  shows "follows peer c m c' m' st"
proof -
  let ?i = "next_id m" and ?m1 = "snd (register m peer tgt KindConnect)"
  let ?c1 = "send_event (EvConnect ?i peer tgt KindConnect) (noted (OpRegister peer tgt KindConnect) c)"
  note o = advances_open [of peer c m tgt KindConnect]
  note added = advances_trans [OF o advances_up [of peer ?i ?c1 ?m1 "of_nat (length initial)"]]
  note relayed = advances_trans [OF o advances_relay] advances_trans [OF added advances_relay]
  note opens = o relayed and closes = o [THEN advances_trans, OF advances_close] relayed [THEN advances_trans, OF _ advances_close]
  show ?thesis
    using assms unfolding connect_session_def
    by (subst (asm) register_eq) (auto simp: Let_def split: if_splits prod.splits write_outcome.splits
        intro: opens [THEN followsI] closes [THEN followsI])
qed

lemma connect_run_follows:
  assumes "connect_run sc cfg peer tgt initial c m = (c', m', st)"
  shows "follows peer c m c' m' st"
proof -
  have failed: "follows peer c m c' m' st" if "connect_failed err msg c m = (c', m', st)" for err msg
    using that by (auto simp: connect_failed_def Let_def intro: follows_start quiet_reply follows_error [OF quiet_reply]
        split: prod.splits write_outcome.splits)
  have quiet: "quiet c d" if "write_all bs c = (d, w)" for bs d w
    by (rule quiet_write [OF quiet_same that]) simp_all
  show ?thesis using assms unfolding connect_run_def
    by (auto simp: Let_def split: est_outcome.splits prod.splits write_outcome.splits
        intro: failed follows_start quiet quiet_same follows_on [OF quiet connect_session_follows])
qed

lemma udp_session_follows:
  assumes "udp_session us cfg peer b c m = (c', m', st)"
  shows "follows peer c m c' m' st"
proof -
  obtain s go where l: "assoc_loop cfg b (to_canonical (sock_ip peer)) (next_id m) (us_events us)
      (assoc_init (us_started us) (snd (register m peer ''udp-associate'' KindUdp))) = (s, go)" by fastforce
  note run = advances_trans [OF advances_open advances_assoc [OF l]]
  show ?thesis using assms unfolding udp_session_result [OF l refl refl]
    by (cases go) (auto simp del: send_event_fields
        intro: followsI [OF run] followsI [OF advances_trans [OF run advances_close]])
qed

lemma udp_run_follows:
  assumes "fst (udp_run us cfg peer cursor c m) = (c', m', st)"
  shows "follows peer c m c' m' st"
proof -
  have failed: "udp_failed err msg ops c m = (c', m', st) \<Longrightarrow> ops \<in> {[], [OpError code]} \<Longrightarrow>
      follows peer c m c' m' st" for err msg ops and code :: u8
    by (auto simp: udp_failed_def intro: follows_start quiet_reply follows_error [OF quiet_reply]
        split: prod.splits write_outcome.splits)
  have quiet: "quiet c d" if "write_all bs c = (d, w)" for bs d w
    by (rule quiet_write [OF quiet_same that]) simp_all
  show ?thesis
    using assms unfolding udp_run_def
    by (auto simp: Let_def split: option.splits sum.splits prod.splits write_outcome.splits
        intro: failed follows_start quiet quiet_same follows_on [OF quiet udp_session_follows])
qed

lemma handle_follows_phases:
  assumes "handle hs cfg peer cursor c m = ((c', m', st), cursor')"
  shows "follows peer c m c' m' st"
proof -
  obtain c1 r where n: "negotiate cfg c = (c1, r)" by fastforce
  have np: "r \<noteq> Panic" using negotiate_no_panic [of cfg c] n by simp
  note q = negotiate_quiet [OF n]
  show ?thesis
  proof (cases r)
    case (Next v)
    obtain req initial where v: "v = (req, initial)" by (cases v)
    show ?thesis
    proof (cases "command req")
      case Connect
      then have "connect_run (hs_connect hs) cfg peer (address req) initial c1 m = (c', m', st)"
        using assms n Next v by (simp add: handle_def)
      then show ?thesis by (rule follows_on [OF q connect_run_follows])
    next
      case UdpAssociate
      then have "fst (udp_run (hs_udp hs) cfg peer cursor c1 m) = (c', m', st)"
        using assms n Next v by (simp add: handle_def)
      then show ?thesis by (rule follows_on [OF q udp_run_follows])
    next
      case Bind
      then show ?thesis using assms n Next v q
        by (auto simp: handle_def intro: follows_start quiet_trans [OF q quiet_reply]
            follows_error(1) [OF quiet_trans [OF q quiet_reply]]
            split: prod.splits write_outcome.splits)
    qed
  qed (use assms n np q in \<open>auto simp: handle_def intro: follows_start\<close>)
qed

section \<open>Facts: the whole system\<close>

text \<open>The session ids the tasks hold are the registered ones, each registered from its task's
  address; the counters count them.\<close>

definition session_ids :: "phase list \<Rightarrow> u64 list" where
  "session_ids phs = concat (map phase_ids phs)"

fun is_open_phase :: "phase \<Rightarrow> bool" where
  "is_open_phase (Open i) = True"
| "is_open_phase p = False"

text \<open>A task with a session runs, and the session is registered from the task's address.\<close>

abbreviation session_task :: "metrics \<Rightarrow> task \<Rightarrow> phase \<Rightarrow> bool" where
  "session_task m t p \<equiv> (phase_ids p \<noteq> [] \<longrightarrow> t_running t) \<and>
     (\<forall>i \<in> set (phase_ids p). \<exists>info. fmlookup (registry m) i = Some info \<and> sock_ip (ci_src info) = t_ip t)"

definition sessions_ok :: "system \<Rightarrow> bool" where
  "sessions_ok s \<longleftrightarrow>
     list_all2 (session_task (sy_metrics s)) (sv_tasks (sy_server s)) (sy_phases s) \<and>
     mset (session_ids (sy_phases s)) = mset_set (live_ids (sy_metrics s)) \<and>
     total_conns (sy_metrics s) = successes (sy_metrics s) + of_nat (length (filter is_open_phase (sy_phases s)))"

definition system_ok :: "config \<Rightarrow> system \<Rightarrow> bool" where
  "system_ok cfg s \<longleftrightarrow>
     server_ok (max_connections (limits cfg)) (limits_config.max_per_ip (limits cfg)) (sy_server s) \<and>
     (\<exists>ops. metrics_history ops (sy_metrics s)) \<and> sessions_ok s"

lemma session_ids_append [simp]: "session_ids (xs @ ys) = session_ids xs @ session_ids ys"
  by (simp add: session_ids_def)

lemma split_at: "k < length xs \<Longrightarrow> xs = take k xs @ xs ! k # drop (Suc k) xs"
  by (rule id_take_nth_drop)

lemma mset_concat_update:
  assumes "k < length xs"
  shows "mset (concat (map f (xs[k := y]))) + mset (f (xs ! k)) = mset (concat (map f xs)) + mset (f y)"
proof -
  have "concat (map f xs) = concat (map f (take k xs)) @ f (xs ! k) @ concat (map f (drop (Suc k) xs))"
    by (subst split_at [OF assms]) simp
  moreover have "concat (map f (xs[k := y])) = concat (map f (take k xs)) @ f y @ concat (map f (drop (Suc k) xs))"
    using assms by (simp add: upd_conv_take_nth_drop)
  ultimately show ?thesis by simp
qed

lemma session_ids_update:
  "k < length phs \<Longrightarrow>
     mset (session_ids (phs[k := p])) + mset (phase_ids (phs ! k)) = mset (session_ids phs) + mset (phase_ids p)"
  unfolding session_ids_def by (rule mset_concat_update)

lemma open_update:
  assumes "k < length phs"
  shows "length (filter is_open_phase (phs[k := p])) + (if is_open_phase (phs ! k) then 1 else 0)
    = length (filter is_open_phase phs) + (if is_open_phase p then 1 else 0)"
proof -
  have "filter is_open_phase phs =
      filter is_open_phase (take k phs) @ filter is_open_phase [phs ! k] @ filter is_open_phase (drop (Suc k) phs)"
    by (subst split_at [OF assms]) simp
  moreover have "filter is_open_phase (phs[k := p]) =
      filter is_open_phase (take k phs) @ filter is_open_phase [p] @ filter is_open_phase (drop (Suc k) phs)"
    using assms by (simp add: upd_conv_take_nth_drop)
  ultimately show ?thesis by simp
qed

lemma session_member: "k < length phs \<Longrightarrow> i \<in> set (phase_ids (phs ! k)) \<Longrightarrow> i \<in> set (session_ids phs)"
  by (auto simp: session_ids_def)

lemma finite_live [simp]: "finite (live_ids m)"
  by (simp add: live_ids_def)

text \<open>A task's call keeps the bookkeeping when it moves its own ids between the registry and its
  phase and keeps the other sessions' addresses.\<close>

definition same_sources :: "metrics \<Rightarrow> metrics \<Rightarrow> bool" where
  "same_sources m m' \<longleftrightarrow>
     (\<forall>j info. fmlookup (registry m) j = Some info \<and> j \<in> live_ids m' \<longrightarrow>
        (\<exists>info'. fmlookup (registry m') j = Some info' \<and> ci_src info' = ci_src info))"

text \<open>A call on one task's phase leaves the other tasks' sessions registered.\<close>

lemma session_tasks_call:
  assumes rel: "list_all2 (session_task m) ts phs" and src: "same_sources m m'"
    and live: "\<And>i. i \<in> set (session_ids (phs[k := p])) \<Longrightarrow> i \<in> live_ids m'"
    and own: "session_task m' (ts ! k) p"
  shows "list_all2 (session_task m') ts (phs[k := p])"
proof -
  have "session_task m' (ts ! j) (phs[k := p] ! j)" if j: "j < length phs" for j
  proof (cases "j = k")
    case True
    then show ?thesis using own j by simp
  next
    case False
    have old: "session_task m (ts ! j) (phs ! j)" using rel j by (simp add: list_all2_conv_all_nth)
    have "\<exists>info. fmlookup (registry m') i = Some info \<and> sock_ip (ci_src info) = t_ip (ts ! j)"
      if i: "i \<in> set (phase_ids (phs ! j))" for i
    proof -
      obtain info where l: "fmlookup (registry m) i = Some info" "sock_ip (ci_src info) = t_ip (ts ! j)"
        using old i by blast
      have "i \<in> live_ids m'" using session_member [of j "phs[k := p]" i] i False j live by simp
      then show ?thesis using src l unfolding same_sources_def by metis
    qed
    then show ?thesis using old False by simp
  qed
  then show ?thesis using list_all2_lengthD [OF rel] by (simp add: list_all2_conv_all_nth)
qed

lemma open_count_call:
  fixes c c' g g' :: u64
  assumes k: "k < length phs" and cnt: "c = g + of_nat (length (filter is_open_phase phs))"
    and tot: "c' + g + of_nat (if is_open_phase (phs ! k) then 1 else 0) = c + g' + of_nat (if is_open_phase p then 1 else 0)"
  shows "c' = g' + of_nat (length (filter is_open_phase (phs[k := p])))"
proof -
  have "of_nat (length (filter is_open_phase (phs[k := p]))) + of_nat (if is_open_phase (phs ! k) then 1 else 0)
      = of_nat (length (filter is_open_phase phs)) + (of_nat (if is_open_phase p then 1 else 0) :: u64)"
    using open_update [OF k, of p] by (metis of_nat_add)
  then have "c' + (g + of_nat (if is_open_phase (phs ! k) then 1 else 0))
      = (g' + of_nat (length (filter is_open_phase (phs[k := p])))) + (g + of_nat (if is_open_phase (phs ! k) then 1 else 0))"
    using tot unfolding cnt by (simp only: ac_simps)
  then show ?thesis by (simp only: add_right_cancel)
qed

lemma sessions_ok_call:
  assumes ok: "sessions_ok s" and k: "k < length (sy_phases s)" and run: "t_running (sv_tasks (sy_server s) ! k)"
    and ids: "mset_set (live_ids m) + mset (phase_ids (sy_phases s ! k)) = mset_set (live_ids (sy_metrics s)) + mset (phase_ids p)"
    and src: "same_sources (sy_metrics s) m"
    and own: "\<forall>i \<in> set (phase_ids p). \<exists>info. fmlookup (registry m) i = Some info \<and>
      sock_ip (ci_src info) = t_ip (sv_tasks (sy_server s) ! k)"
    and tot: "total_conns m + successes (sy_metrics s) + of_nat (if is_open_phase (sy_phases s ! k) then 1 else 0) =
      total_conns (sy_metrics s) + successes m + of_nat (if is_open_phase p then 1 else 0)"
  shows "sessions_ok (s\<lparr>sy_metrics := m, sy_phases := (sy_phases s)[k := p]\<rparr>)"
proof -
  let ?ts = "sv_tasks (sy_server s)" and ?phs = "sy_phases s" and ?m = "sy_metrics s"
  have rel: "list_all2 (session_task ?m) ?ts ?phs"
    and held: "mset (session_ids ?phs) = mset_set (live_ids ?m)"
    and cnt: "total_conns ?m = successes ?m + of_nat (length (filter is_open_phase ?phs))"
    using ok by (simp_all add: sessions_ok_def)
  have held': "mset (session_ids (?phs[k := p])) = mset_set (live_ids m)"
    using session_ids_update [OF k, of p] ids unfolding held by (metis add_right_cancel union_commute)
  then have live: "i \<in> live_ids m" if "i \<in> set (session_ids (?phs[k := p]))" for i
    using that by (metis elem_mset_set finite_live set_mset_mset)
  have rel': "list_all2 (session_task m) ?ts (?phs[k := p])"
    using run own by (intro session_tasks_call [OF rel src live]) simp_all
  have "total_conns m = successes m + of_nat (length (filter is_open_phase (?phs[k := p])))"
    by (rule open_count_call [OF k cnt tot])
  then show ?thesis using held' rel' by (simp add: sessions_ok_def)
qed

text \<open>What each call does to the registered ids and addresses, and to the two counters.\<close>

lemma same_sources_same: "registry m' = registry m \<Longrightarrow> same_sources m m'"
  by (simp add: same_sources_def)

lemma same_sources_add: "same_sources m (add_up m i n)" "same_sources m (add_down m i n)"
  by (auto simp: same_sources_def add_up_def add_down_def Let_def split: option.split)

lemma same_sources_register:
  "metrics_ok m \<Longrightarrow> same_sources m (snd (register m src target kind))"
  using next_id_unused [of m] by (auto simp: same_sources_def register_def Let_def fmlookup_dom_iff)

lemma same_sources_unregister: "same_sources m (unregister m i)"
  by (auto simp: same_sources_def live_ids_def unregister_def)

lemma add_counters:
  "total_conns (add_up m i n) = total_conns m" "successes (add_up m i n) = successes m"
  "total_conns (add_down m i n) = total_conns m" "successes (add_down m i n) = successes m"
  by (auto simp: add_up_def add_down_def Let_def split: option.split)

lemma own_session:
  assumes "sessions_ok s" and "k < length (sy_phases s)" and "i \<in> set (phase_ids (sy_phases s ! k))"
  shows "\<exists>info. fmlookup (registry (sy_metrics s)) i = Some info \<and>
      sock_ip (ci_src info) = t_ip (sv_tasks (sy_server s) ! k)" "i \<in> live_ids (sy_metrics s)"
proof -
  show l: "\<exists>info. fmlookup (registry (sy_metrics s)) i = Some info \<and>
      sock_ip (ci_src info) = t_ip (sv_tasks (sy_server s) ! k)"
    using assms by (auto simp: sessions_ok_def list_all2_conv_all_nth)
  then show "i \<in> live_ids (sy_metrics s)" by (auto simp: live_ids_def fmlookup_dom_iff)
qed

lemma own_after:
  "same_sources m m' \<Longrightarrow> i \<in> live_ids m' \<Longrightarrow> \<exists>info. fmlookup (registry m) i = Some info \<and> sock_ip (ci_src info) = a
     \<Longrightarrow> \<exists>info. fmlookup (registry m') i = Some info \<and> sock_ip (ci_src info) = a"
  unfolding same_sources_def by metis

lemma task_call_sessions:
  assumes ok: "sessions_ok s" and mok: "metrics_ok (sy_metrics s)"
    and k: "k < length (sy_phases s)" and run: "t_running (sv_tasks (sy_server s) ! k)"
    and peer: "opens_from (t_ip (sv_tasks (sy_server s) ! k)) op"
    and st: "phase_step op (sy_phases s ! k) (sy_metrics s) = Some (p, m)"
  shows "sessions_ok (s\<lparr>sy_metrics := m, sy_phases := (sy_phases s)[k := p]\<rparr>)"
  using st
proof (cases rule: phase_step_cases)
  case (fails code)
  then show ?thesis
    by (intro sessions_ok_call [OF ok k run])
      (simp_all add: record_error_def Let_def live_ids_def same_sources_same)
next
  case (opens src target kind)
  have "next_id (sy_metrics s) \<notin> live_ids (sy_metrics s)"
    using next_id_unused [OF mok] by (simp add: live_ids_def)
  with opens peer show ?thesis
    by (intro sessions_ok_call [OF ok k run])
      (simp_all add: live_register same_sources_register mok, simp_all add: register_def Let_def)
next
  case (up i b)
  note own = own_session [OF ok k, of i]
  show ?thesis using up own own_after [OF same_sources_add(1), of i "sy_metrics s" i b]
    by (intro sessions_ok_call [OF ok k run]) (simp_all add: add_counters same_sources_add)
next
  case (down i b)
  note own = own_session [OF ok k, of i]
  show ?thesis using down own own_after [OF same_sources_add(2), of i "sy_metrics s" i b]
    by (intro sessions_ok_call [OF ok k run]) (simp_all add: add_counters same_sources_add)
next
  case (success i)
  with own_session [OF ok k, of i] show ?thesis
    by (intro sessions_ok_call [OF ok k run]) (auto simp: record_success_def live_ids_def same_sources_same)
next
  case (closes i)
  have "mset_set (live_ids (sy_metrics s)) = add_mset i (mset_set (live_ids (sy_metrics s) - {i}))"
    using own_session(2) [OF ok k, of i] closes(2) by (simp add: mset_set.remove)
  with closes same_sources_unregister [of "sy_metrics s" i] show ?thesis
    by (intro sessions_ok_call [OF ok k run]) (simp_all add: live_unregister, simp_all add: unregister_def)
qed

lemma task_call_history:
  assumes ok: "sessions_ok s" and h: "metrics_history ops (sy_metrics s)" and left: "ids_left (sy_metrics s)"
    and k: "k < length (sy_phases s)" and st: "phase_step op (sy_phases s ! k) (sy_metrics s) = Some (p, m)"
  shows "(\<exists>ops. metrics_history ops m) \<and> next_id m \<in> {next_id (sy_metrics s), next_id (sy_metrics s) + 1}"
proof -
  have own: "i |\<in>| fmdom (registry (sy_metrics s))" if "i \<in> set (phase_ids (sy_phases s ! k))" for i
    using own_session(2) [OF ok k that] by (simp add: live_ids_def)
  have extend: "\<exists>ops. metrics_history ops (metrics_step q (sy_metrics s))" if "op_allowed q (sy_metrics s)" for q
    using metrics_history.op [OF h that] by blast
  from st show ?thesis
  proof (cases rule: phase_step_cases)
    case (fails code)
    then show ?thesis using extend [of "OpError code"] by (simp add: record_error_def Let_def)
  next
    case (opens src target kind)
    then show ?thesis using extend [of "OpRegister src target kind"] left by (simp add: register_def Let_def)
  next
    case (up i b)
    then show ?thesis using extend [of "OpUp i b"] own [of i]
      by (auto simp: add_up_def Let_def split: option.splits)
  next
    case (down i b)
    then show ?thesis using extend [of "OpDown i b"] own [of i]
      by (auto simp: add_down_def Let_def split: option.splits)
  next
    case (success i)
    then show ?thesis using extend [of OpSuccess] by (simp add: record_success_def)
  next
    case (closes i)
    then show ?thesis using extend [of "OpUnregister i"] own [of i] by (simp add: unregister_def)
  qed
qed

lemma phase_ids_length: "length (phase_ids p) \<le> 1" "is_open_phase p \<Longrightarrow> phase_ids p \<noteq> []"
  by (cases p; simp)+

text \<open>What is kept for the tasks stays in step with them.\<close>

lemma slots_follow:
  assumes st: "server_step s e v" and rel: "list_all2 Q (sv_tasks s) ys" and new: "\<And>t. Q t new"
    and stop: "\<And>k. e = TaskEnded k \<Longrightarrow> k < length (sv_tasks s) \<Longrightarrow> Q ((sv_tasks s ! k)\<lparr>t_running := False\<rparr>) (ys ! k)"
  shows "list_all2 Q (sv_tasks v) (slots_after new e s ys)"
  using st
proof cases
  case (accept peer)
  then show ?thesis using rel new
    by (cases "try_admit (sock_ip peer) (sv_admission s)") (simp_all add: on_accept_def list_all2_appendI)
next
  case (task_ended k a)
  have "list_all2 Q ((sv_tasks s)[k := (sv_tasks s ! k)\<lparr>t_running := False\<rparr>]) (ys[k := ys ! k])"
    using task_ended(1,3) stop by (intro list_all2_update_cong rel) simp
  then show ?thesis using task_ended by simp
next
  case (task_reaped k)
  then show ?thesis by (auto intro!: list_all2_appendI list_all2_takeI list_all2_dropI rel)
qed (use rel in simp_all)

lemma slots_kept:
  assumes "f new = []" and "\<And>k. e = TaskReaped k \<Longrightarrow> k < length ys \<and> f (ys ! k) = []"
  shows "concat (map f (slots_after new e s ys)) = concat (map f ys)"
proof (cases e)
  case (TaskReaped k)
  then have k: "k < length ys" "f (ys ! k) = []" using assms(2) by simp_all
  then have "concat (map f ys) = concat (map f (take k ys)) @ concat (map f (drop (Suc k) ys))"
    by (subst split_at [OF k(1)]) simp
  then show ?thesis using TaskReaped by simp
qed (use assms(1) in simp_all)

lemma reaped_slot:
  assumes "server_step s (TaskReaped k) v" and "list_all2 Q (sv_tasks s) ys"
  shows "k < length ys" "Q (sv_tasks s ! k) (ys ! k)" "\<not> t_running (sv_tasks s ! k)"
  using assms by (auto simp: list_all2_conv_all_nth server_step_simps)

lemma server_step_sessions:
  assumes ok: "sessions_ok s" and st: "server_step (sy_server s) e v" and may: "may_end e (sy_phases s)"
  shows "sessions_ok (s\<lparr>sy_server := v, sy_phases := slots_after Starting e (sy_server s) (sy_phases s)\<rparr>)"
proof -
  let ?phs = "sy_phases s"
  define R where "R t p \<longleftrightarrow> (phase_ids p \<noteq> [] \<longrightarrow> t_running t) \<and> (\<forall>i \<in> set (phase_ids p).
      \<exists>info. fmlookup (registry (sy_metrics s)) i = Some info \<and> sock_ip (ci_src info) = t_ip t)" for t :: task and p
  define open_of where "open_of p = (if is_open_phase p then [p] else [])" for p
  have opens: "filter is_open_phase phs = concat (map open_of phs)" for phs
    by (induction phs) (simp_all add: open_of_def)
  have rel: "list_all2 R (sv_tasks (sy_server s)) ?phs" using ok by (simp add: sessions_ok_def R_def [abs_def])
  have gone: "k < length ?phs \<and> phase_ids (?phs ! k) = [] \<and> open_of (?phs ! k) = []" if "e = TaskReaped k" for k
    using reaped_slot [OF st [unfolded that] rel] phase_ids_length(2) by (auto simp: R_def open_of_def)
  have "list_all2 R (sv_tasks v) (slots_after Starting e (sy_server s) ?phs)"
    using may by (intro slots_follow [OF st rel]) (simp_all add: R_def)
  moreover have "session_ids (slots_after Starting e (sy_server s) ?phs) = session_ids ?phs"
    unfolding session_ids_def using gone by (intro slots_kept) simp_all
  moreover have "filter is_open_phase (slots_after Starting e (sy_server s) ?phs) = filter is_open_phase ?phs"
    unfolding opens using gone by (intro slots_kept) (simp_all add: open_of_def)
  ultimately show ?thesis using ok by (simp add: sessions_ok_def R_def [abs_def])
qed

lemma system_ok_init: "system_ok cfg (system_init cfg)"
  using server_init_ok [of cfg] metrics_history.start
  by (auto simp: system_ok_def system_init_def sessions_ok_def server_init_def session_ids_def live_ids_def metrics_new_def)

lemma system_step_ok:
  assumes ok: "system_ok cfg s" and left: "ids_left (sy_metrics s)" and st: "system_step s e s'"
  shows "system_ok cfg s' \<and> next_id (sy_metrics s') \<in> {next_id (sy_metrics s), next_id (sy_metrics s) + 1}"
proof -
  obtain ops where h: "metrics_history ops (sy_metrics s)" and ses: "sessions_ok s"
    and srv: "server_ok (max_connections (limits cfg)) (limits_config.max_per_ip (limits cfg)) (sy_server s)"
    using ok by (auto simp: system_ok_def)
  from st show ?thesis
  proof cases
    case (server e' v)
    then show ?thesis
      using server_step_sessions [OF ses] accepts.step_inv [OF srv] h by (auto simp: system_ok_def)
  next
    case (task k op p m)
    have k: "k < length (sy_phases s)"
      using task(3) ses by (simp add: sessions_ok_def list_all2_conv_all_nth)
    show ?thesis
      using task_call_sessions [OF ses history_ok [OF h] k task(4-6)] task_call_history [OF ses h left k task(6)] srv task(2)
      by (auto simp: system_ok_def)
  qed
qed

lemma ids_left_below: "unat (next_id m) < 2 ^ 64 - 1 \<Longrightarrow> ids_left m"
proof -
  have "unat (- 1 :: u64) = 2 ^ 64 - 1" by (simp add: unsigned_minus_1_eq_mask mask_eq_exp_minus_1)
  then show "unat (next_id m) < 2 ^ 64 - 1 \<Longrightarrow> ids_left m" unfolding ids_left_def by (metis less_irrefl)
qed

lemma system_run_ok:
  "steps system_step (system_init cfg) es s \<Longrightarrow> length es < 2 ^ 64 - 1 \<Longrightarrow>
     system_ok cfg s \<and> unat (next_id (sy_metrics s)) \<le> 1 + length es"
proof (induction "system_init cfg" es s rule: steps.induct)
  case steps_Nil
  show ?case using system_ok_init by (simp add: system_init_def metrics_new_def)
next
  case (steps_snoc es s e s')
  then have ok: "system_ok cfg s" and n: "unat (next_id (sy_metrics s)) \<le> 1 + length es" by simp_all
  have left: "ids_left (sy_metrics s)" using n steps_snoc.prems by (intro ids_left_below) simp
  from system_step_ok [OF ok left steps_snoc.hyps(3)] n unat_u64_Suc [of "next_id (sy_metrics s)"] left
  show ?case by (auto simp: ids_left_def)
qed

text \<open>Counting sessions against running tasks.\<close>

lemma sessions_bound:
  assumes "list_all2 (\<lambda>t p. (phase_ids p \<noteq> [] \<longrightarrow> t_running t) \<and> (\<forall>i \<in> set (phase_ids p). Q i (t_ip t))) ts phs"
  shows "length (session_ids phs) \<le> length (filter t_running ts)"
    "\<exists>xs. {i \<in> set (session_ids phs). \<forall>a. Q i a \<longrightarrow> a = ip} \<subseteq> set xs \<and>
       length xs \<le> length (filter (\<lambda>t. t_running t \<and> t_ip t = ip) ts)"
  using assms
proof (induction rule: list_all2_induct)
  case (Cons t ts p phs)
  { case 1 show ?case using Cons phase_ids_length(1) [of p] by (cases "phase_ids p") (auto simp: session_ids_def) }
  { case 2
    obtain xs where xs: "{i \<in> set (session_ids phs). \<forall>a. Q i a \<longrightarrow> a = ip} \<subseteq> set xs"
      "length xs \<le> length (filter (\<lambda>t. t_running t \<and> t_ip t = ip) ts)" using Cons.IH(2) by blast
    show ?case
    proof (cases "t_ip t = ip \<and> phase_ids p \<noteq> []")
      case True
      then show ?thesis using xs Cons.hyps(1) phase_ids_length(1) [of p]
        by (intro exI [of _ "phase_ids p @ xs"]) (auto simp: session_ids_def)
    next
      case False
      then show ?thesis using xs Cons.hyps(1) by (intro exI [of _ xs]) (auto simp: session_ids_def)
    qed }
qed (auto simp: session_ids_def)

text \<open>The registry and the sessions of the tasks, at any moment of a run.\<close>

lemma system_sessions:
  assumes "steps system_step (system_init cfg) es s" and "length es < 2 ^ 64 - 1"
  shows "live_ids (sy_metrics s) = set (session_ids (sy_phases s))" "distinct (session_ids (sy_phases s))"
    "active_conns (sy_metrics s) = of_nat (length (session_ids (sy_phases s)))" "metrics_ok (sy_metrics s)"
    "sessions_ok s"
    "fits_caps (max_connections (limits cfg)) (limits_config.max_per_ip (limits cfg)) (running_ips (sv_tasks (sy_server s)))"
proof -
  let ?m = "sy_metrics s" and ?ids = "session_ids (sy_phases s)"
  obtain ops where h: "metrics_history ops ?m" and ses: "sessions_ok s"
    and srv: "server_ok (max_connections (limits cfg)) (limits_config.max_per_ip (limits cfg)) (sy_server s)"
    using system_run_ok [OF assms] by (auto simp: system_ok_def)
  then have held: "mset ?ids = mset_set (live_ids ?m)" by (simp add: sessions_ok_def)
  show live: "live_ids ?m = set ?ids" using held by (metis finite_live finite_set_mset_mset_set set_mset_mset)
  show dist: "distinct ?ids"
    using held by (metis distinct_sorted_list_of_set mset_eq_imp_distinct_iff mset_sorted_list_of_multiset
        sorted_list_of_mset_set)
  have "card (live_ids ?m) = length ?ids" using live dist distinct_card by metis
  then show "active_conns ?m = of_nat (length ?ids)"
    using history_counts [OF h] by (simp add: active_exact_def live_ids_def fcard.rep_eq)
  show "metrics_ok ?m" "sessions_ok s" using history_ok [OF h] ses by simp_all
  show "fits_caps (max_connections (limits cfg)) (limits_config.max_per_ip (limits cfg)) (running_ips (sv_tasks (sy_server s)))"
    using srv unfolding server_ok_def pool_ok_def by metis
qed

lemma sessions_within_cap:
  assumes "sessions_ok s" and "fits_caps (Some n) mp (running_ips (sv_tasks (sy_server s)))"
  shows "length (session_ids (sy_phases s)) \<le> n"
proof -
  have "length (session_ids (sy_phases s)) \<le> length (filter t_running (sv_tasks (sy_server s)))"
    using assms(1) unfolding sessions_ok_def
    by (intro sessions_bound(1) [where Q = "\<lambda>i a. \<exists>info. fmlookup (registry (sy_metrics s)) i = Some info \<and> sock_ip (ci_src info) = a"]) simp
  then show ?thesis using assms(2) by (simp add: fits_caps_def running_ips_count)
qed

section \<open>Properties\<close>

text \<open>C8: a connection's handler, whatever its client and the network do, touches the shared
  metrics only by a sequence of calls its phases allow: at most one error, or one
  registration from its own peer's address, bytes counted under the id it was given, one
  success and then one removal of that id, in this order; it returns only before a session
  or after its end, it is inside one exactly while it relays, and it never panics. What it
  tells the event bus about sessions has its place in that order: among its calls and those
  events, the opening is the next thing after the registration and the end the next thing
  after the removal, both with that id. The order is that of the handler's journal, which
  every metrics call and every send enters where it is made.\<close>

theorem handle_follows:
  "case handle hs cfg peer cursor c m of
     ((c', m', st), cursor') \<Rightarrow>
       \<exists>ops p as. task_run ops Starting m = Some (p, m') \<and> list_all (opens_as peer) ops \<and> phase_at st p \<and>
         journal c' = journal c @ as \<and> evs c' = evs c @ events_of as \<and>
         filter session_act as = task_acts ops Starting m"
proof -
  obtain c' m' st cursor' where h: "handle hs cfg peer cursor c m = ((c', m', st), cursor')"
    by (metis prod.collapse)
  from handle_follows_phases [OF h] h show ?thesis by (fastforce simp: follows_def advances_def moves_def)
qed

text \<open>C5: the whole server at work. Under any interleaving of the accept loop with the metrics
  calls of all its tasks (fewer events than 64-bit ids), the registry lists exactly the
  sessions open at that moment, each once; the active counter is their number, which is
  within \<open>max_connections\<close>, and at most \<open>max_per_ip\<close> of them come from one address; the
  sessions begun are those ended in success plus those open; and once the server has
  returned the registry is empty, the active counter zero, and every session begun was
  counted as a success.\<close>

theorem system_consistent:
  assumes "steps system_step (system_init cfg) es s" and "length es < 2 ^ 64 - 1"
    and "m = sy_metrics s" and "phs = sy_phases s"
  shows "live_ids m = set (session_ids phs) \<and> distinct (session_ids phs) \<and>
    active_conns m = of_nat (length (session_ids phs)) \<and>
    (\<forall>n. max_connections (limits cfg) = Some n \<longrightarrow> card (live_ids m) \<le> n) \<and>
    (\<forall>n ip. limits_config.max_per_ip (limits cfg) = Some n \<longrightarrow>
       card {i. \<exists>info. fmlookup (registry m) i = Some info \<and> sock_ip (ci_src info) = ip} \<le> n) \<and>
    total_conns m = successes m + of_nat (length (filter is_open_phase phs)) \<and>
    (server_returned (sy_server s) \<longrightarrow> live_ids m = {} \<and> active_conns m = 0 \<and> successes m = total_conns m)"
proof -
  let ?ts = "sv_tasks (sy_server s)"
  note facts = system_sessions [OF assms(1,2), folded assms(3,4)]
  define Q where "Q i a \<longleftrightarrow> (\<exists>info. fmlookup (registry m) i = Some info \<and> sock_ip (ci_src info) = a)" for i a
  have rel: "list_all2 (\<lambda>t p. (phase_ids p \<noteq> [] \<longrightarrow> t_running t) \<and> (\<forall>i \<in> set (phase_ids p). Q i (t_ip t))) ?ts phs"
    and tot: "total_conns m = successes m + of_nat (length (filter is_open_phase phs))"
    using facts(5) by (simp_all add: sessions_ok_def Q_def assms(3,4))
  note live = facts(1) and dist = facts(2) and act = facts(3) and caps = facts(6)
  have card: "card (live_ids m) = length (session_ids phs)" using live dist distinct_card by metis
  have per: "card {i. Q i ip} \<le> length (filter (\<lambda>t. t_running t \<and> t_ip t = ip) ?ts)" for ip
  proof -
    obtain xs where xs: "{i \<in> set (session_ids phs). \<forall>a. Q i a \<longrightarrow> a = ip} \<subseteq> set xs"
      "length xs \<le> length (filter (\<lambda>t. t_running t \<and> t_ip t = ip) ?ts)"
      using sessions_bound(2) [OF rel] by blast
    have "i \<in> set xs" if "Q i ip" for i
    proof -
      have "i \<in> set (session_ids phs)" "\<forall>a. Q i a \<longrightarrow> a = ip"
        using that unfolding live [symmetric] by (auto simp: Q_def live_ids_def fmlookup_dom_iff)
      then show ?thesis using xs(1) by blast
    qed
    then have "{i. Q i ip} \<subseteq> set xs" by blast
    then have "card {i. Q i ip} \<le> length xs" by (meson card_length card_mono finite_set order_trans)
    then show ?thesis using xs(2) by linarith
  qed
  have ret: "session_ids phs = []" "filter is_open_phase phs = []" if "server_returned (sy_server s)"
    using that list_all2_lengthD [OF rel] by (simp_all add: server_returned_def session_ids_def)
  have c1: "length (filter t_running ?ts) \<le> n" if "max_connections (limits cfg) = Some n" for n
    using caps that by (simp add: fits_caps_def running_ips_count)
  have c2: "length (filter (\<lambda>t. t_running t \<and> t_ip t = ip) ?ts) \<le> n"
    if "limits_config.max_per_ip (limits cfg) = Some n" for n ip
    using caps that by (simp add: fits_caps_def running_ips_count)
  have "card (live_ids m) \<le> n" if "max_connections (limits cfg) = Some n" for n
    unfolding card by (rule order_trans [OF sessions_bound(1) [OF rel] c1 [OF that]])
  moreover have "card {i. Q i ip} \<le> n" if "limits_config.max_per_ip (limits cfg) = Some n" for n ip
    by (rule order_trans [OF per c2 [OF that]])
  ultimately show ?thesis using live dist act tot ret unfolding Q_def by simp
qed

definition one_session :: system where
  "one_session =
     \<lparr>sy_server = sample_server,
      sy_metrics = snd (register metrics_new sample_client ''a'' KindConnect), sy_phases = [Open 1]\<rparr>"

definition one_session_info :: conn_info where
  "one_session_info =
     \<lparr>ci_id = 1, ci_src = sample_client, ci_target = ''a'', ci_kind = KindConnect, ci_up = 0, ci_down = 0\<rparr>"

definition accepted_system :: system where
  "accepted_system = (system_init default_config)\<lparr>sy_server := sample_server, sy_phases := [Starting]\<rparr>"

lemma sample_server_tasks: "sv_tasks sample_server = [\<lparr>t_ip = sock_ip sample_client, t_running = True\<rparr>]"
  by (simp add: sample_server_def on_accept_def server_init_def try_admit_def admission_new_def Let_def ip_count_def
      default_config_def limits_default_def)

lemma one_session_steps:
  "system_step (system_init default_config) (SysServer (Accepted sample_client)) accepted_system"
  "system_step accepted_system (SysTask 0 (TkOpen sample_client ''a'' KindConnect)) one_session"
proof -
  show "system_step (system_init default_config) (SysServer (Accepted sample_client)) accepted_system"
    using system_step.server [of "system_init default_config" "Accepted sample_client" sample_server]
      server_step.accept [of "server_init default_config" sample_client] sample_server_tasks
    by (simp add: accepted_system_def system_init_def sample_server_def [symmetric]) (simp add: server_init_def)
  show "system_step accepted_system (SysTask 0 (TkOpen sample_client ''a'' KindConnect)) one_session"
    using system_step.task [of 0 accepted_system "TkOpen sample_client ''a'' KindConnect" "Open 1"
        "snd (register metrics_new sample_client ''a'' KindConnect)"] sample_server_tasks
    by (simp add: accepted_system_def system_init_def one_session_def register_def Let_def metrics_new_def)
qed

lemma one_session_run:
  "steps system_step (system_init default_config)
     [SysServer (Accepted sample_client), SysTask 0 (TkOpen sample_client ''a'' KindConnect)] one_session"
  using steps_snoc [OF steps_one [of system_step, OF one_session_steps(1)] one_session_steps(2)] by simp

theorem system_consistent_witness:
  "live_ids (sy_metrics one_session) = {1} \<and> active_conns (sy_metrics one_session) = 1"
proof -
  from system_consistent [OF one_session_run _ refl refl]
  have "live_ids (sy_metrics one_session) = set (session_ids (sy_phases one_session))"
    "active_conns (sy_metrics one_session) = of_nat (length (session_ids (sy_phases one_session)))" by simp_all
  then show ?thesis by (simp add: one_session_def session_ids_def)
qed

end
