(* ===== verification/Bus.thy ===== *)
theory Bus
  imports System
begin

text \<open>
  The event bus beside the metrics. A task sends a session event right after the call on the
  metrics that it reports, but the two are not one atomic step: another task may run in
  between. The bus is the order in which the events were sent, which is the order every
  subscriber that keeps up receives them in (\<open>tokio::sync::broadcast\<close>, modelled with its
  lagging receivers in \<open>Admin_Server\<close>). What it says of the open sessions is compared with the
  registry.
\<close>

section \<open>Model\<close>

record bus =
  bu_system :: system
  bu_pending :: "event list list" \<comment> \<open>what each task has yet to send\<close>
  bu_sent :: "event list"

definition bus_init :: "config \<Rightarrow> bus" where
  "bus_init cfg = \<lparr>bu_system = system_init cfg, bu_pending = [], bu_sent = []\<rparr>"

datatype bus_event =
    BusServer server_event
  | BusCall nat task_op
  | BusSend nat
  | BusOther event \<comment> \<open>a log line, an authentication, an error\<close>

text \<open>A handler returns with nothing left to send.\<close>

fun all_sent :: "server_event \<Rightarrow> event list list \<Rightarrow> bool" where
  "all_sent (TaskEnded k) pend \<longleftrightarrow> pend ! k = []"
| "all_sent e pend \<longleftrightarrow> True"

inductive bus_step :: "bus \<Rightarrow> bus_event \<Rightarrow> bus \<Rightarrow> bool" where
  server: "system_step (bu_system b) (SysServer e) s \<Longrightarrow> all_sent e (bu_pending b) \<Longrightarrow>
    bus_step b (BusServer e)
      (b\<lparr>bu_system := s, bu_pending := slots_after [] e (sy_server (bu_system b)) (bu_pending b)\<rparr>)"
| call: "system_step (bu_system b) (SysTask k op) s \<Longrightarrow> bu_pending b ! k = [] \<Longrightarrow>
    bus_step b (BusCall k op)
      (b\<lparr>bu_system := s, bu_pending := (bu_pending b)
         [k := call_events op (sy_phases (bu_system b) ! k) (sy_metrics (bu_system b))]\<rparr>)"
| send: "k < length (bu_pending b) \<Longrightarrow> bu_pending b ! k = ev # rest \<Longrightarrow>
    bus_step b (BusSend k)
      (b\<lparr>bu_pending := (bu_pending b)[k := rest], bu_sent := bu_sent b @ [ev]\<rparr>)"
| other: "\<not> session_event ev \<Longrightarrow>
    bus_step b (BusOther ev) (b\<lparr>bu_sent := bu_sent b @ [ev]\<rparr>)"

inductive_cases bus_serverE: "bus_step b (BusServer e) b'"
inductive_cases bus_callE: "bus_step b (BusCall k op) b'"
inductive_cases bus_sendE: "bus_step b (BusSend k) b'"

text \<open>What a subscriber that keeps count takes to be open.\<close>

fun hear :: "event \<Rightarrow> u64 set \<Rightarrow> u64 set" where
  "hear (EvConnect i src target kind) X = insert i X"
| "hear (EvClosed i) X = X - {i}"
| "hear ev X = X"

fun begun :: "event \<Rightarrow> u64 list" where
  "begun (EvConnect i src target kind) = [i]"
| "begun ev = []"

fun ended :: "event \<Rightarrow> u64 list" where
  "ended (EvClosed i) = [i]"
| "ended ev = []"

abbreviation begun_ids :: "event list \<Rightarrow> u64 list" where
  "begun_ids es \<equiv> concat (map begun es)"

abbreviation ended_ids :: "event list \<Rightarrow> u64 list" where
  "ended_ids es \<equiv> concat (map ended es)"

fun bus_visible :: "bus_event \<Rightarrow> system_event option" where
  "bus_visible (BusServer e) = Some (SysServer e)"
| "bus_visible (BusCall k op) = Some (SysTask k op)"
| "bus_visible ev = None"

interpretation without_bus: stuttering_simulation bus_step system_step bu_system bus_visible
  by unfold_locales (auto elim!: bus_step.cases)

section \<open>Facts\<close>

text \<open>What was sent or is about to be.\<close>

definition told :: "(event \<Rightarrow> u64 list) \<Rightarrow> bus \<Rightarrow> u64 multiset" where
  "told f b = mset (concat (map f (bu_sent b))) + mset (concat (map (\<lambda>q. concat (map f q)) (bu_pending b)))"

definition slot_ok :: "phase \<Rightarrow> event list \<Rightarrow> bool" where
  "slot_ok p q \<longleftrightarrow>
     q = [] \<or> (\<exists>i src target kind. q = [EvConnect i src target kind] \<and> p = Open i) \<or>
     (\<exists>i. q = [EvClosed i] \<and> p = Released)"

definition in_order :: "event list \<Rightarrow> bool" where
  "in_order es \<longleftrightarrow> (\<forall>xs i ys. es = xs @ EvClosed i # ys \<longrightarrow> i \<in> set (begun_ids xs))"

definition bus_ok :: "bus \<Rightarrow> bool" where
  "bus_ok b \<longleftrightarrow>
     list_all2 slot_ok (sy_phases (bu_system b)) (bu_pending b) \<and>
     list_all2 (\<lambda>t q. \<not> t_running t \<longrightarrow> q = []) (sv_tasks (sy_server (bu_system b))) (bu_pending b) \<and>
     told begun b = mset_set (live_ids (sy_metrics (bu_system b))) + told ended b \<and>
     (\<forall>i \<in># told begun b. i < next_id (sy_metrics (bu_system b)) \<and> count (told begun b) i = 1) \<and>
     (\<forall>i \<in># told ended b. i \<in> set (begun_ids (bu_sent b))) \<and>
     total_conns (sy_metrics (bu_system b)) = of_nat (size (told begun b)) \<and>
     fold hear (bu_sent b) {} = set (begun_ids (bu_sent b)) - set (ended_ids (bu_sent b)) \<and>
     in_order (bu_sent b)"

lemma bus_okD:
  assumes "bus_ok b"
  shows "list_all2 slot_ok (sy_phases (bu_system b)) (bu_pending b)"
    "list_all2 (\<lambda>t q. \<not> t_running t \<longrightarrow> q = []) (sv_tasks (sy_server (bu_system b))) (bu_pending b)"
    "told begun b = mset_set (live_ids (sy_metrics (bu_system b))) + told ended b"
    "i \<in># told begun b \<Longrightarrow> i < next_id (sy_metrics (bu_system b)) \<and> count (told begun b) i = 1"
    "i \<in># told ended b \<Longrightarrow> i \<in> set (begun_ids (bu_sent b))"
    "total_conns (sy_metrics (bu_system b)) = of_nat (size (told begun b))"
    "fold hear (bu_sent b) {} = set (begun_ids (bu_sent b)) - set (ended_ids (bu_sent b))"
    "in_order (bu_sent b)"
  using assms unfolding bus_ok_def by blast+

lemma bus_okI:
  assumes "list_all2 slot_ok (sy_phases (bu_system b)) (bu_pending b)"
    and "list_all2 (\<lambda>t q. \<not> t_running t \<longrightarrow> q = []) (sv_tasks (sy_server (bu_system b))) (bu_pending b)"
    and "told begun b = mset_set (live_ids (sy_metrics (bu_system b))) + told ended b"
    and "\<And>i. i \<in># told begun b \<Longrightarrow> i < next_id (sy_metrics (bu_system b)) \<and> count (told begun b) i = 1"
    and "\<And>i. i \<in># told ended b \<Longrightarrow> i \<in> set (begun_ids (bu_sent b))"
    and "total_conns (sy_metrics (bu_system b)) = of_nat (size (told begun b))"
    and "fold hear (bu_sent b) {} = set (begun_ids (bu_sent b)) - set (ended_ids (bu_sent b))"
    and "in_order (bu_sent b)"
  shows "bus_ok b"
  unfolding bus_ok_def using assms by blast

lemma in_order_snoc:
  "in_order es \<Longrightarrow> (\<And>i. ev = EvClosed i \<Longrightarrow> i \<in> set (begun_ids es)) \<Longrightarrow> in_order (es @ [ev])"
  unfolding in_order_def by (auto simp: append_eq_append_conv2 append_eq_Cons_conv Cons_eq_append_conv)

lemma bus_ok_init: "bus_ok (bus_init cfg)"
  by (simp add: bus_ok_def bus_init_def system_init_def server_init_def told_def metrics_new_def live_ids_def in_order_def)

text \<open>What a call does to the registry and the counter is what it then announces.\<close>

lemma call_announced:
  assumes "phase_step op p m = Some (q, n)" and "metrics_ok m" and "\<And>i. p = Counted i \<Longrightarrow> i \<in> live_ids m"
  shows "mset_set (live_ids n) + mset (ended_ids (call_events op p m)) =
      mset_set (live_ids m) + mset (begun_ids (call_events op p m))"
    "begun_ids (call_events op p m) = [] \<and> next_id n = next_id m \<or>
     begun_ids (call_events op p m) = [next_id m] \<and> next_id n = next_id m + 1"
    "total_conns n = total_conns m + of_nat (length (begun_ids (call_events op p m)))"
    "slot_ok q (call_events op p m)"
    "ended_ids (call_events op p m) = [] \<or> (\<exists>i. p = Counted i \<and> ended_ids (call_events op p m) = [i])"
proof -
  have fresh: "next_id m \<notin> live_ids m" using next_id_unused [OF assms(2)] by (simp add: live_ids_def)
  have live: "live_ids (record_error m c) = live_ids m" "live_ids (record_success m) = live_ids m" for c
    by (simp_all add: record_error_def record_success_def Let_def live_ids_def)
  show "mset_set (live_ids n) + mset (ended_ids (call_events op p m)) =
      mset_set (live_ids m) + mset (begun_ids (call_events op p m))"
  proof (cases op)
    case (TkOpen src target kind)
    then have "n = snd (register m src target kind)" using assms(1) by (cases p) (auto split: prod.splits)
    then show ?thesis using TkOpen fresh by (simp add: live_register)
  next
    case TkClose
    then obtain i where i: "p = Counted i" "n = unregister m i" using assms(1) by (cases p) auto
    then have "mset_set (live_ids m) = add_mset i (mset_set (live_ids m - {i}))"
      using assms(3) by (intro mset_set.remove) simp_all
    then show ?thesis using TkClose i by (simp add: live_unregister)
  qed (use assms(1) in \<open>cases p; auto simp: live\<close>)+
  show "begun_ids (call_events op p m) = [] \<and> next_id n = next_id m \<or>
     begun_ids (call_events op p m) = [next_id m] \<and> next_id n = next_id m + 1"
    using assms(1) by (cases rule: phase_step_cases)
      (auto simp: register_def Let_def record_error_def record_success_def add_up_def add_down_def unregister_def
        split: option.splits)
  show "total_conns n = total_conns m + of_nat (length (begun_ids (call_events op p m)))"
    using assms(1) by (cases rule: phase_step_cases)
      (auto simp: register_def Let_def record_error_def record_success_def add_counters unregister_def)
  show "slot_ok q (call_events op p m)"
    using assms(1) by (cases rule: phase_step_cases) (auto simp: register_def Let_def slot_ok_def)
  show "ended_ids (call_events op p m) = [] \<or> (\<exists>i. p = Counted i \<and> ended_ids (call_events op p m) = [i])"
    using assms(1) by (cases rule: phase_step_cases) auto
qed

text \<open>An opening that is still to be sent is that of the task's open session.\<close>

lemma session_owner:
  assumes "distinct (session_ids phs)" and "j < length phs" and "k < length phs"
    and "i \<in> set (phase_ids (phs ! j))" and "i \<in> set (phase_ids (phs ! k))"
  shows "j = k"
proof (rule ccontr)
  assume ne: "j \<noteq> k"
  have "mset (session_ids phs) = mset (session_ids (phs[j := Starting]) @ phase_ids (phs ! j))"
    using session_ids_update [OF assms(2), of Starting] by simp
  then have "distinct (session_ids (phs[j := Starting]) @ phase_ids (phs ! j))"
    using assms(1) by (metis mset_eq_imp_distinct_iff)
  moreover have "i \<in> set (session_ids (phs[j := Starting]))"
    using session_member [of k "phs[j := Starting]" i] assms(3,5) ne by simp
  ultimately show False using assms(4) by auto
qed

text \<open>How the totals move.\<close>

lemma told_slot:
  assumes "k < length (bu_pending b)" and "bu_pending b' = (bu_pending b)[k := q]" and "bu_sent b' = bu_sent b @ es"
  shows "told f b' + mset (concat (map f (bu_pending b ! k))) =
    told f b + mset (concat (map f q)) + mset (concat (map f es))"
  using mset_concat_update [OF assms(1), of "\<lambda>q. concat (map f q)" q]
  by (simp add: told_def assms(2,3) ac_simps)

lemma told_nothing:
  "bu_pending b' = bu_pending b \<Longrightarrow> bu_sent b' = bu_sent b @ [ev] \<Longrightarrow> f ev = [] \<Longrightarrow> told f b' = told f b"
  by (simp add: told_def)

lemma pending_slot:
  assumes "bus_ok b" and "i \<in># told begun b" and "i \<notin> set (begun_ids (bu_sent b))"
  shows "\<exists>k < length (sy_phases (bu_system b)). sy_phases (bu_system b) ! k = Open i"
proof -
  have rel: "list_all2 slot_ok (sy_phases (bu_system b)) (bu_pending b)" by (rule bus_okD(1) [OF assms(1)])
  obtain q where "q \<in> set (bu_pending b)" "i \<in> set (begun_ids q)" using assms(2,3) by (auto simp: told_def)
  then obtain k where k: "k < length (bu_pending b)" "i \<in> set (begun_ids (bu_pending b ! k))"
    by (metis in_set_conv_nth)
  then have "slot_ok (sy_phases (bu_system b) ! k) (bu_pending b ! k)"
    using rel by (simp add: list_all2_conv_all_nth)
  then have "sy_phases (bu_system b) ! k = Open i" using k(2) by (auto simp: slot_ok_def)
  then show ?thesis using k(1) list_all2_lengthD [OF rel] by auto
qed

text \<open>The subscriber's view, counted id by id.\<close>

lemma concat_map_concat: "concat (map f (concat qs)) = concat (map (\<lambda>q. concat (map f q)) qs)"
  by (induction qs) simp_all

lemma heard_counts:
  fixes tb te :: "u64 multiset"
  assumes eq: "tb = mset_set live + te" and one: "\<And>i. i \<in># tb \<Longrightarrow> i < n \<and> count tb i = 1"
    and tb: "tb = mset bs + mset bd" and te: "te = mset xs + mset xd"
  shows "distinct bs" "distinct xs"
    "(\<And>i. i \<in># te \<Longrightarrow> i \<in> set bs) \<Longrightarrow> finite live \<Longrightarrow> set bs - set xs = live - set bd \<union> set xd"
proof -
  have le: "count tb i \<le> 1" for i using one [of i] by (cases "i \<in># tb") (auto simp: not_in_iff)
  have sp: "count tb i = count (mset bs) i + count (mset bd) i"
    "count tb i = count (mset_set live) i + (count (mset xs) i + count (mset xd) i)" for i
    using tb eq te by (metis count_union)+
  have at_most: "distinct ys" if "\<And>i. count (mset ys) i \<le> 1" for ys :: "u64 list"
    using that by (metis distinct_count_atmost_1 count_mset_0_iff le_antisym less_one not_le)
  show "distinct bs" "distinct xs" using le sp by (intro at_most; metis add_leE)+
  assume sub: "\<And>i. i \<in># te \<Longrightarrow> i \<in> set bs" and fin: "finite live"
  have mem: "i \<in> set ys \<longleftrightarrow> 0 < count (mset ys) i" for i and ys :: "u64 list" by simp
  have "i \<in> set bs - set xs \<longleftrightarrow> i \<in> live - set bd \<union> set xd" for i
  proof -
    have "0 < count (mset xs) i + count (mset xd) i \<Longrightarrow> 0 < count (mset bs) i"
      using sub [of i] unfolding te mem [symmetric] by auto
    moreover have "i \<in> live \<longleftrightarrow> count (mset_set live) i = 1" "count (mset_set live) i \<le> 1"
      using fin by (cases "i \<in> live"; simp)+
    ultimately show ?thesis using le [of i] sp [of i] unfolding Diff_iff Un_iff mem by linarith
  qed
  then show "set bs - set xs = live - set bd \<union> set xd" by blast
qed

text \<open>The invariant, event by event.\<close>

lemma bus_ok_server:
  assumes ok: "bus_ok b" and st: "bus_step b (BusServer e) b'"
  shows "bus_ok b'"
proof -
  let ?s = "bu_system b"
  obtain s where s: "system_step ?s (SysServer e) s" "all_sent e (bu_pending b)"
    and b': "b' = b\<lparr>bu_system := s, bu_pending := slots_after [] e (sy_server ?s) (bu_pending b)\<rparr>"
    using st by (rule bus_serverE) auto
  from s(1) obtain v where v: "server_step (sy_server ?s) e v"
    "s = ?s\<lparr>sy_server := v, sy_phases := slots_after Starting e (sy_server ?s) (sy_phases ?s)\<rparr>"
    by cases auto
  define Q where "Q t q \<longleftrightarrow> (\<not> t_running t \<longrightarrow> q = [])" for t :: task and q :: "event list"
  have rel: "list_all2 slot_ok (sy_phases ?s) (bu_pending b)" "list_all2 Q (sv_tasks (sy_server ?s)) (bu_pending b)"
    using bus_okD(1,2) [OF ok] by (simp_all add: Q_def [abs_def])
  have "list_all2 Q (sv_tasks v) (slots_after [] e (sy_server ?s) (bu_pending b))"
    using s(2) by (intro slots_follow [OF v(1) rel(2)]) (simp_all add: Q_def)
  moreover have "list_all2 slot_ok (slots_after Starting e (sy_server ?s) (sy_phases ?s))
      (slots_after [] e (sy_server ?s) (bu_pending b))"
    using rel(1) by (cases e) (auto simp: slot_ok_def intro!: list_all2_appendI list_all2_takeI list_all2_dropI)
  moreover have "k < length (bu_pending b) \<and> bu_pending b ! k = []" if "e = TaskReaped k" for k
    using reaped_slot [OF v(1) [unfolded that] rel(2)] by (simp add: Q_def)
  then have told: "told f b' = told f b" for f
    using slots_kept [of "\<lambda>q. concat (map f q)" "[]" e "bu_pending b" "sy_server ?s"] by (simp add: told_def b')
  ultimately show ?thesis using bus_okD [OF ok]
    by (intro bus_okI) (simp_all only: told, simp_all add: b' v(2) Q_def [abs_def])
qed

lemma begun_once:
  assumes ids: "\<And>i. i \<in># X \<Longrightarrow> i < next_id m \<and> count X i = 1"
    and new: "is = [] \<and> next_id n = next_id m \<or> is = [next_id m] \<and> next_id n = next_id m + 1"
    and left: "ids_left m" and i: "i \<in># X + mset is"
  shows "i < next_id n \<and> count (X + mset is) i = 1"
proof -
  have up: "next_id m < next_id m + 1" using left unfolding ids_left_def by (rule next_id_self)
  have "count X (next_id m) = 0" using ids by (metis less_irrefl not_in_iff)
  then show ?thesis using new ids [of i] i up less_trans [OF _ up, of i] by (cases "i = next_id m") auto
qed

text \<open>A closing goes out only for a session whose opening has been sent.\<close>

lemma ended_sent:
  assumes ok: "bus_ok b" and ses: "sessions_ok (bu_system b)" and dist: "distinct (session_ids (sy_phases (bu_system b)))"
    and k: "k < length (sy_phases (bu_system b))"
    and close: "is = [] \<or> (\<exists>i. sy_phases (bu_system b) ! k = Counted i \<and> is = [i])"
    and i: "i \<in># told ended b + mset is"
  shows "i \<in> set (begun_ids (bu_sent b))"
proof (cases "i \<in># told ended b")
  case True
  then show ?thesis by (rule bus_okD(5) [OF ok])
next
  case False
  then have c: "sy_phases (bu_system b) ! k = Counted i" using close i by auto
  have own: "i \<in># told begun b" using own_session(2) [OF ses k, of i] c bus_okD(3) [OF ok] by simp
  show ?thesis
  proof (rule ccontr)
    assume "i \<notin> set (begun_ids (bu_sent b))"
    then obtain j where "j < length (sy_phases (bu_system b))" "sy_phases (bu_system b) ! j = Open i"
      using pending_slot [OF ok own] by blast
    with session_owner [OF dist this(1) k, of i] c show False by simp
  qed
qed

lemma bus_ok_call:
  assumes ok: "bus_ok b" and st: "bus_step b (BusCall k op) b'"
    and ses: "sessions_ok (bu_system b)" "metrics_ok (sy_metrics (bu_system b))" "ids_left (sy_metrics (bu_system b))"
    and dist: "distinct (session_ids (sy_phases (bu_system b)))"
  shows "bus_ok b'"
proof -
  let ?s = "bu_system b" and ?m = "sy_metrics (bu_system b)" and ?phs = "sy_phases (bu_system b)"
  define q where "q = call_events op (?phs ! k) ?m"
  obtain s where s: "system_step ?s (SysTask k op) s" "bu_pending b ! k = []"
    and b': "b' = b\<lparr>bu_system := s, bu_pending := (bu_pending b)[k := q]\<rparr>"
    using st unfolding q_def by (rule bus_callE) auto
  from s(1) obtain p n where n: "phase_step op (?phs ! k) ?m = Some (p, n)" "k < length (sv_tasks (sy_server ?s))"
      "t_running (sv_tasks (sy_server ?s) ! k)" "s = ?s\<lparr>sy_metrics := n, sy_phases := ?phs[k := p]\<rparr>"
    by cases auto
  note rel = bus_okD(1,2) [OF ok] and eq = bus_okD(3) [OF ok] and ids = bus_okD(4) [OF ok]
  have k: "k < length (bu_pending b)" "k < length ?phs" 
    using n(2) list_all2_lengthD [OF rel(1)] list_all2_lengthD [OF rel(2)] by simp_all
  have own: "i \<in> live_ids ?m" if "?phs ! k = Counted i" for i
    using own_session(2) [OF ses(1) k(2), of i] that by simp
  note call = call_announced [OF n(1) ses(2) own, folded q_def]
  have told: "told f b' = told f b + mset (concat (map f q))" for f
    using told_slot [OF k(1), of b' q "[]" f] s(2) by (simp add: b')
  have "list_all2 slot_ok (?phs[k := p]) ((bu_pending b)[k := q])" by (intro list_all2_update_cong rel call(4))
  moreover have "list_all2 (\<lambda>t q. \<not> t_running t \<longrightarrow> q = []) ((sv_tasks (sy_server ?s))[k := sv_tasks (sy_server ?s) ! k])
      ((bu_pending b)[k := q])" using n(3) by (intro list_all2_update_cong rel) simp
  moreover have "told begun b' = mset_set (live_ids n) + told ended b'"
  proof -
    have "told begun b' = (mset_set (live_ids ?m) + mset (begun_ids q)) + told ended b"
      unfolding told eq by (simp only: ac_simps)
    also have "\<dots> = (mset_set (live_ids n) + mset (ended_ids q)) + told ended b" by (simp only: call(1))
    finally show ?thesis by (simp only: told [of ended] ac_simps)
  qed
  moreover have "i < next_id n \<and> count (told begun b') i = 1" if "i \<in># told begun b'" for i
    using begun_once [OF ids call(2) ses(3) that [unfolded told]] unfolding told .
  moreover have "i \<in> set (begun_ids (bu_sent b))" if "i \<in># told ended b'" for i
    using ended_sent [OF ok ses(1) dist k(2) call(5) that [unfolded told]] .
  moreover have "total_conns n = of_nat (size (told begun b'))"
    using bus_okD(6) [OF ok] call(3) unfolding told by simp
  ultimately show ?thesis using bus_okD(7,8) [OF ok] by (intro bus_okI) (simp_all add: b' n(4))
qed

lemma bus_ok_send:
  assumes ok: "bus_ok b" and st: "bus_step b (BusSend k) b'" and ses: "sessions_ok (bu_system b)"
  shows "bus_ok b'"
proof -
  let ?s = "bu_system b" and ?phs = "sy_phases (bu_system b)" and ?sent = "bu_sent b"
  obtain ev rest where k: "k < length (bu_pending b)" "bu_pending b ! k = ev # rest"
    and b': "b' = b\<lparr>bu_pending := (bu_pending b)[k := rest], bu_sent := ?sent @ [ev]\<rparr>"
    using st by (rule bus_sendE) auto
  note d = bus_okD [OF ok]
  have slot: "slot_ok (?phs ! k) (ev # rest)" "k < length ?phs"
    using d(1) k by (auto simp: list_all2_conv_all_nth)
  then have rest: "rest = []" by (auto simp: slot_ok_def)
  have told: "told f b' = told f b" for f
    using told_slot [OF k(1), of b' rest "[ev]" f] by (simp add: b' k(2) rest)
  have waiting: "i \<in># told f b" if "i \<in> set (f ev)" for f i
    using that k nth_mem [OF k(1)] unfolding told_def by auto
  have over: "i \<in> set (begun_ids ?sent)" if "ev = EvClosed i" for i
    using d(5) waiting [of i ended] that by simp
  have new: "i \<notin> set (ended_ids ?sent)" if "i \<in> set (begun ev)" for i
  proof
    assume "i \<in> set (ended_ids ?sent)"
    then have "0 < count (told ended b) i" unfolding told_def by (simp add: count_greater_zero_iff)
    moreover have "?phs ! k = Open i" using slot that by (auto simp: slot_ok_def)
    then have "i \<in> live_ids (sy_metrics ?s)" using own_session(2) [OF ses slot(2), of i] by simp
    then have "count (mset_set (live_ids (sy_metrics ?s))) i = 1" by simp
    moreover have "count (told begun b) i = 1" using d(4) waiting [of i begun] that by blast
    moreover have "count (told begun b) i = count (mset_set (live_ids (sy_metrics ?s))) i + count (told ended b) i"
      using d(3) by (metis count_union)
    ultimately show False by linarith
  qed
  have "fold hear (?sent @ [ev]) {} = set (begun_ids (?sent @ [ev])) - set (ended_ids (?sent @ [ev]))"
    using d(7) new by (cases ev) auto
  moreover have "list_all2 slot_ok ?phs ((bu_pending b)[k := rest])"
    using list_all2_update_cong [OF d(1), of "?phs ! k" rest k] by (simp add: rest slot_ok_def)
  moreover have "list_all2 (\<lambda>t q. \<not> t_running t \<longrightarrow> q = []) (sv_tasks (sy_server ?s)) ((bu_pending b)[k := rest])"
    using list_all2_update_cong [OF d(2), of "sv_tasks (sy_server ?s) ! k" rest k] by (simp add: rest)
  moreover have "in_order (?sent @ [ev])" using in_order_snoc [OF d(8)] over by blast
  ultimately show ?thesis using d(3-6)
    by (intro bus_okI) (simp_all only: told, auto simp: b')
qed

lemma bus_ok_other:
  assumes ok: "bus_ok b" and st: "bus_step b (BusOther ev) b'"
  shows "bus_ok b'"
proof -
  have q: "\<not> session_event ev" and b': "b' = b\<lparr>bu_sent := bu_sent b @ [ev]\<rparr>"
    using st by (auto elim: bus_step.cases)
  have none: "begun ev = []" "ended ev = []" "hear ev X = X" "ev \<noteq> EvClosed i" for X i
    using q by (cases ev; simp)+
  have told: "told f b' = told f b" if "f ev = []" for f
    using that by (intro told_nothing) (simp_all add: b')
  have "in_order (bu_sent b @ [ev])" by (rule in_order_snoc [OF bus_okD(8) [OF ok]]) (simp add: none(4))
  then show ?thesis using bus_okD(1-7) [OF ok]
    by (intro bus_okI) (simp_all only: told none(1,2), auto simp: b' none)
qed

lemma bus_run_ok:
  assumes "steps bus_step (bus_init cfg) es b" and "length es < 2 ^ 64 - 1"
  shows "bus_ok b"
  using assms
proof (induction "bus_init cfg" es b rule: steps.induct)
  case steps_Nil
  show ?case by (rule bus_ok_init)
next
  case (steps_snoc es b e b')
  let ?es = "List.map_filter bus_visible es"
  have len: "length ?es < 2 ^ 64 - 1" using length_map_filter [of bus_visible es] steps_snoc.prems by simp
  have run: "steps system_step (system_init cfg) ?es (bu_system b)"
    using without_bus.run_sim [OF steps_snoc.hyps(1)] by (simp add: bus_init_def)
  note f = system_sessions [OF run len]
  have "ids_left (sy_metrics (bu_system b))"
    using system_run_ok [OF run len] length_map_filter [of bus_visible es] steps_snoc.prems by (intro ids_left_below) auto
  moreover have "bus_ok b" using steps_snoc by simp
  ultimately show ?case using steps_snoc.hyps(3) f bus_ok_server bus_ok_call bus_ok_send bus_ok_other
    by (cases e) blast+
qed

section \<open>Properties\<close>

text \<open>C7: what the event bus tells of the sessions. Under any interleaving of the accept loop, the
  metrics calls of all tasks and their sends (fewer events than 64-bit ids), every session
  is opened on the bus at most once and closed at most once, and closed only after it was
  opened. A subscriber that keeps count takes to be open the registered sessions, except
  that it has not heard of one whose opening is still to be sent and has not forgotten one
  whose end is; so it agrees with the registry whenever no send is outstanding. Once the
  server has returned it takes none to be open, and every session the metrics count was
  opened and closed on the bus.\<close>

theorem bus_tells_sessions:
  assumes "steps bus_step (bus_init cfg) es b" and "length es < 2 ^ 64 - 1"
    and "m = sy_metrics (bu_system b)" and "due = concat (bu_pending b)" and "sent = bu_sent b"
  shows "distinct (begun_ids sent) \<and> distinct (ended_ids sent) \<and>
    (\<forall>xs i ys. sent = xs @ EvClosed i # ys \<longrightarrow> i \<in> set (begun_ids xs)) \<and>
    fold hear sent {} = live_ids m - set (begun_ids due) \<union> set (ended_ids due) \<and>
    (due = [] \<longrightarrow> fold hear sent {} = live_ids m) \<and>
    (server_returned (sy_server (bu_system b)) \<longrightarrow> fold hear sent {} = {} \<and>
      mset (ended_ids sent) = mset (begun_ids sent) \<and> total_conns m = of_nat (length (begun_ids sent)))"
proof -
  let ?es = "List.map_filter bus_visible es"
  have run: "steps system_step (system_init cfg) ?es (bu_system b)" "length ?es < 2 ^ 64 - 1"
    using without_bus.run_sim [OF assms(1)] length_map_filter [of bus_visible es] assms(2) by (simp_all add: bus_init_def)
  have ok: "bus_ok b" using bus_run_ok [OF assms(1,2)] .
  note d = bus_okD [OF ok, folded assms(3,5)]
  have told: "told f b = mset (concat (map f sent)) + mset (concat (map f due))" for f
    by (simp add: told_def assms(4,5) concat_map_concat)
  have dist: "distinct (begun_ids sent)" "distinct (ended_ids sent)"
    using heard_counts [OF d(3,4) told told] by blast+
  have view: "fold hear sent {} = live_ids m - set (begun_ids due) \<union> set (ended_ids due)"
    using heard_counts(3) [OF d(3,4) told told d(5)] d(7) by simp
  have "fold hear sent {} = {} \<and> mset (ended_ids sent) = mset (begun_ids sent) \<and>
      total_conns m = of_nat (length (begun_ids sent))" if "server_returned (sy_server (bu_system b))"
  proof -
    have "bu_pending b = []" "sy_phases (bu_system b) = []"
      using that d(1,2) by (simp_all add: server_returned_def)
    then have none: "due = []" "live_ids m = {}"
      using system_sessions(1) [OF run] by (simp_all add: assms(3,4) session_ids_def)
    then have "told begun b = mset (begun_ids sent)" "told ended b = mset (ended_ids sent)" by (simp_all add: told)
    then show ?thesis using view none d(3) d(6) by (metis Diff_empty Un_empty_left add_0 concat.simps(1) empty_Diff
        list.simps(8) list.set(1) mset_set.empty size_mset)
  qed
  then show ?thesis using dist view d(8) unfolding in_order_def by simp
qed

definition announced_bus :: bus where
  "announced_bus = \<lparr>bu_system = one_session, bu_pending = [[]],
     bu_sent = [EvConnect 1 sample_client ''a'' KindConnect]\<rparr>"

lemma announced_run:
  "steps bus_step (bus_init default_config)
     [BusServer (Accepted sample_client), BusCall 0 (TkOpen sample_client ''a'' KindConnect), BusSend 0] announced_bus"
proof -
  let ?b1 = "(bus_init default_config)\<lparr>bu_system := accepted_system, bu_pending := [[]]\<rparr>"
  let ?b2 = "?b1\<lparr>bu_system := one_session, bu_pending := [[EvConnect 1 sample_client ''a'' KindConnect]]\<rparr>"
  have 1: "bus_step (bus_init default_config) (BusServer (Accepted sample_client)) ?b1"
    using bus_step.server [of "bus_init default_config" "Accepted sample_client" accepted_system] one_session_steps(1)
    by (simp add: bus_init_def system_init_def sample_server_tasks sample_server_def [symmetric])
      (simp add: server_init_def)
  have 2: "bus_step ?b1 (BusCall 0 (TkOpen sample_client ''a'' KindConnect)) ?b2"
    using bus_step.call [of ?b1 0 "TkOpen sample_client ''a'' KindConnect" one_session] one_session_steps(2)
    by (simp add: accepted_system_def system_init_def metrics_new_def)
  have 3: "bus_step ?b2 (BusSend 0) announced_bus"
    using bus_step.send [of 0 ?b2 "EvConnect 1 sample_client ''a'' KindConnect" "[]"]
    by (simp add: announced_bus_def bus_init_def)
  note run = steps_Cons [of bus_step]
  show ?thesis by (rule run [OF 1 run [OF 2 steps_one [of bus_step, OF 3]]])
qed

theorem bus_tells_sessions_witness:
  "fold hear (bu_sent announced_bus) {} = live_ids (sy_metrics one_session)"
  using bus_tells_sessions [OF announced_run _ refl refl refl] by (simp add: announced_bus_def)

end
