(* ===== verification/Atomics.thy ===== *)
theory Atomics
  imports System
begin

text \<open>
  The metrics calls at the grain of the code. \<open>Metrics\<close> and \<open>System\<close> treat a call on the
  metrics as one step; in \<open>metrics.rs\<close> it is a sequence of atomic operations, one for each
  counter and one for the registry under its lock, and the calls of different tasks overlap.
  Here every such operation is a step of its own. Whatever the overlap, the server follows the
  system of \<open>System\<close>, with each call taking place as a whole at its first operation; in between
  the metrics differ from that only by the operations of the calls still in progress.
\<close>

section \<open>Model\<close>

datatype micro =
    TakeId
  | AddTotal
  | IncActive
  | DecActive
  | InsertEntry u64 conn_info
  | RemoveEntry u64
  | AddBytesUp u64
  | AddEntryUp u64 u64
  | AddBytesDown u64
  | AddEntryDown u64 u64
  | IncFailures
  | IncCode u8
  | IncSuccesses

fun micro_run :: "micro \<Rightarrow> metrics \<Rightarrow> metrics" where
  "micro_run TakeId m = m\<lparr>next_id := next_id m + 1\<rparr>"
| "micro_run AddTotal m = m\<lparr>total_conns := total_conns m + 1\<rparr>"
| "micro_run IncActive m = m\<lparr>active_conns := active_conns m + 1\<rparr>"
| "micro_run DecActive m = m\<lparr>active_conns := active_conns m - 1\<rparr>"
| "micro_run (InsertEntry i info) m = m\<lparr>registry := fmupd i info (registry m)\<rparr>"
| "micro_run (RemoveEntry i) m = m\<lparr>registry := fmdrop i (registry m)\<rparr>"
| "micro_run (AddBytesUp n) m = m\<lparr>bytes_up := bytes_up m + n\<rparr>"
| "micro_run (AddEntryUp i n) m =
     (case fmlookup (registry m) i of
        Some info \<Rightarrow> m\<lparr>registry := fmupd i (info\<lparr>ci_up := ci_up info + n\<rparr>) (registry m)\<rparr>
      | None \<Rightarrow> m)"
| "micro_run (AddBytesDown n) m = m\<lparr>bytes_down := bytes_down m + n\<rparr>"
| "micro_run (AddEntryDown i n) m =
     (case fmlookup (registry m) i of
        Some info \<Rightarrow> m\<lparr>registry := fmupd i (info\<lparr>ci_down := ci_down info + n\<rparr>) (registry m)\<rparr>
      | None \<Rightarrow> m)"
| "micro_run IncFailures m = m\<lparr>failures := failures m + 1\<rparr>"
| "micro_run (IncCode code) m =
     m\<lparr>error_codes := (error_codes m)[unat code := error_codes m ! unat code + 1]\<rparr>"
| "micro_run IncSuccesses m = m\<lparr>successes := successes m + 1\<rparr>"

text \<open>The calls, operation by operation. \<open>i\<close> is the id the first operation of \<open>register\<close> read.\<close>

definition register_micros :: "u64 \<Rightarrow> socket_addr \<Rightarrow> string \<Rightarrow> conn_kind \<Rightarrow> micro list" where
  "register_micros i src target kind =
     [TakeId, AddTotal, IncActive,
      InsertEntry i \<lparr>ci_id = i, ci_src = src, ci_target = target, ci_kind = kind, ci_up = 0, ci_down = 0\<rparr>]"

definition unregister_micros :: "u64 \<Rightarrow> micro list" where
  "unregister_micros i = [DecActive, RemoveEntry i]"

definition add_up_micros :: "u64 \<Rightarrow> u64 \<Rightarrow> micro list" where
  "add_up_micros i n = [AddBytesUp n, AddEntryUp i n]"

definition add_down_micros :: "u64 \<Rightarrow> u64 \<Rightarrow> micro list" where
  "add_down_micros i n = [AddBytesDown n, AddEntryDown i n]"

definition record_error_micros :: "u8 \<Rightarrow> micro list" where
  "record_error_micros code = IncFailures # (if code \<le> 8 then [IncCode code] else [])"

fun call_micros :: "task_op \<Rightarrow> phase \<Rightarrow> metrics \<Rightarrow> micro list" where
  "call_micros (TkOpen src target kind) p m = register_micros (next_id m) src target kind"
| "call_micros TkClose (Counted i) m = unregister_micros i"
| "call_micros (TkUp n) (Open i) m = add_up_micros i n"
| "call_micros (TkDown n) (Open i) m = add_down_micros i n"
| "call_micros (TkError code) p m = record_error_micros code"
| "call_micros TkSuccess p m = [IncSuccesses]"
| "call_micros op p m = []"

text \<open>A task's phase changes when its call begins; \<open>fi_rest\<close> is what the call has left to do.\<close>

record fine =
  fi_server :: server
  fi_metrics :: metrics
  fi_phases :: "phase list"
  fi_rest :: "micro list list"

definition fine_init :: "config \<Rightarrow> fine" where
  "fine_init cfg =
     \<lparr>fi_server = server_init cfg, fi_metrics = metrics_new, fi_phases = [], fi_rest = []\<rparr>"

datatype fine_event = FineServer server_event | FineBegin nat task_op | FineNext nat

fun call_over :: "server_event \<Rightarrow> micro list list \<Rightarrow> bool" where
  "call_over (TaskEnded k) rest \<longleftrightarrow> rest ! k = []"
| "call_over e rest \<longleftrightarrow> True"

inductive fine_step :: "fine \<Rightarrow> fine_event \<Rightarrow> fine \<Rightarrow> bool" where
  server: "server_step (fi_server f) e v \<Longrightarrow> may_end e (fi_phases f) \<Longrightarrow> call_over e (fi_rest f) \<Longrightarrow>
    fine_step f (FineServer e)
      (f\<lparr>fi_server := v, fi_phases := slots_after Starting e (fi_server f) (fi_phases f),
         fi_rest := slots_after [] e (fi_server f) (fi_rest f)\<rparr>)"
| call_begins: "k < length (sv_tasks (fi_server f)) \<Longrightarrow> t_running (sv_tasks (fi_server f) ! k) \<Longrightarrow>
    opens_from (t_ip (sv_tasks (fi_server f) ! k)) op \<Longrightarrow> fi_rest f ! k = [] \<Longrightarrow>
    phase_step op (fi_phases f ! k) (fi_metrics f) = Some (p, m) \<Longrightarrow>
    call_micros op (fi_phases f ! k) (fi_metrics f) = u # us \<Longrightarrow>
    fine_step f (FineBegin k op)
      (f\<lparr>fi_metrics := micro_run u (fi_metrics f), fi_phases := (fi_phases f)[k := p],
         fi_rest := (fi_rest f)[k := us]\<rparr>)"
| call_goes_on: "k < length (fi_rest f) \<Longrightarrow> fi_rest f ! k = u # us \<Longrightarrow>
    fine_step f (FineNext k)
      (f\<lparr>fi_metrics := micro_run u (fi_metrics f), fi_rest := (fi_rest f)[k := us]\<rparr>)"

inductive_cases fine_serverE: "fine_step f (FineServer e) f'"
inductive_cases fine_beginE: "fine_step f (FineBegin k op) f'"
inductive_cases fine_nextE: "fine_step f (FineNext k) f'"

section \<open>Facts: a call is its operations in order\<close>

lemma register_as_micros: "fold micro_run (register_micros (next_id m) src target kind) m = snd (register m src target kind)"
  by (simp add: register_micros_def register_def Let_def)

lemma unregister_as_micros: "fold micro_run (unregister_micros i) m = unregister m i"
  by (simp add: unregister_micros_def unregister_def)

lemma add_up_as_micros: "fold micro_run (add_up_micros i n) m = add_up m i n"
  by (simp add: add_up_micros_def add_up_def Let_def split: option.split)

lemma add_down_as_micros: "fold micro_run (add_down_micros i n) m = add_down m i n"
  by (simp add: add_down_micros_def add_down_def Let_def split: option.split)

lemma record_error_as_micros: "fold micro_run (record_error_micros code) m = record_error m code"
  by (simp add: record_error_micros_def record_error_def Let_def)

lemma call_as_micros:
  assumes "phase_step op p m = Some (q, n)"
  shows "fold micro_run (call_micros op p m) m = n"
  using assms
  by (cases rule: phase_step_cases)
    (auto simp: register_as_micros unregister_as_micros add_up_as_micros add_down_as_micros record_error_as_micros
      record_success_def split: prod.splits)

section \<open>Facts: operations of different calls commute\<close>

fun micro_ids :: "micro \<Rightarrow> u64 list" where
  "micro_ids (InsertEntry i info) = [i]"
| "micro_ids (RemoveEntry i) = [i]"
| "micro_ids (AddEntryUp i n) = [i]"
| "micro_ids (AddEntryDown i n) = [i]"
| "micro_ids u = []"

lemma fmupd_commute: "i \<noteq> j \<Longrightarrow> fmupd i x (fmupd j y m) = fmupd j y (fmupd i x m)"
  by (rule fmap_ext) auto

lemma fmdrop_upd: "i \<noteq> j \<Longrightarrow> fmdrop i (fmupd j y m) = fmupd j y (fmdrop i m)"
  by (rule fmap_ext) simp

lemma fmdrop_commute: "fmdrop i (fmdrop j m) = fmdrop j (fmdrop i m)"
  by (rule fmap_ext) simp

lemmas registry_commute = fmupd_commute fmdrop_upd fmdrop_commute

lemma code_commute:
  "(xs[i := xs ! i + 1])[j := xs[i := xs ! i + 1] ! j + 1] = (xs[j := xs ! j + 1])[i := xs[j := xs ! j + 1] ! i + (1 :: u64)]"
  by (cases "i = j") (simp_all add: list_update_swap)

lemma micro_commute:
  assumes "set (micro_ids u) \<inter> set (micro_ids v) = {}"
  shows "micro_run u (micro_run v m) = micro_run v (micro_run u m)"
  using assms
  by (cases u; cases v) (auto simp: registry_commute code_commute split: option.splits)

abbreviation ids_of :: "micro list \<Rightarrow> u64 set" where
  "ids_of us \<equiv> set (concat (map micro_ids us))"

lemma micros_commute:
  assumes "ids_of us \<inter> ids_of vs = {}"
  shows "fold micro_run us (fold micro_run vs m) = fold micro_run vs (fold micro_run us m)"
proof (rule fold_commute_apply)
  fix v assume v: "v \<in> set vs"
  have "fold micro_run us (micro_run v n) = micro_run v (fold micro_run us n)" for n
    by (rule fold_commute_apply [where h = "micro_run v", symmetric])
      (use v assms in \<open>auto simp: fun_eq_iff intro!: micro_commute\<close>)
  then show "fold micro_run us \<circ> micro_run v = micro_run v \<circ> fold micro_run us" by (simp add: fun_eq_iff)
qed

section \<open>Facts: the server follows its atomic version\<close>

text \<open>The state once the calls in progress are over.\<close>

definition settled :: "fine \<Rightarrow> system" where
  "settled f =
     \<lparr>sy_server = fi_server f, sy_metrics = fold micro_run (concat (fi_rest f)) (fi_metrics f),
      sy_phases = fi_phases f\<rparr>"

text \<open>The ids a task has to do with.\<close>

definition own_ids :: "phase \<Rightarrow> micro list \<Rightarrow> u64 set" where
  "own_ids p us = set (phase_ids p) \<union> ids_of us"

definition fine_ok :: "fine \<Rightarrow> bool" where
  "fine_ok f \<longleftrightarrow>
     length (fi_rest f) = length (fi_phases f) \<and>
     list_all2 (\<lambda>t us. \<not> t_running t \<longrightarrow> us = []) (sv_tasks (fi_server f)) (fi_rest f) \<and>
     TakeId \<notin> set (concat (fi_rest f)) \<and>
     sorted_wrt (\<lambda>X Y. X \<inter> Y = {}) (map2 own_ids (fi_phases f) (fi_rest f)) \<and>
     (\<forall>X \<in> set (map2 own_ids (fi_phases f) (fi_rest f)). \<forall>i \<in> X. i < next_id (fi_metrics f))"

lemma sorted_wrt_update:
  assumes "sorted_wrt R xs" and "\<And>x y. R x y \<Longrightarrow> R y x"
    and "\<And>j. j < length xs \<Longrightarrow> j \<noteq> k \<Longrightarrow> R (xs ! j) y"
  shows "sorted_wrt R (xs[k := y])"
  unfolding sorted_wrt_iff_nth_less
proof (intro allI impI)
  fix i j assume "i < j" "j < length (xs[k := y])"
  then show "R (xs[k := y] ! i) (xs[k := y] ! j)"
    using assms(1) assms(2) [OF assms(3) [of j]] assms(3) [of i] unfolding sorted_wrt_iff_nth_less
    by (cases "i = k"; cases "j = k") simp_all
qed

lemma sorted_wrt_delete: "sorted_wrt R xs \<Longrightarrow> sorted_wrt R (take k xs @ drop (Suc k) xs)"
  by (cases "k < length xs", subst (asm) split_at [of k xs], simp)
    (simp_all add: sorted_wrt_append)

lemma map2_slots:
  assumes "length xs = length ys"
  shows "map2 g (slots_after a e s xs) (slots_after b e s ys) = slots_after (g a b) e s (map2 g xs ys)"
  using assms by (cases e) (simp_all add: take_zip drop_zip take_map drop_map zip_append)

lemma sorted_wrt_slots:
  "sorted_wrt (\<lambda>X Y. X \<inter> Y = {}) xs \<Longrightarrow> sorted_wrt (\<lambda>X Y. X \<inter> Y = {}) (slots_after {} e s xs)"
proof (cases e)
  case (TaskReaped k)
  then show "sorted_wrt (\<lambda>X Y. X \<inter> Y = {}) xs \<Longrightarrow> ?thesis" by (simp add: sorted_wrt_delete)
qed (simp_all add: sorted_wrt_append)

lemma set_slots: "X \<in> set (slots_after new e s xs) \<Longrightarrow> X = new \<or> X \<in> set xs"
  by (cases e) (auto split: if_splits dest: in_set_takeD in_set_dropD)

text \<open>The operations that are due, before, at and after a task's.\<close>

lemma due_split:
  assumes "k < length rest"
  shows "concat (rest[k := us]) = concat (take k rest) @ us @ concat (drop (Suc k) rest)"
  using assms by (simp add: upd_conv_take_nth_drop)

lemma due_at: "k < length rest \<Longrightarrow> concat rest = concat (take k rest) @ rest ! k @ concat (drop (Suc k) rest)"
  using due_split [of k rest "rest ! k"] by (simp only: list_update_id)

text \<open>A call that begins while others are under way ends as if it ran after them.\<close>

lemma begun_as_last:
  assumes k: "k < length rest" and none: "rest ! k = []"
    and apart: "ids_of (u # us) \<inter> ids_of (concat (take k rest)) = {}"
      "ids_of (u # us) \<inter> ids_of (concat (drop (Suc k) rest)) = {}"
  shows "fold micro_run (concat (rest[k := us])) (micro_run u m) = fold micro_run (u # us) (fold micro_run (concat rest) m)"
proof -
  let ?A = "concat (take k rest)" and ?B = "concat (drop (Suc k) rest)"
  have "fold micro_run (concat (rest[k := us])) (micro_run u m) =
      fold micro_run ?B (fold micro_run us (fold micro_run ?A (fold micro_run [u] m)))"
    unfolding due_split [OF k] by simp
  also have "fold micro_run ?A (fold micro_run [u] m) = fold micro_run [u] (fold micro_run ?A m)"
    using apart(1) by (intro micros_commute) auto
  also have "fold micro_run ?B (fold micro_run us (fold micro_run [u] (fold micro_run ?A m))) =
      fold micro_run ?B (fold micro_run (u # us) (fold micro_run ?A m))" by simp
  also have "\<dots> = fold micro_run (u # us) (fold micro_run ?B (fold micro_run ?A m))"
    using apart(2) by (intro micros_commute) blast
  finally show ?thesis using due_at [OF k] none by simp
qed

lemma ids_of_concat: "i \<in> ids_of (concat xss) \<Longrightarrow> \<exists>j < length xss. i \<in> ids_of (xss ! j)"
proof -
  assume "i \<in> ids_of (concat xss)"
  then obtain us where "us \<in> set xss" "i \<in> ids_of us" by auto
  then show ?thesis by (metis in_set_conv_nth)
qed

lemma others_disjoint:
  assumes ok: "fine_ok f" and k: "k < length (fi_rest f)"
    and ids: "\<And>i. i \<in> ids_of us \<Longrightarrow> i \<in> own_ids (fi_phases f ! k) (fi_rest f ! k) \<or> \<not> i < next_id (fi_metrics f)"
  shows "ids_of us \<inter> ids_of (concat (take k (fi_rest f))) = {}"
    "ids_of us \<inter> ids_of (concat (drop (Suc k) (fi_rest f))) = {}"
proof -
  let ?own = "map2 own_ids (fi_phases f) (fi_rest f)"
  have len: "length (fi_rest f) = length (fi_phases f)" using ok by (simp add: fine_ok_def)
  have apart: "i \<notin> ids_of (fi_rest f ! j)" if "i \<in> ids_of us" "j < length (fi_rest f)" "j \<noteq> k" for i j
  proof
    assume "i \<in> ids_of (fi_rest f ! j)"
    then have i: "i \<in> ?own ! j" using that(2) len by (simp add: own_ids_def)
    have "?own ! j \<in> set ?own" using that(2) len by (intro nth_mem) simp
    then have "i < next_id (fi_metrics f)" using ok i unfolding fine_ok_def by blast
    then have "i \<in> ?own ! k" using ids [OF that(1)] k len by simp
    moreover have "?own ! j \<inter> ?own ! k = {}"
      using ok that(2,3) k len unfolding fine_ok_def sorted_wrt_iff_nth_less
      by (cases j k rule: linorder_cases) (auto simp del: nth_map nth_zip)
    ultimately show False using i by blast
  qed
  have "i \<notin> ids_of (take k (fi_rest f) ! j)" if "i \<in> ids_of us" "j < length (take k (fi_rest f))" for i j
    using apart [OF that(1), of j] that(2) by simp
  then show "ids_of us \<inter> ids_of (concat (take k (fi_rest f))) = {}" using ids_of_concat by blast
  have "i \<notin> ids_of (drop (Suc k) (fi_rest f) ! j)" if "i \<in> ids_of us" "j < length (drop (Suc k) (fi_rest f))" for i j
    using apart [OF that(1), of "Suc k + j"] that(2) k by simp
  then show "ids_of us \<inter> ids_of (concat (drop (Suc k) (fi_rest f))) = {}" using ids_of_concat by blast
qed

lemma fine_ok_task:
  assumes ok: "fine_ok f" and k: "k < length (fi_rest f)" and run: "t_running (sv_tasks (fi_server f) ! k)"
    and us: "TakeId \<notin> set us" and up: "next_id (fi_metrics f) \<le> next_id m"
    and own: "\<And>i. i \<in> own_ids p us \<Longrightarrow>
      i < next_id m \<and> (i \<in> own_ids (fi_phases f ! k) (fi_rest f ! k) \<or> i = next_id (fi_metrics f))"
  shows "fine_ok (f\<lparr>fi_metrics := m, fi_phases := (fi_phases f)[k := p], fi_rest := (fi_rest f)[k := us]\<rparr>)"
proof -
  let ?own = "map2 own_ids (fi_phases f) (fi_rest f)"
  have len: "length (fi_rest f) = length (fi_phases f)"
    and rel: "list_all2 (\<lambda>t us. \<not> t_running t \<longrightarrow> us = []) (sv_tasks (fi_server f)) (fi_rest f)"
    and none: "TakeId \<notin> set (concat (fi_rest f))"
    and apart: "sorted_wrt (\<lambda>X Y. X \<inter> Y = {}) ?own"
    and below: "\<And>X i. X \<in> set ?own \<Longrightarrow> i \<in> X \<Longrightarrow> i < next_id (fi_metrics f)"
    using ok unfolding fine_ok_def by blast+
  have upd: "map2 own_ids ((fi_phases f)[k := p]) ((fi_rest f)[k := us]) = ?own[k := own_ids p us]"
    by (simp add: zip_update map_update)
  have old: "?own ! k = own_ids (fi_phases f ! k) (fi_rest f ! k)" "k < length ?own" using k len by simp_all
  have "list_all2 (\<lambda>t us. \<not> t_running t \<longrightarrow> us = [])
      ((sv_tasks (fi_server f))[k := sv_tasks (fi_server f) ! k]) ((fi_rest f)[k := us])"
    using run by (intro list_all2_update_cong rel) simp
  moreover have "TakeId \<notin> set (concat ((fi_rest f)[k := us]))"
    using none us set_update_subset_insert [of "fi_rest f" k us] by auto
  moreover have "sorted_wrt (\<lambda>X Y. X \<inter> Y = {}) (?own[k := own_ids p us])"
  proof (rule sorted_wrt_update [OF apart])
    fix j assume j: "j < length ?own" "j \<noteq> k"
    have "?own ! j \<inter> ?own ! k = {}"
      using apart j old(2) unfolding sorted_wrt_iff_nth_less by (metis inf_commute linorder_neqE_nat)
    moreover have "next_id (fi_metrics f) \<notin> ?own ! j" using below [OF nth_mem [OF j(1)]] by (metis less_irrefl)
    ultimately show "?own ! j \<inter> own_ids p us = {}" using own old(1) by blast
  qed blast
  moreover have "i < next_id m" if "X \<in> set (?own[k := own_ids p us])" "i \<in> X" for X i
    using that set_update_subset_insert [of ?own k "own_ids p us"] own below up order_less_le_trans by blast
  ultimately show ?thesis using len unfolding fine_ok_def by (simp add: upd)
qed

lemma micro_next_id: "next_id (micro_run u m) = (if u = TakeId then next_id m + 1 else next_id m)"
  by (cases u) (auto split: option.split)

lemma micros_next_id: "TakeId \<notin> set us \<Longrightarrow> next_id (fold micro_run us m) = next_id m"
  by (induction us arbitrary: m) (auto simp: micro_next_id)

text \<open>A call reads nothing but the next id when it begins.\<close>

lemma call_reads:
  assumes "phase_step op p m = Some (q, n)" and "next_id m' = next_id m"
  shows "phase_step op p m' = Some (q, fold micro_run (call_micros op p m) m')"
    and "call_micros op p m' = call_micros op p m"
proof -
  have "\<exists>n'. phase_step op p m' = Some (q, n')"
    using assms(1) by (cases rule: phase_step_cases) (auto simp: register_def Let_def assms(2))
  moreover show c: "call_micros op p m' = call_micros op p m"
    using assms(2) by (cases "(op, p, m)" rule: call_micros.cases) simp_all
  ultimately show "phase_step op p m' = Some (q, fold micro_run (call_micros op p m) m')"
    using call_as_micros [of op p m'] by metis
qed

lemma call_ids:
  assumes "phase_step op p m = Some (q, n)" and "call_micros op p m = u # us"
  shows "TakeId \<notin> set us" "set (phase_ids q) \<union> ids_of (u # us) \<subseteq> set (phase_ids p) \<union> {next_id m}"
    "u = TakeId \<longleftrightarrow> (\<exists>src target kind. op = TkOpen src target kind)"
    "next_id m \<in> set (phase_ids q) \<union> ids_of (u # us) \<Longrightarrow> next_id m \<notin> set (phase_ids p) \<Longrightarrow> u = TakeId"
  using assms(2) by (cases rule: phase_step_cases [OF assms(1)];
      auto simp: register_micros_def unregister_micros_def add_up_micros_def add_down_micros_def
        record_error_micros_def register_def Let_def split: if_splits)+

text \<open>The three kinds of step.\<close>

lemma own_below:
  assumes "fine_ok f" and "k < length (fi_rest f)" and "i \<in> own_ids (fi_phases f ! k) (fi_rest f ! k)"
  shows "i < next_id (fi_metrics f)"
proof -
  let ?own = "map2 own_ids (fi_phases f) (fi_rest f)"
  have "k < length ?own" "?own ! k = own_ids (fi_phases f ! k) (fi_rest f ! k)"
    using assms(1,2) by (simp_all add: fine_ok_def)
  then have "own_ids (fi_phases f ! k) (fi_rest f ! k) \<in> set ?own" using nth_mem by metis
  then show ?thesis using assms(1,3) unfolding fine_ok_def by blast
qed

lemma fine_begin:
  assumes ok: "fine_ok f" and left: "ids_left (fi_metrics f)" and st: "fine_step f (FineBegin k op) f'"
  shows "fine_ok f' \<and> system_step (settled f) (SysTask k op) (settled f')"
proof -
  let ?m = "fi_metrics f" and ?rest = "fi_rest f" and ?p = "fi_phases f ! k"
  obtain p n u us where t: "k < length (sv_tasks (fi_server f))" "t_running (sv_tasks (fi_server f) ! k)"
      "opens_from (t_ip (sv_tasks (fi_server f) ! k)) op" "?rest ! k = []"
    and ps: "phase_step op ?p ?m = Some (p, n)" and c: "call_micros op ?p ?m = u # us"
    and f': "f' = f\<lparr>fi_metrics := micro_run u ?m, fi_phases := (fi_phases f)[k := p], fi_rest := ?rest[k := us]\<rparr>"
    using st by (rule fine_beginE) auto
  have k: "k < length ?rest"
    using ok t(1) unfolding fine_ok_def by (metis list_all2_lengthD)
  have none: "TakeId \<notin> set (concat ?rest)" using ok by (simp add: fine_ok_def)
  note ci = call_ids [OF ps c]
  have own: "own_ids ?p (?rest ! k) = set (phase_ids ?p)" by (simp add: own_ids_def t(4))
  have "i \<in> own_ids ?p (?rest ! k) \<or> \<not> i < next_id ?m" if "i \<in> ids_of (u # us)" for i
  proof -
    have "i \<in> set (phase_ids ?p) \<union> {next_id ?m}" using subsetD [OF ci(2)] that by blast
    then show ?thesis unfolding own by (elim UnE singletonE) simp_all
  qed
  note others = this
  have apart: "ids_of (u # us) \<inter> ids_of (concat (take k ?rest)) = {}"
    "ids_of (u # us) \<inter> ids_of (concat (drop (Suc k) ?rest)) = {}"
    by (intro others_disjoint(1) [OF ok k] others, assumption, intro others_disjoint(2) [OF ok k] others, assumption)
  have up: "next_id ?m < next_id ?m + 1" using left unfolding ids_left_def by (rule next_id_self)
  have fresh: "next_id ?m \<notin> set (phase_ids ?p)" using own_below [OF ok k] unfolding own by blast
  have "fine_ok f'" unfolding f'
  proof (rule fine_ok_task [OF ok k t(2) ci(1)])
    show "next_id ?m \<le> next_id (micro_run u ?m)" using up by (simp add: micro_next_id less_imp_le)
    fix i assume "i \<in> own_ids p us"
    then have i: "i \<in> set (phase_ids p) \<union> ids_of (u # us)" by (auto simp: own_ids_def)
    then have "i \<in> set (phase_ids ?p) \<or> i = next_id ?m" using ci(2) by blast
    then show "i < next_id (micro_run u ?m) \<and> (i \<in> own_ids ?p (?rest ! k) \<or> i = next_id ?m)"
      using own_below [OF ok k, of i] ci(4) i fresh up unfolding own by (auto simp: micro_next_id intro: less_trans)
  qed
  moreover have "system_step (settled f) (SysTask k op) (settled f')"
  proof -
    have "next_id (sy_metrics (settled f)) = next_id ?m" using micros_next_id [OF none] by (simp add: settled_def)
    note ps' = call_reads(1) [OF ps this, unfolded c]
    have "sy_metrics (settled f') = fold micro_run (u # us) (sy_metrics (settled f))"
      using begun_as_last [OF k t(4) apart] by (simp add: settled_def f')
    then have "settled f' = settled f\<lparr>sy_metrics := fold micro_run (u # us) (sy_metrics (settled f)),
        sy_phases := (sy_phases (settled f))[k := p]\<rparr>" by (simp add: settled_def f')
    moreover have "sy_server (settled f) = fi_server f" "sy_phases (settled f) = fi_phases f" by (simp_all add: settled_def)
    ultimately show ?thesis using system_step.task [of k "settled f" op p] t(1-3) ps' by (simp only:)
  qed
  ultimately show ?thesis ..
qed

lemma fine_next:
  assumes ok: "fine_ok f" and st: "fine_step f (FineNext k) f'"
  shows "fine_ok f' \<and> settled f' = settled f"
proof -
  let ?m = "fi_metrics f" and ?rest = "fi_rest f" and ?p = "fi_phases f ! k"
  obtain u us where k: "k < length ?rest" "?rest ! k = u # us"
    and f': "f' = f\<lparr>fi_metrics := micro_run u ?m, fi_rest := ?rest[k := us]\<rparr>"
    using st by (rule fine_nextE) auto
  have "k < length (sv_tasks (fi_server f)) \<and> t_running (sv_tasks (fi_server f) ! k)"
    using ok k unfolding fine_ok_def list_all2_conv_all_nth by (metis list.distinct(1))
  moreover have "TakeId \<notin> set (concat ?rest)" using ok by (simp add: fine_ok_def)
  then have none: "u \<noteq> TakeId" "TakeId \<notin> set us" using nth_mem [OF k(1)] k(2) by auto
  ultimately have ok': "fine_ok (f\<lparr>fi_metrics := micro_run u ?m, fi_phases := (fi_phases f)[k := ?p], fi_rest := ?rest[k := us]\<rparr>)"
    using own_below [OF ok k(1)]
    by (intro fine_ok_task [OF ok k(1)]) (auto simp: micro_next_id own_ids_def k(2))
  have same: "f\<lparr>fi_metrics := micro_run u ?m, fi_phases := (fi_phases f)[k := ?p], fi_rest := ?rest[k := us]\<rparr> = f'"
    by (simp add: f')
  have "i \<in> own_ids ?p (?rest ! k) \<or> \<not> i < next_id ?m" if "i \<in> ids_of [u]" for i
    using that by (simp add: own_ids_def k(2))
  then have apart: "ids_of [u] \<inter> ids_of (concat (take k ?rest)) = {}" by (rule others_disjoint(1) [OF ok k(1)])
  have "fold micro_run (concat (take k ?rest)) (fold micro_run [u] ?m) =
      fold micro_run [u] (fold micro_run (concat (take k ?rest)) ?m)"
    using apart by (intro micros_commute) blast
  moreover have "concat ?rest = concat (take k ?rest) @ (u # us) @ concat (drop (Suc k) ?rest)"
    using due_at [OF k(1)] k(2) by simp
  ultimately have "settled f' = settled f"
    unfolding settled_def f' using due_split [OF k(1), of us] by simp
  then show ?thesis using ok' [unfolded same] by simp
qed

lemma fine_server:
  assumes ok: "fine_ok f" and st: "fine_step f (FineServer e) f'"
  shows "fine_ok f' \<and> system_step (settled f) (SysServer e) (settled f')"
proof -
  obtain v where v: "server_step (fi_server f) e v" "may_end e (fi_phases f)" "call_over e (fi_rest f)"
    and f': "f' = f\<lparr>fi_server := v, fi_phases := slots_after Starting e (fi_server f) (fi_phases f),
      fi_rest := slots_after [] e (fi_server f) (fi_rest f)\<rparr>"
    using st by (rule fine_serverE) auto
  define Q where "Q t us \<longleftrightarrow> (\<not> t_running t \<longrightarrow> us = [])" for t :: task and us :: "micro list"
  have len: "length (fi_rest f) = length (fi_phases f)"
    and rel: "list_all2 Q (sv_tasks (fi_server f)) (fi_rest f)"
    and none: "TakeId \<notin> set (concat (fi_rest f))"
    and apart: "sorted_wrt (\<lambda>X Y. X \<inter> Y = {}) (map2 own_ids (fi_phases f) (fi_rest f))"
    and below: "\<And>X i. X \<in> set (map2 own_ids (fi_phases f) (fi_rest f)) \<Longrightarrow> i \<in> X \<Longrightarrow> i < next_id (fi_metrics f)"
    using ok unfolding fine_ok_def Q_def [abs_def] by blast+
  have own: "map2 own_ids (slots_after Starting e (fi_server f) (fi_phases f)) (slots_after [] e (fi_server f) (fi_rest f)) =
      slots_after {} e (fi_server f) (map2 own_ids (fi_phases f) (fi_rest f))"
    using map2_slots [OF len [symmetric], of own_ids] by (simp add: own_ids_def)
  have "k < length (fi_rest f) \<and> fi_rest f ! k = []" if "e = TaskReaped k" for k
    using reaped_slot [OF v(1) [unfolded that] rel] by (simp add: Q_def)
  then have due: "concat (slots_after [] e (fi_server f) (fi_rest f)) = concat (fi_rest f)"
    using slots_kept [of "\<lambda>us. us" "[]" e "fi_rest f" "fi_server f"] by simp
  have "list_all2 Q (sv_tasks v) (slots_after [] e (fi_server f) (fi_rest f))"
    using v(3) by (intro slots_follow [OF v(1) rel]) (simp_all add: Q_def)
  moreover have "length (slots_after [] e (fi_server f) (fi_rest f)) = length (slots_after Starting e (fi_server f) (fi_phases f))"
    using len by (cases e) simp_all
  moreover have "i < next_id (fi_metrics f)"
    if "X \<in> set (slots_after {} e (fi_server f) (map2 own_ids (fi_phases f) (fi_rest f)))" "i \<in> X" for X i
    using set_slots [OF that(1)] that(2) below by blast
  ultimately have "fine_ok f'"
    unfolding fine_ok_def using sorted_wrt_slots [OF apart] none by (simp add: f' own due Q_def [abs_def])
  moreover have "settled f' = settled f\<lparr>sy_server := v,
      sy_phases := slots_after Starting e (sy_server (settled f)) (sy_phases (settled f))\<rparr>"
    by (simp add: settled_def f' due)
  then have "system_step (settled f) (SysServer e) (settled f')"
    using system_step.server [of "settled f" e v] v(1,2) by (simp add: settled_def)
  ultimately show ?thesis ..
qed

fun fine_visible :: "fine_event \<Rightarrow> system_event option" where
  "fine_visible (FineServer e) = Some (SysServer e)"
| "fine_visible (FineBegin k op) = Some (SysTask k op)"
| "fine_visible (FineNext k) = None"

lemma settled_next_id: "fine_ok f \<Longrightarrow> next_id (sy_metrics (settled f)) = next_id (fi_metrics f)"
  by (simp add: settled_def micros_next_id fine_ok_def)

lemma fine_run:
  assumes "steps fine_step (fine_init cfg) es f" and "length es < 2 ^ 64 - 1"
  shows "fine_ok f \<and> steps system_step (system_init cfg) (List.map_filter fine_visible es) (settled f)"
  using assms
proof (induction "fine_init cfg" es f rule: steps.induct)
  case steps_Nil
  have "settled (fine_init cfg) = system_init cfg" by (simp add: settled_def fine_init_def system_init_def)
  then show ?case by (simp add: map_filter_simps steps.steps_Nil fine_ok_def fine_init_def server_init_def)
next
  case (steps_snoc es f e f')
  let ?es = "List.map_filter fine_visible es"
  have ok: "fine_ok f" and run: "steps system_step (system_init cfg) ?es (settled f)"
    using steps_snoc by simp_all
  have len: "length ?es \<le> length es" by (rule length_map_filter)
  have left: "ids_left (fi_metrics f)"
    using system_run_ok [OF run] len steps_snoc.prems settled_next_id [OF ok] by (intro ids_left_below) simp
  have "fine_ok f' \<and> (case fine_visible e of None \<Rightarrow> settled f' = settled f
      | Some a \<Rightarrow> system_step (settled f) a (settled f'))"
    using steps_snoc.hyps(3) fine_server [OF ok] fine_begin [OF ok left] fine_next [OF ok] by (cases e) auto
  moreover have "List.map_filter fine_visible (es @ [e]) =
      ?es @ (case fine_visible e of None \<Rightarrow> [] | Some a \<Rightarrow> [a])"
    by (simp add: List.map_filter_def split: option.split)
  ultimately show ?case using run steps.steps_snoc by (fastforce split: option.splits)
qed

text \<open>How far the operations still due can be from done.\<close>

lemma due_active:
  "active_conns (fold micro_run us m) + of_nat (count (mset us) DecActive) =
     active_conns m + of_nat (count (mset us) IncActive)"
proof (induction us arbitrary: m)
  case (Cons u us)
  have "active_conns (micro_run u m) + (if u = DecActive then 1 else 0) =
      active_conns m + (if u = IncActive then 1 else 0)"
    by (cases u) (auto split: option.split)
  then show ?case using Cons.IH [of "micro_run u m"] by (cases u) (auto simp: algebra_simps)
qed simp

lemma due_live: "i \<notin> ids_of us \<Longrightarrow> i \<in> live_ids (fold micro_run us m) \<longleftrightarrow> i \<in> live_ids m"
proof (induction us arbitrary: m)
  case (Cons u us)
  have "i \<in> live_ids (micro_run u m) \<longleftrightarrow> i \<in> live_ids m"
    using Cons.prems by (cases u) (auto simp: live_ids_def split: option.splits intro: fmdomI)
  then show ?case using Cons by simp
qed simp

section \<open>Properties\<close>

text \<open>C6: the metrics under overlapping calls. Let every single atomic operation of the metrics
  calls be a step of its own, and let the calls of all tasks and the accept loop interleave
  in any way (fewer events than 64-bit ids). Then the server follows its version with atomic
  calls, each call taking effect as a whole when its first operation runs; at any moment a
  connection is registered exactly when its session is open, except for those whose
  registration or removal is in progress, and the active counter is the number of open
  sessions up to the operations still to come; and with no call in progress, as when the
  server has returned, the metrics are exactly those of the atomic version.\<close>

theorem fine_follows:
  assumes "steps fine_step (fine_init cfg) es f" and "length es < 2 ^ 64 - 1"
    and "m = fi_metrics f" and "due = concat (fi_rest f)" and "ids = session_ids (fi_phases f)"
  shows "steps system_step (system_init cfg) (List.map_filter fine_visible es) (settled f) \<and>
    distinct ids \<and> (\<forall>i. i \<notin> ids_of due \<longrightarrow> (i \<in> live_ids m \<longleftrightarrow> i \<in> set ids)) \<and>
    active_conns m + of_nat (count (mset due) IncActive) =
      of_nat (length ids) + of_nat (count (mset due) DecActive) \<and>
    (server_returned (fi_server f) \<longrightarrow> due = []) \<and>
    (due = [] \<longrightarrow> sy_metrics (settled f) = m \<and> live_ids m = set ids \<and> active_conns m = of_nat (length ids))"
proof -
  let ?es = "List.map_filter fine_visible es"
  have ok: "fine_ok f" and run: "steps system_step (system_init cfg) ?es (settled f)"
    using fine_run [OF assms(1,2)] by simp_all
  have len: "length ?es < 2 ^ 64 - 1" by (rule le_less_trans [OF length_map_filter assms(2)])
  have s: "sy_metrics (settled f) = fold micro_run due m" "sy_phases (settled f) = fi_phases f"
    by (simp_all add: settled_def assms(3,4))
  note sys = system_sessions(1-3) [OF run len, unfolded s, folded assms(5)]
  have "i \<in> live_ids m \<longleftrightarrow> i \<in> set ids" if "i \<notin> ids_of due" for i
    using due_live [OF that, of m] sys(1) by simp
  moreover have "active_conns m + of_nat (count (mset due) IncActive) =
      of_nat (length ids) + of_nat (count (mset due) DecActive)"
    using due_active [of due m] sys(3) by simp
  moreover have "due = []" if "server_returned (fi_server f)"
    using that ok by (simp add: server_returned_def fine_ok_def assms(4))
  moreover have "sy_metrics (settled f) = m \<and> live_ids m = set ids \<and> active_conns m = of_nat (length ids)" if "due = []"
    using s(1) sys(1,3) that by simp
  ultimately show ?thesis using run sys(2) by blast
qed

definition begun_fine :: fine where
  "begun_fine =
     \<lparr>fi_server = sample_server, fi_metrics = metrics_new\<lparr>next_id := 2\<rparr>, fi_phases = [Open 1],
      fi_rest = [tl (register_micros 1 sample_client ''a'' KindConnect)]\<rparr>"

text \<open>A registration that has just taken its id: the session is open, not yet in the registry.\<close>

lemma begun_fine_run:
  "steps fine_step (fine_init default_config)
     [FineServer (Accepted sample_client), FineBegin 0 (TkOpen sample_client ''a'' KindConnect)] begun_fine"
proof -
  let ?f = "(fine_init default_config)\<lparr>fi_server := sample_server, fi_phases := [Starting], fi_rest := [[]]\<rparr>"
  have 1: "fine_step (fine_init default_config) (FineServer (Accepted sample_client)) ?f"
    using fine_step.server [of "fine_init default_config" "Accepted sample_client" sample_server]
      server_step.accept [of "server_init default_config" sample_client] sample_server_tasks
    by (simp add: fine_init_def sample_server_def [symmetric]) (simp add: server_init_def)
  have 2: "fine_step ?f (FineBegin 0 (TkOpen sample_client ''a'' KindConnect)) begun_fine"
    using fine_step.call_begins [of 0 ?f "TkOpen sample_client ''a'' KindConnect" "Open 1"] sample_server_tasks
    by (simp add: begun_fine_def fine_init_def register_def register_micros_def Let_def metrics_new_def)
  note run = steps_Cons [of fine_step]
  show ?thesis by (rule run [OF 1 steps_one [of fine_step, OF 2]])
qed

theorem fine_follows_witness:
  "active_conns (fi_metrics begun_fine) + 1 = 1 \<and> live_ids (fi_metrics begun_fine) = {} \<and>
   session_ids (fi_phases begun_fine) = [1]"
proof -
  have "active_conns (fi_metrics begun_fine) + of_nat (count (mset (concat (fi_rest begun_fine))) IncActive) =
      of_nat (length (session_ids (fi_phases begun_fine))) + of_nat (count (mset (concat (fi_rest begun_fine))) DecActive)"
    using fine_follows [OF begun_fine_run _ refl refl refl] by simp
  then show ?thesis by (simp add: begun_fine_def register_micros_def session_ids_def metrics_new_def live_ids_def)
qed

end
