(* ===== verification/Std_F64.thy ===== *)
theory Std_F64
  imports Std_Text "HOL-Library.Log_Nat"
begin

text \<open>
  The standard library's \<open>f64\<close>, as far as the dashboard and the demo generator use it. A finite
  number is the rational it stands for; an operation rounds the exact result to 53
  significant bits, to the nearest such number and to the even one on a tie. The exponent
  is not bounded here: the theories that compute with these numbers show that their
  values are zero or normal (\<open>f64_normal\<close>), so infinities, NaN and subnormal numbers never arise.
  Also the casts from and to integers and the formatting with a precision.
\<close>

section \<open>Rounding\<close>

type_synonym f64 = rat

definition round_even :: "rat \<Rightarrow> int" where
  "round_even x =
     (let n = \<lfloor>x\<rfloor>; d = x - of_int n
      in if d < 1 / 2 then n
         else if 1 / 2 < d then n + 1
         else if even n then n else n + 1)"

text \<open>The exponent \<open>k\<close> with \<open>2^k \<le> x < 2^(k+1)\<close>.\<close>

definition ilog2 :: "rat \<Rightarrow> int" where
  "ilog2 x =
     (if 1 \<le> x then int (floorlog 2 (nat \<lfloor>x\<rfloor>)) - 1
      else - int (ceillog2 (nat \<lceil>1 / x\<rceil>)))"

definition f64_round :: "rat \<Rightarrow> f64" where
  "f64_round x =
     (if x = 0 then 0
      else let u = 2 powi (ilog2 \<bar>x\<bar> - 52) in of_int (round_even (x / u)) * u)"

definition f64_add :: "f64 \<Rightarrow> f64 \<Rightarrow> f64" where
  "f64_add a b = f64_round (a + b)"

definition f64_mul :: "f64 \<Rightarrow> f64 \<Rightarrow> f64" where
  "f64_mul a b = f64_round (a * b)"

text \<open>Division by a number other than zero.\<close>

definition f64_div :: "f64 \<Rightarrow> f64 \<Rightarrow> f64" where
  "f64_div a b = f64_round (a / b)"

section \<open>Casts\<close>

text \<open>\<open>as f64\<close> on an unsigned integer.\<close>

definition f64_of_nat :: "nat \<Rightarrow> f64" where
  "f64_of_nat n = f64_round (of_nat n)"

definition as_f64 :: "u64 \<Rightarrow> f64" where
  "as_f64 w = f64_of_nat (unat w)"

text \<open>\<open>as u64\<close>: towards zero, and to the nearest bound outside the range.\<close>

definition as_u64 :: "f64 \<Rightarrow> u64" where
  "as_u64 x = of_nat (min (nat \<lfloor>x\<rfloor>) (2 ^ 64 - 1))"

text \<open>\<open>Duration::as_secs_f64\<close>: whole seconds plus nanoseconds over a billion.\<close>

definition as_secs_f64 :: "duration \<Rightarrow> f64" where
  "as_secs_f64 d =
     f64_add (f64_of_nat (d div 1000000000)) (f64_div (f64_of_nat (d mod 1000000000)) 1000000000)"

section \<open>Formatting\<close>

text \<open>\<open>{:.k}\<close> of a number that is not negative: the exact value to \<open>k\<close> decimals, halves to even.\<close>

definition pad_zero :: "nat \<Rightarrow> string \<Rightarrow> string" where
  "pad_zero k s = replicate (k - length s) CHR ''0'' @ s"

definition decimal :: "nat \<Rightarrow> nat \<Rightarrow> string" where
  "decimal k n =
     (if k = 0 then show_nat n
      else show_nat (n div 10 ^ k) @ ''.'' @ pad_zero k (show_nat (n mod 10 ^ k)))"

definition fixed :: "nat \<Rightarrow> f64 \<Rightarrow> string" where
  "fixed k x = decimal k (nat (round_even (x * 10 ^ k)))"

text \<open>\<open>{:>w}\<close> of a text.\<close>

definition align_right :: "nat \<Rightarrow> string \<Rightarrow> string" where
  "align_right w s = replicate (w - length s) CHR '' '' @ s"

section \<open>Facts: rounding to an integer\<close>

lemma round_even_cases: "round_even x = \<lfloor>x\<rfloor> \<or> round_even x = \<lfloor>x\<rfloor> + 1"
  by (simp add: round_even_def Let_def)

lemma round_even_near: "\<bar>of_int (round_even x) - x\<bar> \<le> 1 / 2"
  using of_int_floor_le [of x] floor_correct [of x]
  by (auto simp: round_even_def Let_def abs_le_iff)

lemma round_even_of_int [simp]: "round_even (of_int n) = n"
  by (simp add: round_even_def)

lemma round_even_mono: "x \<le> y \<Longrightarrow> round_even x \<le> round_even y"
proof -
  assume le: "x \<le> y"
  then have f: "\<lfloor>x\<rfloor> \<le> \<lfloor>y\<rfloor>" by (rule floor_mono)
  show ?thesis
  proof (cases "\<lfloor>x\<rfloor> = \<lfloor>y\<rfloor>")
    case True
    then show ?thesis using le by (auto simp: round_even_def Let_def)
  next
    case False
    then show ?thesis using f round_even_cases [of x] round_even_cases [of y] by linarith
  qed
qed

lemma round_even_le: "x \<le> of_int n \<Longrightarrow> round_even x \<le> n"
  using round_even_mono [of x "of_int n"] by simp

lemma round_even_ge: "of_int n \<le> x \<Longrightarrow> n \<le> round_even x"
  using round_even_mono [of "of_int n" x] by simp

section \<open>Facts: exponents\<close>

lemma ilog2_one_le:
  assumes "1 \<le> x"
  shows "2 powi ilog2 x \<le> x" "x < 2 powi (ilog2 x + 1)"
proof -
  define n where "n = nat \<lfloor>x\<rfloor>"
  have n: "0 < n" "rat_of_nat n \<le> x" "x < rat_of_nat (n + 1)"
    using assms floor_correct [of x] by (simp_all add: n_def of_nat_nat)
  have b: "2 ^ (floorlog 2 n - 1) \<le> n" "n + 1 \<le> 2 ^ floorlog 2 n" "0 < floorlog 2 n"
    using floorlog_bounds [of n 2] floorlog_eq_zero_iff [of 2 n] n(1) by auto
  have e: "ilog2 x = int (floorlog 2 n - 1)" "ilog2 x + 1 = int (floorlog 2 n)"
    using assms b(3) by (simp_all add: ilog2_def n_def)
  have "rat_of_nat (2 ^ (floorlog 2 n - 1)) \<le> x" "x < rat_of_nat (2 ^ floorlog 2 n)"
    using n(2,3) b(1,2) by (meson of_nat_le_iff order_trans order_less_le_trans)+
  then show "2 powi ilog2 x \<le> x" "x < 2 powi (ilog2 x + 1)"
    unfolding e(2) unfolding e(1) by (simp_all only: power_int_of_nat of_nat_power of_nat_numeral)
qed

lemma ilog2_less_one:
  assumes "0 < x" and "x < 1"
  shows "2 powi ilog2 x \<le> x" "x < 2 powi (ilog2 x + 1)"
proof -
  define n where "n = nat \<lceil>1 / x\<rceil>"
  have "1 < 1 / x" using assms by simp
  then have n: "1 < n" "1 / x \<le> rat_of_nat n" "rat_of_nat n < 1 / x + 1"
    using ceiling_correct [of "1 / x"] by (simp_all add: n_def of_nat_nat)
  define m where "m = ceillog2 n - 1"
  have m: "ceillog2 n = Suc m" using ceillog2_ge_iff [of n 1] n(1) by (simp add: m_def)
  have b: "n \<le> 2 ^ Suc m" "2 ^ m + 1 \<le> n"
    using le_two_power_ceillog2 [of n] two_power_ceillog2_gt [of n] n(1) by (simp_all add: m)
  have e: "ilog2 x = - int (Suc m)" "ilog2 x + 1 = - int m"
    using assms m by (simp_all add: ilog2_def n_def)
  have "1 / x \<le> rat_of_nat (2 ^ Suc m)" using n(2) b(1) by (meson of_nat_le_iff order_trans)
  then show "2 powi ilog2 x \<le> x"
    unfolding e power_int_minus_divide power_int_of_nat using assms by (simp add: field_simps)
  have "rat_of_nat (2 ^ m + 1) \<le> rat_of_nat n" using b(2) by (simp only: of_nat_le_iff)
  then have "rat_of_nat (2 ^ m) < 1 / x" using n(3) by simp
  then show "x < 2 powi (ilog2 x + 1)"
    unfolding e(2) power_int_minus_divide power_int_of_nat using assms by (simp add: field_simps)
qed

lemma ilog2_bounds: "0 < x \<Longrightarrow> 2 powi ilog2 x \<le> x" "0 < x \<Longrightarrow> x < 2 powi (ilog2 x + 1)"
  using ilog2_one_le [of x] ilog2_less_one [of x] by (cases "1 \<le> x"; simp)+

lemma two_powi_less: "(2 :: rat) powi i < 2 powi j \<longleftrightarrow> i < j"
proof -
  have "(2 :: rat) powi a < 2 powi b" if "a < b" for a b
    by (rule power_int_strict_increasing [OF that]) simp
  then show ?thesis by (metis linorder_neqE_linordered_idom order_less_asym less_irrefl)
qed

lemma two_powi_le: "(2 :: rat) powi i \<le> 2 powi j \<longleftrightarrow> i \<le> j"
  using two_powi_less [of j i] by (simp add: linorder_not_less [symmetric])

lemma two_powi_pos [simp]: "0 < (2 :: rat) powi i"
  by (simp add: zero_less_power_int)

lemma ilog2_unique:
  assumes "2 powi k \<le> x" and "x < 2 powi (k + 1)"
  shows "ilog2 x = k"
proof -
  have x: "0 < x" using assms(1) two_powi_pos [of k] by (rule order_less_le_trans [rotated])
  have "2 powi k < (2 :: rat) powi (ilog2 x + 1)" "2 powi ilog2 x < (2 :: rat) powi (k + 1)"
    using assms ilog2_bounds [OF x] by (blast intro: order_le_less_trans)+
  then show ?thesis by (simp add: two_powi_less)
qed

lemma ilog2_mono: "0 < x \<Longrightarrow> x \<le> y \<Longrightarrow> ilog2 x \<le> ilog2 y"
proof -
  assume "0 < x" "x \<le> y"
  then have "2 powi ilog2 x < (2 :: rat) powi (ilog2 y + 1)"
    using ilog2_bounds(1) [of x] ilog2_bounds(2) [of y] by (meson order_le_less_trans order_less_le_trans)
  then show ?thesis by (simp add: two_powi_less)
qed

section \<open>Facts: rounding to 53 bits\<close>

lemma two_powi_add: "(2 :: rat) powi (i + j) = 2 powi i * 2 powi j"
  by (rule power_int_add) simp

lemma ilog2_scale: "0 < x \<Longrightarrow> ilog2 (x * 2 powi j) = ilog2 x + j"
proof (rule ilog2_unique)
  assume x: "0 < x"
  show "2 powi (ilog2 x + j) \<le> x * 2 powi j"
    using ilog2_bounds(1) [OF x] by (simp add: two_powi_add mult_right_mono)
  have "x * 2 powi j < 2 powi (ilog2 x + 1) * 2 powi j"
    using ilog2_bounds(2) [OF x] by (simp add: mult_strict_right_mono)
  then show "x * 2 powi j < 2 powi (ilog2 x + j + 1)"
    by (simp only: two_powi_add [symmetric] add.assoc add.commute [of 1 j])
qed

lemma f64_round_0 [simp]: "f64_round 0 = 0"
  by (simp add: f64_round_def)

text \<open>Scaling by a power of two is exact, whatever the number.\<close>

lemma f64_round_scale: "f64_round (x * 2 powi j) = f64_round x * 2 powi j"
proof (cases "x = 0")
  case False
  have "ilog2 \<bar>x * 2 powi j\<bar> - 52 = (ilog2 \<bar>x\<bar> - 52) + j"
    using ilog2_scale [of "\<bar>x\<bar>" j] False by (simp add: abs_mult)
  moreover have "x * 2 powi j / 2 powi ((ilog2 \<bar>x\<bar> - 52) + j) = x / 2 powi (ilog2 \<bar>x\<bar> - 52)"
    by (simp add: two_powi_add)
  ultimately show ?thesis using False unfolding f64_round_def Let_def
    by (simp only: if_False mult_eq_0_iff power_int_eq_0_iff simp_thms zero_neq_numeral [symmetric] mult.assoc)
      (simp add: two_powi_add)
qed simp

lemma f64_round_error: "\<bar>f64_round x - x\<bar> \<le> \<bar>x\<bar> / 2 ^ 53"
proof (cases "x = 0")
  case False
  define u :: rat where "u = 2 powi (ilog2 \<bar>x\<bar> - 52)"
  have u: "0 < u" by (simp add: u_def)
  have "f64_round x - x = (of_int (round_even (x / u)) - x / u) * u"
    using False u by (simp add: f64_round_def u_def [symmetric] Let_def algebra_simps)
  then have "\<bar>f64_round x - x\<bar> \<le> 1 / 2 * u"
    using round_even_near [of "x / u"] u by (simp add: abs_mult mult_right_mono)
  also have "1 / 2 * u = 2 powi ilog2 \<bar>x\<bar> / 2 ^ 53"
    by (simp add: u_def power_int_diff)
  also have "\<dots> \<le> \<bar>x\<bar> / 2 ^ 53"
    using ilog2_bounds(1) [of "\<bar>x\<bar>"] False by (simp add: divide_right_mono)
  finally show ?thesis .
qed simp

lemma f64_round_within:
  assumes "0 \<le> x"
  shows "x * (1 - 1 / 2 ^ 53) \<le> f64_round x" "f64_round x \<le> x * (1 + 1 / 2 ^ 53)"
proof -
  have "\<bar>f64_round x - x\<bar> \<le> x / 2 ^ 53" using f64_round_error [of x] assms by (simp only: abs_of_nonneg)
  then have "f64_round x - x \<le> x / 2 ^ 53" "x - f64_round x \<le> x / 2 ^ 53" by linarith+
  then show "x * (1 - 1 / 2 ^ 53) \<le> f64_round x" "f64_round x \<le> x * (1 + 1 / 2 ^ 53)"
    by (simp_all add: field_simps)
qed

text \<open>Rounding keeps the order and stays within the number's binade.\<close>

lemma f64_round_binade:
  assumes "0 < x"
  shows "2 powi ilog2 x \<le> f64_round x" "f64_round x \<le> 2 powi (ilog2 x + 1)"
proof -
  define u :: rat where "u = 2 powi (ilog2 x - 52)"
  have u: "0 < u" by (simp add: u_def)
  have r: "f64_round x = of_int (round_even (x / u)) * u"
    using assms by (simp add: f64_round_def u_def Let_def)
  have e: "2 powi ilog2 x = of_int (2 ^ 52) * u" "2 powi (ilog2 x + 1) = of_int (2 ^ 53) * u"
    using two_powi_add [of "ilog2 x - 52" 52] two_powi_add [of "ilog2 x - 52" 53]
    by (simp_all add: u_def add.commute mult.commute)
  have "of_int (2 ^ 52) \<le> x / u" "x / u \<le> of_int (2 ^ 53)"
    using ilog2_bounds [OF assms] u by (simp_all only: e pos_le_divide_eq pos_divide_le_eq less_imp_le)
  from round_even_ge [OF this(1)] round_even_le [OF this(2)]
  show "2 powi ilog2 x \<le> f64_round x" "f64_round x \<le> 2 powi (ilog2 x + 1)"
    using u unfolding r e by (simp_all only: mult_le_cancel_right_pos of_int_le_iff)
qed

lemma f64_round_mono:
  assumes "0 \<le> x" and "x \<le> y"
  shows "f64_round x \<le> f64_round y"
proof (cases "0 < x")
  case True
  then have y: "0 < y" using assms by simp
  show ?thesis
  proof (cases "ilog2 x = ilog2 y")
    case eq: True
    have "x / 2 powi (ilog2 y - 52) \<le> y / 2 powi (ilog2 y - 52)" using assms by (simp add: divide_right_mono)
    from round_even_mono [OF this] show ?thesis using True y eq
      by (simp add: f64_round_def Let_def)
  next
    case False
    then have "(2 :: rat) powi (ilog2 x + 1) \<le> 2 powi ilog2 y"
      using ilog2_mono [OF True assms(2)] by (simp add: two_powi_le)
    then show ?thesis using f64_round_binade(2) [OF True] f64_round_binade(1) [OF y] by linarith
  qed
next
  case False
  then have "x = 0" using assms by simp
  moreover have "0 \<le> f64_round y" if "0 < y"
    using f64_round_binade(1) [OF that] two_powi_pos [of "ilog2 y"] by linarith
  ultimately show ?thesis using assms by (cases "y = 0") auto
qed

lemma f64_round_nonneg [simp]: "0 \<le> x \<Longrightarrow> 0 \<le> f64_round x"
  using f64_round_mono [of 0 x] by simp

lemma f64_round_pos: "0 < x \<Longrightarrow> 0 < f64_round x"
  using f64_round_binade(1) [of x] two_powi_pos [of "ilog2 x"] by linarith

text \<open>A number of at most 53 significant bits is itself.\<close>

lemma f64_round_small: "\<bar>m\<bar> < 2 ^ 53 \<Longrightarrow> f64_round (of_int m) = of_int m"
proof (cases "m = 0")
  case False
  assume m: "\<bar>m\<bar> < 2 ^ 53"
  let ?k = "ilog2 \<bar>of_int m\<bar>"
  have "2 powi ?k \<le> \<bar>rat_of_int m\<bar>" using ilog2_bounds(1) [of "\<bar>of_int m\<bar>"] False by simp
  also have "\<bar>rat_of_int m\<bar> = of_int \<bar>m\<bar>" by simp
  also have "\<dots> < of_int (2 ^ 53)" using m by (simp only: of_int_less_iff)
  also have "of_int (2 ^ 53) = (2 :: rat) powi 53" by simp
  finally have "?k \<le> 52" by (simp only: two_powi_less)
  then obtain n where n: "52 - ?k = int n" by (metis diff_ge_0_iff_ge nonneg_int_cases)
  then have e: "2 powi (?k - 52) = 1 / (2 :: rat) ^ n"
    by (metis minus_diff_eq power_int_minus_divide power_int_of_nat)
  have "rat_of_int m / (1 / 2 ^ n) = of_int (m * 2 ^ n)" by simp
  then have "round_even (rat_of_int m / (1 / 2 ^ n)) = m * 2 ^ n" by (simp only: round_even_of_int)
  then show ?thesis using False by (simp add: f64_round_def Let_def e)
qed simp

lemma f64_round_exact:
  assumes "\<bar>m\<bar> \<le> 2 ^ 53"
  shows "f64_round (of_int m * 2 powi e) = of_int m * 2 powi e"
proof (cases "\<bar>m\<bar> = 2 ^ 53")
  case True
  then have m: "m = sgn m * 2 ^ 53" by (metis abs_mult_sgn mult.commute)
  have "f64_round (of_int (sgn m)) = of_int (sgn m)" by (rule f64_round_small) (simp add: sgn_if)
  then show ?thesis
    using f64_round_scale [of "of_int (sgn m)" "53 + e"]
    by (subst (1 2) m) (simp add: two_powi_add mult.assoc)
qed (use assms in \<open>simp add: f64_round_scale f64_round_small\<close>)

lemma f64_round_int: "\<bar>m\<bar> \<le> 2 ^ 53 \<Longrightarrow> f64_round (of_int m) = of_int m"
  using f64_round_exact [of m 0] by simp

lemma f64_round_two_powi [simp]: "f64_round (2 powi e) = 2 powi e"
  using f64_round_exact [of 1 e] by simp

lemma f64_round_idem [simp]: "0 \<le> x \<Longrightarrow> f64_round (f64_round x) = f64_round x"
proof (cases "0 < x")
  case True
  define u :: rat where "u = 2 powi (ilog2 x - 52)"
  have r: "f64_round x = of_int (round_even (x / u)) * u"
    using True by (simp add: f64_round_def u_def Let_def)
  have "2 powi (ilog2 x + 1) = of_int (2 ^ 53) * u"
    using two_powi_add [of "ilog2 x - 52" 53] by (simp add: u_def add.commute mult.commute)
  then have "of_int (round_even (x / u)) * u \<le> of_int (2 ^ 53) * u"
    using f64_round_binade(2) [OF True] r by (simp only:)
  then have "round_even (x / u) \<le> 2 ^ 53"
    using two_powi_pos [of "ilog2 x - 52"] by (simp only: u_def [symmetric] mult_le_cancel_right_pos of_int_le_iff)
  moreover have "0 \<le> round_even (x / u)" using True by (intro round_even_ge) (simp add: u_def)
  ultimately show ?thesis unfolding r u_def by (intro f64_round_exact) simp
qed simp

text \<open>A bound that is itself a floating-point number survives rounding.\<close>

lemma f64_round_le: "x \<le> y \<Longrightarrow> 0 \<le> y \<Longrightarrow> f64_round y = y \<Longrightarrow> f64_round x \<le> y"
proof (cases "0 \<le> x")
  case False
  define u :: rat where "u = 2 powi (ilog2 \<bar>x\<bar> - 52)"
  assume "0 \<le> y"
  have u: "0 < u" by (simp add: u_def)
  have "round_even (x / u) \<le> 0" using False u by (intro round_even_le) (simp add: divide_nonpos_pos)
  then have "of_int (round_even (x / u)) * u \<le> 0" using u by (simp add: mult_nonpos_nonneg)
  then show "f64_round x \<le> y" using False \<open>0 \<le> y\<close> by (simp add: f64_round_def u_def Let_def)
qed (use f64_round_mono [of x y] in simp)

lemma f64_div_pow2:
  assumes "0 \<le> x" and "f64_round x = x"
  shows "f64_div x (2 ^ n) = x / 2 ^ n"
  using f64_round_scale [of x "- int n"] assms(2) by (simp add: f64_div_def power_int_minus divide_inverse)

section \<open>Facts: casts\<close>

lemma f64_of_nat_exact: "n \<le> 2 ^ 53 \<Longrightarrow> f64_of_nat n = of_nat n"
proof -
  assume "n \<le> 2 ^ 53"
  then have "\<bar>int n\<bar> \<le> 2 ^ 53" by simp
  from f64_round_int [OF this] show ?thesis by (simp add: f64_of_nat_def)
qed

lemma f64_of_nat_nonneg [simp]: "0 \<le> f64_of_nat n"
  by (simp add: f64_of_nat_def)

lemma f64_of_nat_mono: "m \<le> n \<Longrightarrow> f64_of_nat m \<le> f64_of_nat n"
  by (simp add: f64_of_nat_def f64_round_mono)

lemma f64_of_nat_round [simp]: "f64_round (f64_of_nat n) = f64_of_nat n"
  by (simp add: f64_of_nat_def)

lemma f64_of_nat_pos: "0 < f64_of_nat n \<longleftrightarrow> 0 < n"
  using f64_round_pos [of "of_nat n"] by (cases "n = 0") (simp_all add: f64_of_nat_def)

text \<open>The smallest integer of a power of two is reached by the cast exactly when the integer reaches it.\<close>

lemma f64_of_nat_ge_pow2: "2 ^ k \<le> f64_of_nat n \<longleftrightarrow> 2 ^ k \<le> n" if "k \<le> 53"
proof
  have p: "(2 :: nat) ^ k \<le> 2 ^ 53" using that by (rule power_increasing) simp
  have e: "f64_of_nat (2 ^ k) = 2 ^ k" using f64_of_nat_exact [OF p] by simp
  show "2 ^ k \<le> f64_of_nat n" if "2 ^ k \<le> n" using f64_of_nat_mono [OF that] e by simp
  show "2 ^ k \<le> n" if a: "2 ^ k \<le> f64_of_nat n"
  proof (rule ccontr)
    assume "\<not> 2 ^ k \<le> n"
    then have n: "n < 2 ^ k" by simp
    then have "f64_of_nat n = of_nat n" using p by (intro f64_of_nat_exact) linarith
    moreover have "rat_of_nat n < of_nat (2 ^ k)" using n by (simp only: of_nat_less_iff)
    ultimately show False using a by simp
  qed
qed

section \<open>Facts: accumulated rounding\<close>

text \<open>\<open>y\<close> is \<open>x\<close> up to a relative error of \<open>c\<close>.\<close>

definition close :: "rat \<Rightarrow> rat \<Rightarrow> rat \<Rightarrow> bool" where
  "close c x y \<longleftrightarrow> 0 \<le> x \<and> x * (1 - c) \<le> y \<and> y \<le> x * (1 + c)"

lemma close_round: "0 \<le> x \<Longrightarrow> close (1 / 2 ^ 53) x (f64_round x)"
  using f64_round_within [of x] by (simp add: close_def)

lemma close_mono: "close c x y \<Longrightarrow> c \<le> d \<Longrightarrow> close d x y"
  unfolding close_def by (meson add_left_mono diff_left_mono mult_left_mono order_trans)

lemma close_nonneg: "close c x y \<Longrightarrow> c \<le> 1 \<Longrightarrow> 0 \<le> y"
  unfolding close_def by (meson diff_ge_0_iff_ge mult_nonneg_nonneg order_trans)

lemma close_pos: "close c x y \<Longrightarrow> c < 1 \<Longrightarrow> 0 < x \<Longrightarrow> 0 < y"
  unfolding close_def by (meson diff_gt_0_iff_gt mult_pos_pos order_less_le_trans)

lemma close_trans:
  assumes "close c x y" and "close d y z" and "0 \<le> c" and "0 \<le> d" and "d \<le> 1"
  shows "close (c + d + c * d) x z"
proof -
  have x: "0 \<le> x" using assms(1) by (simp add: close_def)
  have "x * (1 - c) * (1 - d) \<le> y * (1 - d)" "y * (1 + d) \<le> x * (1 + c) * (1 + d)"
    using assms by (auto simp: close_def intro: mult_right_mono)
  moreover have "x * (1 + c) * (1 + d) = x * (1 + (c + d + c * d))" by (simp add: algebra_simps)
  moreover have "x * (1 - c) * (1 - d) = x * (1 - (c + d + c * d)) + 2 * (x * (c * d))"
    by (simp add: algebra_simps)
  moreover have "0 \<le> x * (c * d)" using assms(3,4) x by simp
  ultimately show ?thesis using assms(2) x unfolding close_def by linarith
qed

text \<open>One more operation, within a budget for the accumulated error.\<close>

lemma close_step:
  assumes "close c x y" and "close d y z" and "0 \<le> c" and "0 \<le> d" and "d \<le> 1" and "c + d + c * d \<le> b"
  shows "close b x z"
  using close_mono [OF close_trans [OF assms(1-5)] assms(6)] .

lemma close_add: "close c x x' \<Longrightarrow> close c y y' \<Longrightarrow> close c (x + y) (x' + y')"
  unfolding close_def by (simp add: distrib_right)

lemma close_scale:
  assumes "close c x y" and "0 \<le> k"
  shows "close c (x * k) (y * k)"
proof -
  have "x * (1 - c) * k \<le> y * k" "y * k \<le> x * (1 + c) * k"
    using assms by (auto simp: close_def intro: mult_right_mono)
  then show ?thesis using assms by (simp add: close_def algebra_simps)
qed

lemma close_divisor:
  assumes "close c t s" and "0 < t" and "0 \<le> c" and "c \<le> 1 / 2" and "0 \<le> x"
  shows "close (2 * c) (x / t) (x / s)"
proof -
  have s: "t * (1 - c) \<le> s" "s \<le> t * (1 + c)" using assms(1) by (simp_all add: close_def)
  have tc: "0 < t * (1 - c)" using assms by (intro mult_pos_pos) simp_all
  then have s0: "0 < s" using s(1) by linarith
  have lo: "(1 - 2 * c) * s \<le> t"
  proof -
    have "(1 - 2 * c) * s \<le> (1 - 2 * c) * (t * (1 + c))" using s(2) assms(4) by (intro mult_left_mono) simp_all
    also have "\<dots> = t - t * (c + 2 * (c * c))" by (simp add: algebra_simps)
    also have "\<dots> \<le> t" using assms(2,3) by simp
    finally show ?thesis .
  qed
  have hi: "t \<le> (1 + 2 * c) * s"
  proof -
    have "0 \<le> t * (c * (1 - 2 * c))" using assms by (intro mult_nonneg_nonneg) simp_all
    then have "t \<le> (1 + 2 * c) * (t * (1 - c))" by (simp add: algebra_simps)
    also have "\<dots> \<le> (1 + 2 * c) * s" using s(1) assms(3) by (intro mult_left_mono) simp_all
    finally show ?thesis .
  qed
  have "x * ((1 - 2 * c) * s) \<le> x * t" "x * t \<le> x * ((1 + 2 * c) * s)"
    using lo hi assms(5) by (intro mult_left_mono; simp)+
  then show ?thesis using s0 assms(2,5) by (simp add: close_def field_simps)
qed

lemma as_secs_f64_close: "close (3 / 2 ^ 53) (of_nat d / 10 ^ 9) (as_secs_f64 d)"
proof -
  define s where "s = d div 1000000000"
  define n where "n = d mod 1000000000"
  have d: "of_nat d / 10 ^ 9 = rat_of_nat s + of_nat n / 10 ^ 9"
  proof -
    have "rat_of_nat d = of_nat (1000000000 * s + n)" by (simp add: s_def n_def)
    then show ?thesis by (simp add: field_simps)
  qed
  have "n < 1000000000" by (simp add: n_def)
  then have n: "f64_of_nat n = of_nat n" by (intro f64_of_nat_exact) simp
  have a: "close (1 / 2 ^ 53) (of_nat s) (f64_of_nat s)" unfolding f64_of_nat_def by (rule close_round) simp
  have b: "close (1 / 2 ^ 53) (of_nat n / 10 ^ 9) (f64_div (f64_of_nat n) 1000000000)"
    unfolding f64_div_def n using close_round [of "of_nat n / 10 ^ 9"] by simp
  have "close (1 / 2 ^ 53) (f64_of_nat s + f64_div (f64_of_nat n) 1000000000) (as_secs_f64 d)"
    unfolding as_secs_f64_def s_def [symmetric] n_def [symmetric] f64_add_def
    by (rule close_round) (simp add: f64_div_def)
  from close_step [OF close_add [OF a b] this] show ?thesis unfolding d by simp
qed

lemma as_secs_f64_zero: "as_secs_f64 d = 0 \<longleftrightarrow> d = 0"
proof
  assume "as_secs_f64 d = 0"
  then have "rat_of_nat d / 10 ^ 9 * (1 - 3 / 2 ^ 53) \<le> 0" using as_secs_f64_close [of d] by (simp add: close_def)
  then show "d = 0" by simp
qed (simp add: as_secs_f64_def f64_of_nat_def f64_div_def f64_add_def)

section \<open>Facts: range\<close>

text \<open>Zero or a normal number, for numbers that are not negative: neither an overflow to infinity
  nor a loss of precision near zero.\<close>

definition f64_normal :: "rat \<Rightarrow> bool" where
  "f64_normal x \<longleftrightarrow> x = 0 \<or> 2 powi (- 1022) \<le> x \<and> x \<le> 2 powi 1023"

lemma f64_round_normal:
  assumes "2 powi a \<le> x" and "x \<le> 2 powi b" and "- 1022 \<le> a" and "b \<le> 1023"
  shows "f64_normal (f64_round x)"
proof -
  have "f64_round (2 powi a) \<le> f64_round x" using assms(1) two_powi_pos [of a] by (intro f64_round_mono) (simp_all add: less_imp_le)
  moreover have "f64_round x \<le> f64_round (2 powi b)"
    using assms(1,2) two_powi_pos [of a] by (intro f64_round_mono) linarith+
  moreover have "(2 :: rat) powi (- 1022) \<le> 2 powi a" "(2 :: rat) powi b \<le> 2 powi 1023"
    using assms(3,4) by (simp_all only: two_powi_le)
  ultimately show ?thesis unfolding f64_normal_def f64_round_two_powi by linarith
qed

section \<open>Facts: text\<close>

lemma decimal_value: "k \<le> 1 \<Longrightarrow> pad_zero k (show_nat d) = show_nat d"
  using show_base_nonempty [of 10 d] by (cases "show_base 10 d") (auto simp: pad_zero_def show_nat_def)

end
