(* ===== verification/Figures.thy ===== *)
theory Figures
  imports Std_F64
begin

text \<open>
  The functions of \<open>src/tui/widgets.rs\<close> that compute with floating-point numbers: throughput, the
  share of successes, byte counts and the labels of the chart's axis. Their results are
  compared with the exact figures.
\<close>

section \<open>Definitions\<close>

definition rate_kbps :: "u64 \<Rightarrow> duration \<Rightarrow> f64" where
  "rate_kbps bytes_delta dt =
     (let secs = as_secs_f64 dt
      in if secs = 0 then 0 else f64_div (f64_div (as_f64 bytes_delta) 1024) secs)"

text \<open>\<open>ok + fail\<close> wraps, as in a release build.\<close>

definition fmt_pct :: "u64 \<Rightarrow> u64 \<Rightarrow> string" where
  "fmt_pct ok fail =
     (let tot = ok + fail
      in if tot = 0 then ''--''
         else fixed 1 (f64_div (f64_mul (as_f64 ok) 100) (as_f64 tot)) @ ''%'')"

definition human_bytes :: "u64 \<Rightarrow> string" where
  "human_bytes n =
     (let KB = 1024; MB = f64_mul KB 1024; GB = f64_mul MB 1024; f = as_f64 n
      in if GB \<le> f then fixed 2 (f64_div f GB) @ '' GB''
         else if MB \<le> f then fixed 2 (f64_div f MB) @ '' MB''
         else if KB \<le> f then fixed 2 (f64_div f KB) @ '' KB''
         else show_nat (unat n) @ '' B'')"

definition rate_axis_labels :: "f64 \<Rightarrow> string list" where
  "rate_axis_labels ymax_kbps =
     (let MB = 1024; GB = f64_mul 1024 1024;
          (dv, unit) = (if GB \<le> ymax_kbps then (GB, ''GB/s'')
                        else if MB \<le> ymax_kbps then (MB, ''MB/s'')
                        else (1, ''KB/s''));
          fmt = (\<lambda>v. if dv = 1 then fixed 0 (f64_div v dv) @ '' '' @ unit
                     else fixed 1 (f64_div v dv) @ '' '' @ unit)
      in if ymax_kbps \<le> 1 then ['''', fmt (max ymax_kbps 1)]
         else ['''', fmt (f64_div ymax_kbps 2), fmt ymax_kbps])"

section \<open>Facts\<close>

lemma f64_constants: "f64_mul 1024 1024 = 2 ^ 20" "f64_mul (2 ^ 20) 1024 = 2 ^ 30"
proof -
  have "f64_round (2 powi 20) = 2 powi 20" "f64_round (2 powi 30) = 2 powi 30" by (rule f64_round_two_powi)+
  then show "f64_mul 1024 1024 = 2 ^ 20" "f64_mul (2 ^ 20) 1024 = 2 ^ 30"
    by (simp_all add: f64_mul_def)
qed

lemma as_f64_facts [simp]: "0 \<le> as_f64 w" "f64_round (as_f64 w) = as_f64 w"
  by (simp_all add: as_f64_def)

lemma unsigned_rat_nonneg [simp]: "(0 :: rat) \<le> unsigned w" for w :: u64
  by (metis of_nat_0_le_iff of_nat_unat)

lemma as_f64_close: "close (1 / 2 ^ 53) (of_nat (unat w)) (as_f64 w)"
  unfolding as_f64_def f64_of_nat_def by (rule close_round) simp

lemma as_f64_zero: "as_f64 w = 0 \<longleftrightarrow> w = 0"
  using f64_of_nat_pos [of "unat w"] f64_of_nat_nonneg [of "unat w"]
  by (auto simp: as_f64_def unat_eq_0 f64_of_nat_def)

lemma as_f64_le_64: "as_f64 w \<le> 2 ^ 64"
proof -
  have "rat_of_nat (unat w) \<le> of_nat (2 ^ 64)"
    using unsigned_less [of w, where 'a = nat] by (simp only: of_nat_le_iff) simp
  then have "f64_round (of_nat (unat w)) \<le> f64_round (2 powi 64)" by (intro f64_round_mono) simp_all
  then show ?thesis by (simp only: as_f64_def f64_of_nat_def f64_round_two_powi) simp
qed

lemma as_f64_ge_one: "w \<noteq> 0 \<Longrightarrow> 1 \<le> as_f64 w"
  using f64_of_nat_ge_pow2 [of 0 "unat w"] by (simp add: as_f64_def Suc_leI unat_gt_0)

lemma div_1024: "f64_div (as_f64 w) 1024 = as_f64 w / 1024"
  using f64_div_pow2 [of "as_f64 w" 10] by simp

lemma rate_kbps_close:
  assumes "0 < dt"
  shows "close (1 / 2 ^ 49) (of_nat (unat b) / 1024 / (of_nat dt / 10 ^ 9)) (rate_kbps b dt)"
proof -
  let ?t = "rat_of_nat dt / 10 ^ 9" and ?s = "as_secs_f64 dt" and ?x = "as_f64 b / 1024"
  have t: "0 < ?t" using assms by simp
  have s: "close (3 / 2 ^ 53) ?t ?s" by (rule as_secs_f64_close)
  have "close (1 / 2 ^ 53) (of_nat (unat b) * (1 / 1024 / ?t)) (as_f64 b * (1 / 1024 / ?t))"
    using t by (intro close_scale as_f64_close) simp
  then have a: "close (1 / 2 ^ 53) (of_nat (unat b) / 1024 / ?t) (?x / ?t)"
    unfolding times_divide_eq_right mult_1_right .
  have "close (2 * (3 / 2 ^ 53)) (?x / ?t) (?x / ?s)" using s t by (intro close_divisor) simp_all
  then have "close (8 / 2 ^ 53) (of_nat (unat b) / 1024 / ?t) (?x / ?s)"
    by (rule close_step [OF a]) simp_all
  moreover have "close (1 / 2 ^ 53) (?x / ?s) (rate_kbps b dt)"
  proof -
    have "?s \<noteq> 0" using assms by (simp add: as_secs_f64_zero)
    moreover have "0 \<le> ?s" using close_nonneg [OF s] by simp
    ultimately show ?thesis using close_round [of "?x / ?s"]
      by (simp add: rate_kbps_def Let_def div_1024 f64_div_def [of "?x"])
  qed
  ultimately show ?thesis by (rule close_step) simp_all
qed


lemma as_secs_f64_range:
  assumes "0 < dt" and "dt < 2 ^ 64 * 10 ^ 9"
  shows "2 powi (- 31) \<le> as_secs_f64 dt" "as_secs_f64 dt \<le> 2 powi 65"
proof -
  let ?t = "rat_of_nat dt / 10 ^ 9"
  have t: "1 / 10 ^ 9 \<le> ?t" using assms(1) by (simp add: Suc_leI)
  have "rat_of_nat dt < of_nat (2 ^ 64 * 10 ^ 9)" using assms(2) by (simp only: of_nat_less_iff)
  then have t': "?t \<le> 2 ^ 64" by simp
  have c: "?t * (1 - 3 / 2 ^ 53) \<le> as_secs_f64 dt" "as_secs_f64 dt \<le> ?t * (1 + 3 / 2 ^ 53)"
    using as_secs_f64_close [of dt] by (simp_all add: close_def)
  have "(2 :: rat) powi (- 31) \<le> 1 / 10 ^ 9 * (1 - 3 / 2 ^ 53)" by simp
  also have "\<dots> \<le> ?t * (1 - 3 / 2 ^ 53)" using t by (intro mult_right_mono) simp_all
  finally show "2 powi (- 31) \<le> as_secs_f64 dt" using c(1) by linarith
  have "?t * (1 + 3 / 2 ^ 53) \<le> 2 ^ 64 * (1 + 3 / 2 ^ 53)" using t' by (intro mult_right_mono) simp_all
  also have "\<dots> \<le> 2 powi 65" by simp
  finally show "as_secs_f64 dt \<le> 2 powi 65" using c(2) by linarith
qed

lemma f64_normal_between:
  "2 powi a \<le> x \<Longrightarrow> x \<le> 2 powi b \<Longrightarrow> - 1022 \<le> a \<Longrightarrow> b \<le> 1023 \<Longrightarrow> f64_normal x"
  unfolding f64_normal_def by (meson order_trans two_powi_le)

lemma rate_kbps_normal:
  assumes "dt < 2 ^ 64 * 10 ^ 9"
  shows "f64_normal (as_secs_f64 dt) \<and> f64_normal (as_f64 b / 1024) \<and> f64_normal (rate_kbps b dt)"
proof (intro conjI)
  let ?s = "as_secs_f64 dt" and ?x = "as_f64 b / 1024"
  have s: "2 powi (- 31) \<le> ?s" "?s \<le> 2 powi 65" if "dt \<noteq> 0"
    using as_secs_f64_range [OF _ assms] that by simp_all
  then show "f64_normal ?s"
    using as_secs_f64_zero [of dt] f64_normal_between [of "- 31" ?s 65] by (cases "dt = 0") (simp_all add: f64_normal_def)
  have f: "2 powi (- 10) \<le> ?x" "?x \<le> 2 powi 54" if "b \<noteq> 0"
    using as_f64_ge_one [OF that] as_f64_le_64 [of b] by simp_all
  then show "f64_normal ?x"
    using as_f64_zero [of b] f64_normal_between [of "- 10" ?x 54] by (cases "b = 0") (simp_all add: f64_normal_def)
  show "f64_normal (rate_kbps b dt)"
  proof (cases "dt = 0 \<or> b = 0")
    case True
    then show ?thesis using as_secs_f64_zero [of dt] as_f64_zero [of b]
      by (auto simp: rate_kbps_def f64_normal_def f64_div_def)
  next
    case False
    then have s0: "0 < ?s" using s(1) two_powi_pos [of "- 31"] by linarith
    have "2 powi (- 75) * ?s \<le> ?x" using s(2) f(1) False by simp
    then have lo: "2 powi (- 75) \<le> ?x / ?s" using s0 by (simp only: pos_le_divide_eq)
    have "?x \<le> 2 powi 85 * ?s" using s(1) f(2) False by simp
    then have hi: "?x / ?s \<le> 2 powi 85" using s0 by (simp only: pos_divide_le_eq)
    have "rate_kbps b dt = f64_round (?x / ?s)"
      using s0 by (simp add: rate_kbps_def Let_def div_1024 f64_div_def [of "?x"])
    then show ?thesis using f64_round_normal [OF lo hi] by simp
  qed
qed

lemma round_even_below: "x < of_int n + 1 / 2 \<Longrightarrow> round_even x \<le> n"
  using round_even_near [of x] by linarith

lemma round_even_above: "of_int n - 1 / 2 < x \<Longrightarrow> n \<le> round_even x"
  using round_even_near [of x] by linarith

lemma nat_round_even_near:
  assumes "0 \<le> x"
  shows "\<bar>rat_of_nat (nat (round_even x)) - x\<bar> \<le> 1 / 2"
proof -
  have "0 \<le> round_even x" using assms by (intro round_even_ge) simp
  then show ?thesis using round_even_near [of x] by (simp add: of_nat_nat)
qed

text \<open>The share of successes as the code computes it.\<close>

lemma pct_close:
  assumes "0 < unat tot"
  shows "close (8 / 2 ^ 53) (of_nat (unat ok) * 100 / of_nat (unat tot))
    (f64_div (f64_mul (as_f64 ok) 100) (as_f64 tot))"
proof -
  let ?t = "rat_of_nat (unat tot)" and ?s = "as_f64 tot"
  have t: "0 < ?t" using assms by (simp del: of_nat_unat)
  have "close (1 / 2 ^ 53) (as_f64 ok * 100) (f64_mul (as_f64 ok) 100)"
    unfolding f64_mul_def by (rule close_round) simp
  from close_step [OF close_scale [OF as_f64_close [of ok], of 100] this, of "3 / 2 ^ 53"]
  have "close (3 / 2 ^ 53) (of_nat (unat ok) * 100) (f64_mul (as_f64 ok) 100)" by simp
  from close_scale [OF this, of "1 / ?t"] t
  have a: "close (3 / 2 ^ 53) (of_nat (unat ok) * 100 / ?t) (f64_mul (as_f64 ok) 100 / ?t)" by (simp del: of_nat_unat)
  have "close (2 * (1 / 2 ^ 53)) (f64_mul (as_f64 ok) 100 / ?t) (f64_mul (as_f64 ok) 100 / ?s)"
    using t as_f64_close by (intro close_divisor) (simp_all add: f64_mul_def)
  from close_step [OF a this, of "6 / 2 ^ 53"]
  have b: "close (6 / 2 ^ 53) (of_nat (unat ok) * 100 / ?t) (f64_mul (as_f64 ok) 100 / ?s)" by simp
  have "close (1 / 2 ^ 53) (f64_mul (as_f64 ok) 100 / ?s) (f64_div (f64_mul (as_f64 ok) 100) ?s)"
    unfolding f64_div_def by (rule close_round) (simp add: f64_mul_def)
  from close_step [OF b this, of "8 / 2 ^ 53"] show ?thesis by simp
qed

lemma nat_round_even_bounds:
  assumes "0 \<le> x" and "rat_of_nat a - 1 / 2 < x" and "x < rat_of_nat b + 1 / 2"
  shows "a \<le> nat (round_even x)" "nat (round_even x) \<le> b"
  using round_even_above [of "int a" x] round_even_below [of x "int b"] assms by simp_all

lemma human_bytes_unit:
  assumes "(k, name) \<in> set [(10, ''KB''), (20, ''MB''), (30, ''GB'')]" and "2 ^ k \<le> unat n"
    and "k < 30 \<Longrightarrow> unat n < 2 ^ (k + 10)"
  shows "human_bytes n = fixed 2 (as_f64 n / 2 ^ k) @ '' '' @ name"
proof -
  have ge: "2 ^ j \<le> as_f64 n \<longleftrightarrow> 2 ^ j \<le> unat n" if "j \<le> 53" for j
    unfolding as_f64_def by (rule f64_of_nat_ge_pow2 [OF that])
  have d: "f64_div (as_f64 n) (2 ^ j) = as_f64 n / 2 ^ j" for j by (rule f64_div_pow2) simp_all
  have d': "f64_div (as_f64 n) 1024 = as_f64 n / 1024" "f64_div (as_f64 n) 1048576 = as_f64 n / 1048576"
    "f64_div (as_f64 n) 1073741824 = as_f64 n / 1073741824"
    using d [of 10] d [of 20] d [of 30] by simp_all
  have "human_bytes n =
     (if 2 ^ 30 \<le> unat n then fixed 2 (as_f64 n / 2 ^ 30) @ '' GB''
      else if 2 ^ 20 \<le> unat n then fixed 2 (as_f64 n / 2 ^ 20) @ '' MB''
      else if 2 ^ 10 \<le> unat n then fixed 2 (as_f64 n / 2 ^ 10) @ '' KB''
      else show_nat (unat n) @ '' B'')"
    using ge [of 10] ge [of 20] ge [of 30] f64_constants
    by (simp add: human_bytes_def Let_def d')
  then show ?thesis using assms by auto
qed

text \<open>The two figures before they are rounded.\<close>

lemma pct_bound:
  assumes "a \<le> t" and "0 < t"
  shows "rat_of_nat a * 100 / of_nat t \<le> 100"
proof -
  have "rat_of_nat (a * 100) \<le> of_nat (100 * t)" using assms(1) by (simp only: of_nat_le_iff)
  then show ?thesis using assms(2) by (simp add: pos_divide_le_eq)
qed

lemma unit_figure_bound:
  fixes n :: u64
  assumes "k \<le> 30" and "k < 30 \<longrightarrow> unat n < 2 ^ (k + 10)"
  shows "100 * rat_of_nat (unat n) / 2 ^ k \<le> 100 * 2 ^ 34 \<and> (k < 30 \<longrightarrow> 100 * rat_of_nat (unat n) / 2 ^ k \<le> 102400)"
proof (cases "k < 30")
  case True
  then have "unat n \<le> 2 ^ (k + 10)" using assms(2) less_imp_le by blast
  then have "rat_of_nat (unat n) \<le> of_nat (2 ^ (k + 10))" by (simp only: of_nat_le_iff)
  then have "rat_of_nat (unat n) \<le> 1024 * 2 ^ k" by (simp add: power_add)
  then have "100 * rat_of_nat (unat n) / 2 ^ k \<le> 102400" by (simp add: pos_divide_le_eq)
  then show ?thesis by simp
next
  case False
  then have "k = 30" using assms(1) by simp
  moreover have "rat_of_nat (unat n) \<le> of_nat (2 ^ 64)"
    using unsigned_less [of n, where 'a = nat] by (simp only: of_nat_le_iff) simp
  ultimately show ?thesis by simp
qed

section \<open>Properties\<close>

text \<open>Throughput. The figure is zero for an empty interval, and otherwise the number of
  kilobytes per second up to a relative error of \<open>2^-49\<close>, zero only when no byte went
  through. Every intermediate result is zero or a normal floating-point number for every
  byte count and every duration the type can hold, so no infinity and no NaN reaches the
  dashboard, although the code divides.\<close>

theorem rate_kbps_accurate:
  "rate_kbps b 0 = 0 \<and>
   (0 < dt \<longrightarrow>
      \<bar>rate_kbps b dt - of_nat (unat b) / 1024 / (of_nat dt / 10 ^ 9)\<bar>
        \<le> of_nat (unat b) / 1024 / (of_nat dt / 10 ^ 9) / 2 ^ 49 \<and>
      (rate_kbps b dt = 0 \<longleftrightarrow> b = 0)) \<and>
   (dt < 2 ^ 64 * 10 ^ 9 \<longrightarrow>
      f64_normal (as_secs_f64 dt) \<and> f64_normal (as_f64 b / 1024) \<and> f64_normal (rate_kbps b dt))"
proof (intro conjI impI)
  show "rate_kbps b 0 = 0" using as_secs_f64_zero [of 0] by (simp add: rate_kbps_def)
  {
    assume dt: "0 < dt"
    let ?r = "rat_of_nat (unat b) / 1024 / (of_nat dt / 10 ^ 9)"
    have c: "?r * (1 - 1 / 2 ^ 49) \<le> rate_kbps b dt" "rate_kbps b dt \<le> ?r * (1 + 1 / 2 ^ 49)" "0 \<le> ?r"
      using rate_kbps_close [OF dt, of b] unfolding close_def by blast+
    then show "\<bar>rate_kbps b dt - ?r\<bar> \<le> ?r / 2 ^ 49"
      by (simp only: abs_le_iff right_diff_distrib distrib_left mult_1_right times_divide_eq_right) linarith
    have "0 < ?r" if "b \<noteq> 0" using that dt by (simp add: unat_gt_0 del: of_nat_unat)
    then have "0 < rate_kbps b dt" if "b \<noteq> 0"
      using close_pos [OF rate_kbps_close [OF dt]] that by simp
    then show "rate_kbps b dt = 0 \<longleftrightarrow> b = 0"
      using as_f64_zero [of b] by (auto simp: rate_kbps_def f64_div_def Let_def)
  }
qed (use rate_kbps_normal [of dt b] in blast)+

text \<open>The success rate in the statistics panel. Without a completed request it is \<open>--\<close>;
  otherwise, as long as the two counters do not overflow together, the text is a number of
  tenths of a per cent from \<open>0.0%\<close> to \<open>100.0%\<close>, the true share rounded to the nearest tenth
  (up to the arithmetic's error), exactly \<open>100.0%\<close> without failures and exactly \<open>0.0%\<close>
  without successes.\<close>

theorem fmt_pct_shown:
  assumes "unat ok + unat fail < 2 ^ 64"
  shows "(ok = 0 \<and> fail = 0 \<longrightarrow> fmt_pct ok fail = ''--'') \<and>
    (\<not> (ok = 0 \<and> fail = 0) \<longrightarrow>
      (\<exists>n. fmt_pct ok fail = show_nat (n div 10) @ ''.'' @ show_nat (n mod 10) @ ''%'' \<and> n \<le> 1000 \<and>
         \<bar>rat_of_nat n - 1000 * of_nat (unat ok) / of_nat (unat ok + unat fail)\<bar> \<le> 1 / 2 + 1 / 2 ^ 40 \<and>
         (fail = 0 \<longrightarrow> n = 1000) \<and> (ok = 0 \<longrightarrow> n = 0)))"
proof (intro conjI impI)
  assume "\<not> (ok = 0 \<and> fail = 0)"
  then have pos: "0 < unat ok + unat fail" by (auto simp: unat_gt_0)
  have tot: "unat (ok + fail) = unat ok + unat fail"
    using assms by (simp add: unat_plus_if')
  define t where "t = unat ok + unat fail"
  define v where "v = f64_div (f64_mul (as_f64 ok) 100) (as_f64 (ok + fail))"
  define p where "p = rat_of_nat (unat ok) * 100 / of_nat t"
  define n where "n = nat (round_even (v * 10))"
  have cl: "close (8 / 2 ^ 53) p v"
    using pct_close [of "ok + fail" ok] pos unfolding tot v_def p_def t_def by blast
  then have c: "p * (1 - 8 / 2 ^ 53) \<le> v" "v \<le> p * (1 + 8 / 2 ^ 53)" "0 \<le> p" by (simp_all only: close_def)
  have t: "0 < rat_of_nat t" using pos by (simp add: t_def del: of_nat_add of_nat_unat)
  have p: "p \<le> 100" unfolding p_def using pos by (intro pct_bound) (simp_all add: t_def)
  have v0: "0 \<le> v * 10" using close_nonneg [OF cl] by simp
  show "\<exists>n. fmt_pct ok fail = show_nat (n div 10) @ ''.'' @ show_nat (n mod 10) @ ''%'' \<and> n \<le> 1000 \<and>
      \<bar>rat_of_nat n - 1000 * of_nat (unat ok) / of_nat (unat ok + unat fail)\<bar> \<le> 1 / 2 + 1 / 2 ^ 40 \<and>
      (fail = 0 \<longrightarrow> n = 1000) \<and> (ok = 0 \<longrightarrow> n = 0)"
  proof (intro exI [of _ n] conjI impI)
    have "ok + fail \<noteq> 0" using tot pos by (metis unat_0 less_irrefl)
    then show "fmt_pct ok fail = show_nat (n div 10) @ ''.'' @ show_nat (n mod 10) @ ''%''"
      by (simp add: fmt_pct_def Let_def fixed_def v_def n_def decimal_def decimal_value)
    have "v * 10 < rat_of_nat 1000 + 1 / 2" using c(2) p by simp
    then show "n \<le> 1000" using nat_round_even_bounds(2) [OF v0, of 0 1000] v0 unfolding n_def by simp
    have "\<bar>v * 10 - 10 * p\<bar> \<le> 1 / 2 ^ 40" using c p unfolding abs_le_iff by simp
    moreover have "\<bar>rat_of_nat n - v * 10\<bar> \<le> 1 / 2" unfolding n_def by (rule nat_round_even_near [OF v0])
    moreover have "10 * p = 1000 * of_nat (unat ok) / of_nat (unat ok + unat fail)" by (simp add: p_def t_def)
    ultimately show "\<bar>rat_of_nat n - 1000 * of_nat (unat ok) / of_nat (unat ok + unat fail)\<bar> \<le> 1 / 2 + 1 / 2 ^ 40"
      by linarith
    {
      assume "fail = 0"
      then have "p = 100" using t by (simp add: p_def t_def del: of_nat_unat)
      then have "rat_of_nat 1000 - 1 / 2 < v * 10" using c(1) by simp
      then show "n = 1000" using nat_round_even_bounds(1) [OF v0, of 1000 1000] \<open>n \<le> 1000\<close> \<open>v * 10 < _\<close>
        unfolding n_def by simp
    }
    assume "ok = 0"
    then have "p = 0" by (simp add: p_def)
    then have "v = 0" using c by simp
    then show "n = 0" by (simp add: n_def round_even_def)
  qed
qed (simp add: fmt_pct_def)

theorem rate_kbps_accurate_witness:
  "\<bar>rate_kbps 2048 500000000 - 4\<bar> \<le> 4 / 2 ^ 49 \<and> f64_normal (rate_kbps 2048 500000000)"
  using rate_kbps_accurate [of 2048 500000000] by simp

theorem fmt_pct_shown_witness:
  "\<exists>n. fmt_pct 2 1 = show_nat (n div 10) @ ''.'' @ show_nat (n mod 10) @ ''%'' \<and> n = 667"
proof -
  have "unat (2 :: u64) + unat (1 :: u64) < 2 ^ 64" "\<not> ((2 :: u64) = 0 \<and> (1 :: u64) = 0)" by simp_all
  with fmt_pct_shown [of 2 1] obtain n where
    n: "fmt_pct 2 1 = show_nat (n div 10) @ ''.'' @ show_nat (n mod 10) @ ''%''"
    "\<bar>rat_of_nat n - 1000 * of_nat (unat (2 :: u64)) / of_nat (unat (2 :: u64) + unat (1 :: u64))\<bar> \<le> 1 / 2 + 1 / 2 ^ 40"
    by blast
  from n(2) have "rat_of_nat n - 2000 / 3 \<le> 1 / 2 + 1 / 2 ^ 40" "2000 / 3 - rat_of_nat n \<le> 1 / 2 + 1 / 2 ^ 40"
    by (simp_all only: abs_le_iff minus_diff_eq) simp_all
  then have "rat_of_nat n < of_nat 668" "rat_of_nat 666 < of_nat n" by simp_all
  then have "n = 667" by (simp only: of_nat_less_iff)
  with n show ?thesis by blast
qed

text \<open>A byte count. Below a kilobyte the exact number is shown; from there on the largest of
  KB, MB and GB that fits, with two decimals: the true quotient rounded to the nearest
  hundredth, never less than \<open>1.00\<close>, and never more than \<open>1024.00\<close> of KB or MB (the bound is
  reached: a byte less than a megabyte reads \<open>1024.00 KB\<close>).\<close>

theorem human_bytes_shown:
  "(unat n < 2 ^ 10 \<longrightarrow> human_bytes n = show_nat (unat n) @ '' B'') \<and>
   ((k, name) \<in> set [(10, ''KB''), (20, ''MB''), (30, ''GB'')] \<and> 2 ^ k \<le> unat n \<and> (k < 30 \<longrightarrow> unat n < 2 ^ (k + 10)) \<longrightarrow>
     (\<exists>h. human_bytes n = show_nat (h div 100) @ ''.'' @ pad_zero 2 (show_nat (h mod 100)) @ '' '' @ name \<and>
        \<bar>rat_of_nat h - 100 * of_nat (unat n) / 2 ^ k\<bar> \<le> 1 / 2 + 1 / 2 ^ 12 \<and>
        100 \<le> h \<and> (k < 30 \<longrightarrow> h \<le> 102400)))"
proof (intro conjI impI)
  assume n: "unat n < 2 ^ 10"
  have ge: "2 ^ j \<le> as_f64 n \<longleftrightarrow> 2 ^ j \<le> unat n" if "j \<le> 53" for j
    unfolding as_f64_def by (rule f64_of_nat_ge_pow2 [OF that])
  show "human_bytes n = show_nat (unat n) @ '' B''"
    using n ge [of 10] ge [of 20] ge [of 30] f64_constants by (simp add: human_bytes_def Let_def)
next
  assume a: "(k, name) \<in> set [(10, ''KB''), (20, ''MB''), (30, ''GB'')] \<and> 2 ^ k \<le> unat n \<and> (k < 30 \<longrightarrow> unat n < 2 ^ (k + 10))"
  then have k: "10 \<le> k" "k \<le> 30" by auto
  define x where "x = as_f64 n / 2 ^ k * 10 ^ 2"
  define q where "q = 100 * rat_of_nat (unat n) / 2 ^ k"
  define h where "h = nat (round_even x)"
  have t: "human_bytes n = show_nat (h div 100) @ ''.'' @ pad_zero 2 (show_nat (h mod 100)) @ '' '' @ name"
    using human_bytes_unit [of k name n] a by (simp add: fixed_def decimal_def h_def x_def)
  have "close (1 / 2 ^ 53) (of_nat (unat n) * (100 / 2 ^ k)) (as_f64 n * (100 / 2 ^ k))"
    by (rule close_scale [OF as_f64_close]) simp
  then have c: "q * (1 - 1 / 2 ^ 53) \<le> x" "x \<le> q * (1 + 1 / 2 ^ 53)" "0 \<le> q"
    by (simp_all add: close_def q_def x_def mult.commute)
  have qb: "q \<le> 100 * 2 ^ 34 \<and> (k < 30 \<longrightarrow> q \<le> 102400)"
    unfolding q_def using k a by (intro unit_figure_bound) blast+
  have "2 ^ k \<le> as_f64 n"
    using f64_of_nat_ge_pow2 [of k "unat n"] k a by (simp add: as_f64_def)
  then have x100: "100 \<le> x" by (simp add: x_def pos_le_divide_eq)
  have h1: "\<bar>rat_of_nat h - x\<bar> \<le> 1 / 2" unfolding h_def using x100 by (intro nat_round_even_near) simp
  have h2: "\<bar>x - q\<bar> \<le> 1 / 2 ^ 12" using c(1,2) qb unfolding abs_le_iff by simp
  have h3: "\<bar>rat_of_nat h - q\<bar> \<le> 1 / 2 + 1 / 2 ^ 12" using h1 h2 by linarith
  have "rat_of_nat 100 - 1 / 2 < x" using x100 by simp
  then have "100 \<le> h" unfolding h_def using round_even_above [of 100 x] by simp
  moreover have "h \<le> 102400" if "k < 30"
  proof -
    have "x < rat_of_nat 102400 + 1 / 2" using c(2) qb that by simp
    then show ?thesis unfolding h_def using round_even_below [of x 102400] by simp
  qed
  ultimately show "\<exists>h. human_bytes n = show_nat (h div 100) @ ''.'' @ pad_zero 2 (show_nat (h mod 100)) @ '' '' @ name \<and>
      \<bar>rat_of_nat h - 100 * of_nat (unat n) / 2 ^ k\<bar> \<le> 1 / 2 + 1 / 2 ^ 12 \<and> 100 \<le> h \<and> (k < 30 \<longrightarrow> h \<le> 102400)"
    using t h3 unfolding q_def by blast
qed

theorem human_bytes_shown_witness:
  "human_bytes 1023 = ''1023 B'' \<and>
   (\<exists>h. human_bytes 1536 = show_nat (h div 100) @ ''.'' @ pad_zero 2 (show_nat (h mod 100)) @ '' KB'' \<and> h = 150)"
proof (rule conjI)
  have digits: "show_nat 1023 = ''1023''" by code_simp
  show "human_bytes 1023 = ''1023 B''"
    using human_bytes_shown [of 1023 10 "''KB''"] digits by simp
  have "(10 :: nat, ''KB'') \<in> set [(10, ''KB''), (20, ''MB''), (30, ''GB'')] \<and> 2 ^ 10 \<le> unat (1536 :: u64) \<and>
      ((10 :: nat) < 30 \<longrightarrow> unat (1536 :: u64) < 2 ^ (10 + 10))" by simp
  with human_bytes_shown [of 1536 10 "''KB''"] obtain h where
    h: "human_bytes 1536 = show_nat (h div 100) @ ''.'' @ pad_zero 2 (show_nat (h mod 100)) @ '' '' @ ''KB''"
    "\<bar>rat_of_nat h - 100 * of_nat (unat (1536 :: u64)) / 2 ^ 10\<bar> \<le> 1 / 2 + 1 / 2 ^ 12" by blast
  from h(2) have "rat_of_nat h - 150 \<le> 1 / 2 + 1 / 2 ^ 12" "150 - rat_of_nat h \<le> 1 / 2 + 1 / 2 ^ 12"
    by (simp_all only: abs_le_iff minus_diff_eq) simp_all
  then have "rat_of_nat h < of_nat 151" "rat_of_nat 149 < of_nat h" by simp_all
  then have "h = 150" by (simp only: of_nat_less_iff)
  with h(1) show "\<exists>h. human_bytes 1536 = show_nat (h div 100) @ ''.'' @ pad_zero 2 (show_nat (h mod 100)) @ '' KB'' \<and> h = 150"
    by auto
qed

end
