(* ===== verification/Widgets.thy ===== *)
theory Widgets
  imports Metrics Figures "HOL-Library.Product_Lexorder"
begin

text \<open>
  \<open>src/tui/widgets.rs\<close>: the dashboard's helpers. Sort orders, the window of a scrolled list,
  the log ring, the throughput history, durations as text, the error summary, and what the
  log, connection and statistics panels show. The figures computed with floating-point numbers
  are in \<open>Figures\<close>, what is drawn is in \<open>Render\<close>.
\<close>

section \<open>Sorting the connections\<close>

datatype sort_key_choice = SortId | SortUp | SortDown | SortAge

fun sort_next :: "sort_key_choice \<Rightarrow> sort_key_choice" where
  "sort_next SortId = SortUp"
| "sort_next SortUp = SortDown"
| "sort_next SortDown = SortAge"
| "sort_next SortAge = SortId"

text \<open>The down arrow and the up arrow in UTF-8.\<close>

definition down_arrow :: string where
  "down_arrow = [CHR 0xE2, CHR 0x86, CHR 0x93]"

definition up_arrow :: string where
  "up_arrow = [CHR 0xE2, CHR 0x86, CHR 0x91]"

fun sort_label :: "sort_key_choice \<Rightarrow> string" where
  "sort_label SortId = ''ID''"
| "sort_label SortUp = ''UP'' @ down_arrow"
| "sort_label SortDown = ''DOWN'' @ down_arrow"
| "sort_label SortAge = ''AGE'' @ down_arrow"

datatype focus = FocusConnections | FocusLog

fun focus_next :: "focus \<Rightarrow> focus" where
  "focus_next FocusConnections = FocusLog"
| "focus_next FocusLog = FocusConnections"

datatype ordering = OrdLess | OrdEqual | OrdGreater

definition cmp :: "'a::linorder \<Rightarrow> 'a \<Rightarrow> ordering" where
  "cmp a b = (if a < b then OrdLess else if a = b then OrdEqual else OrdGreater)"

fun cmp_option :: "'a::linorder option \<Rightarrow> 'a option \<Rightarrow> ordering" where
  "cmp_option None None = OrdEqual"
| "cmp_option None (Some b) = OrdLess"
| "cmp_option (Some a) None = OrdGreater"
| "cmp_option (Some a) (Some b) = cmp a b"

fun ord_then :: "ordering \<Rightarrow> ordering \<Rightarrow> ordering" where
  "ord_then OrdEqual o2 = o2"
| "ord_then o1 o2 = o1"

text \<open>\<open>slice::sort_by\<close>, a stable sort.\<close>

fun insert_by :: "('a \<Rightarrow> 'a \<Rightarrow> ordering) \<Rightarrow> 'a \<Rightarrow> 'a list \<Rightarrow> 'a list" where
  "insert_by f x [] = [x]"
| "insert_by f x (y # ys) = (if f x y = OrdGreater then y # insert_by f x ys else x # y # ys)"

definition sort_by :: "('a \<Rightarrow> 'a \<Rightarrow> ordering) \<Rightarrow> 'a list \<Rightarrow> 'a list" where
  "sort_by f xs = foldr (insert_by f) xs []"

fun conn_order ::
  "sort_key_choice \<Rightarrow> (u64, instant) fmap \<Rightarrow> conn_info \<Rightarrow> conn_info \<Rightarrow> ordering" where
  "conn_order SortId first_seen a b = cmp (ci_id a) (ci_id b)"
| "conn_order SortUp first_seen a b = ord_then (cmp (ci_up b) (ci_up a)) (cmp (ci_id a) (ci_id b))"
| "conn_order SortDown first_seen a b = ord_then (cmp (ci_down b) (ci_down a)) (cmp (ci_id a) (ci_id b))"
| "conn_order SortAge first_seen a b =
     ord_then (cmp_option (fmlookup first_seen (ci_id a)) (fmlookup first_seen (ci_id b)))
       (cmp (ci_id a) (ci_id b))"

definition sort_connections ::
  "sort_key_choice \<Rightarrow> (u64, instant) fmap \<Rightarrow> conn_info list \<Rightarrow> conn_info list" where
  "sort_connections key first_seen conns = sort_by (conn_order key first_seen) conns"

section \<open>Scrolling\<close>

definition scroll_window :: "usize \<Rightarrow> usize \<Rightarrow> usize \<Rightarrow> usize \<times> usize \<times> usize \<times> usize" where
  "scroll_window tot avail offset =
     (let avail = max avail 1;
          max_off = tot - avail;
          start = min offset max_off;
          shown = min avail (tot - start)
      in (start, shown, start, tot - start - shown))"

definition scroll_hint :: "usize \<Rightarrow> usize \<Rightarrow> string" where
  "scroll_hint hidden_above hidden_below =
     (if hidden_above = 0 \<and> hidden_below = 0 then ''''
      else ''  '' @ up_arrow @ show_nat hidden_above @ '' '' @ down_arrow @ show_nat hidden_below)"

section \<open>The log\<close>

datatype severity = SevInfo | SevDim | SevWarn | SevError

fun severity_of :: "event \<Rightarrow> severity" where
  "severity_of (EvConnect i src target kind) = SevInfo"
| "severity_of (EvLog s) = SevInfo"
| "severity_of (EvClosed i) = SevDim"
| "severity_of (EvAuth ok usr) = (if ok then SevInfo else SevWarn)"
| "severity_of (EvError code msg) = SevError"

record log_line =
  ll_severity :: severity
  ll_text :: string
  ll_conn_id :: "u64 option"

record log_ring =
  lr_buf :: "log_line list"
  lr_cap :: usize

definition log_new :: "usize \<Rightarrow> log_ring" where
  "log_new cap = \<lparr>lr_buf = [], lr_cap = max cap 1\<rparr>"

definition log_push :: "severity \<Rightarrow> string \<Rightarrow> u64 option \<Rightarrow> log_ring \<Rightarrow> log_ring" where
  "log_push sev text conn_id r =
     r\<lparr>lr_buf := (if length (lr_buf r) = lr_cap r then tl (lr_buf r) else lr_buf r)
        @ [\<lparr>ll_severity = sev, ll_text = text, ll_conn_id = conn_id\<rparr>]\<rparr>"

definition close_line :: "log_line \<Rightarrow> log_line" where
  "close_line l = l\<lparr>ll_severity := SevDim, ll_text := ll_text l @ ''  closed''\<rparr>"

text \<open>The loop of \<open>mark_closed\<close>, over the lines from the newest.\<close>

fun mark_first :: "u64 \<Rightarrow> log_line list \<Rightarrow> log_line list" where
  "mark_first i [] = []"
| "mark_first i (l # ls) =
     (if ll_conn_id l = Some i \<and> ll_severity l \<noteq> SevDim then close_line l # ls
      else l # mark_first i ls)"

definition mark_closed :: "u64 \<Rightarrow> log_ring \<Rightarrow> log_ring" where
  "mark_closed i r = r\<lparr>lr_buf := rev (mark_first i (rev (lr_buf r)))\<rparr>"

definition log_len :: "log_ring \<Rightarrow> usize" where
  "log_len r = length (lr_buf r)"

definition log_is_empty :: "log_ring \<Rightarrow> bool" where
  "log_is_empty r \<longleftrightarrow> lr_buf r = []"

definition log_lines :: "log_ring \<Rightarrow> log_line list" where
  "log_lines r = lr_buf r"

section \<open>Throughput history\<close>

record rate_history =
  rh_buf :: "u64 list"
  rh_cap :: usize

definition rates_new :: "usize \<Rightarrow> rate_history" where
  "rates_new cap = \<lparr>rh_buf = [], rh_cap = max cap 1\<rparr>"

definition rates_push :: "u64 \<Rightarrow> rate_history \<Rightarrow> rate_history" where
  "rates_push v r =
     r\<lparr>rh_buf := (if length (rh_buf r) = rh_cap r then tl (rh_buf r) else rh_buf r) @ [v]\<rparr>"

definition rates_samples :: "rate_history \<Rightarrow> u64 list" where
  "rates_samples r = rh_buf r"

definition rates_peak :: "rate_history \<Rightarrow> u64" where
  "rates_peak r = fold max (rh_buf r) 0"

definition rates_capacity :: "rate_history \<Rightarrow> usize" where
  "rates_capacity r = rh_cap r"

section \<open>Durations and the error summary\<close>

definition as_secs :: "duration \<Rightarrow> nat" where
  "as_secs d = d div 1000000000"

definition fmt_hms :: "duration \<Rightarrow> string" where
  "fmt_hms d =
     (let s = as_secs d
      in show_nat (s div 3600) @ '':'' @ pad2 (show_nat (s mod 3600 div 60)) @ '':'' @ pad2 (show_nat (s mod 60)))"

definition fmt_age :: "duration \<Rightarrow> string" where
  "fmt_age d =
     (let s = as_secs d
      in if s < 60 then show_nat s @ ''s''
         else if s < 3600 then show_nat (s div 60) @ ''m''
         else show_nat (s div 3600) @ ''h'' @ show_nat (s mod 3600 div 60) @ ''m'')"

text \<open>\<open>Iterator::max_by_key\<close>, which keeps the last of equal maxima.\<close>

fun max_by_snd :: "('a \<times> 'b::linorder) list \<Rightarrow> ('a \<times> 'b) option" where
  "max_by_snd [] = None"
| "max_by_snd (x # xs) =
     (case max_by_snd xs of
        None \<Rightarrow> Some x
      | Some y \<Rightarrow> Some (if snd x \<le> snd y then y else x))"

definition top_error :: "u64 list \<Rightarrow> (nat \<times> u64) option" where
  "top_error codes = max_by_snd (filter (\<lambda>(i, c). 0 < c) (map (\<lambda>i. (i, codes ! i)) [1..<9]))"

definition CODE_NAMES :: "string list" where
  "CODE_NAMES =
     [''general'', ''ruleset'', ''netunreach'', ''hostunreach'', ''connrefused'', ''ttl'', ''badcmd'', ''badatyp'']"

definition code_text :: "u64 list \<Rightarrow> nat \<Rightarrow> string" where
  "code_text codes i =
     ''0x'' @ pad2 (show_hex i) @ '' '' @ CODE_NAMES ! (i - 1) @ ''='' @ show_nat (unat (codes ! i)) @ ''   ''"

definition top_line :: "snapshot \<Rightarrow> string" where
  "top_line sn =
     (case top_error (sn_error_codes sn) of
        Some (code, tally) \<Rightarrow>
          ''top error  0x'' @ pad2 (show_hex code) @ '' '' @ CODE_NAMES ! (code - 1) @ '' ='' @
          show_nat (unat tally) @ '' of '' @ show_nat (unat (sn_failures sn)) @ '' failures''
      | None \<Rightarrow> ''top error  none yet'')"

section \<open>Facts: sorting\<close>

text \<open>A comparison that follows a key sorts as the library's stable sort on that key.\<close>

definition follows :: "('a \<Rightarrow> 'a \<Rightarrow> ordering) \<Rightarrow> ('a \<Rightarrow> 'k::linorder) \<Rightarrow> bool" where
  "follows f key \<longleftrightarrow> (\<forall>a b. f a b = OrdGreater \<longleftrightarrow> key b < key a)"

lemma insert_by_key: "follows f key \<Longrightarrow> insert_by f x ys = insort_key key x ys"
  by (induction ys) (auto simp: follows_def not_less)

lemma sort_by_key: "follows f key \<Longrightarrow> sort_by f xs = sort_key key xs"
  by (induction xs) (simp_all add: sort_by_def insert_by_key)

definition descending :: "u64 \<Rightarrow> nat" where
  "descending w = 2 ^ 64 - unat w"

lemma descending_less: "descending a < descending b \<longleftrightarrow> b < a"
  using unsigned_less [of a, where 'a = nat] unsigned_less [of b, where 'a = nat]
  by (simp add: descending_def word_less_nat_alt) linarith

lemma descending_eq: "descending a = descending b \<longleftrightarrow> a = b"
  using descending_less [of a b] descending_less [of b a] by (metis less_irrefl neqE)

fun conn_key :: "sort_key_choice \<Rightarrow> (u64, instant) fmap \<Rightarrow> conn_info \<Rightarrow> nat \<times> nat" where
  "conn_key SortId first_seen c = (0, unat (ci_id c))"
| "conn_key SortUp first_seen c = (descending (ci_up c), unat (ci_id c))"
| "conn_key SortDown first_seen c = (descending (ci_down c), unat (ci_id c))"
| "conn_key SortAge first_seen c =
     ((case fmlookup first_seen (ci_id c) of None \<Rightarrow> 0 | Some t \<Rightarrow> Suc t), unat (ci_id c))"

lemma cmp_greater: "cmp a b = OrdGreater \<longleftrightarrow> b < a" "cmp a b = OrdEqual \<longleftrightarrow> a = b"
  by (auto simp: cmp_def)

lemma ord_then_greater:
  "ord_then o1 o2 = OrdGreater \<longleftrightarrow> o1 = OrdGreater \<or> o1 = OrdEqual \<and> o2 = OrdGreater"
  by (cases o1) simp_all

lemma cmp_option_greater:
  "cmp_option a b = OrdGreater \<longleftrightarrow> (case b of None \<Rightarrow> 0 | Some t \<Rightarrow> Suc t) < (case a of None \<Rightarrow> 0 | Some t \<Rightarrow> Suc t)"
  "cmp_option a b = OrdEqual \<longleftrightarrow> a = b"
  for a b :: "nat option"
  by (induction a b rule: cmp_option.induct) (auto simp: cmp_greater)

lemma unat_mono_iff: "unat a < unat b \<longleftrightarrow> a < b" for a b :: u64
  by (simp add: word_less_nat_alt)

lemma conn_order_follows: "follows (conn_order k fs) (conn_key k fs)"
  unfolding follows_def
proof (intro allI, goal_cases)
  case (1 a b)
  have seen: "(case x of None \<Rightarrow> 0 | Some t \<Rightarrow> Suc t) = (case y of None \<Rightarrow> 0 | Some t \<Rightarrow> Suc t) \<longleftrightarrow> x = y"
    for x y :: "nat option" by (cases x; cases y) simp_all
  show ?case
    by (cases k) (auto simp: less_prod_def' cmp_greater ord_then_greater cmp_option_greater seen descending_less descending_eq
        unat_mono_iff)
qed

lemma conn_key_id: "conn_key k fs a = conn_key k fs b \<Longrightarrow> ci_id a = ci_id b"
  by (cases k) (simp_all add: word_unat_eq_iff)

lemma sort_connections_key: "sort_connections k fs xs = sort_key (conn_key k fs) xs"
  unfolding sort_connections_def by (rule sort_by_key [OF conn_order_follows])

lemma conn_key_inj: "distinct (map ci_id xs) \<Longrightarrow> inj_on (conn_key k fs) (set xs)"
  by (auto simp: distinct_map inj_on_def dest: conn_key_id)

text \<open>Connections with distinct ids are never tied, so their table does not depend on the listing.\<close>

lemma sort_connections_unique:
  assumes "distinct (map ci_id xs)" and "mset ys = mset xs"
  shows "sort_connections k fs ys = sort_connections k fs xs"
  unfolding sort_connections_key
  using assms(2) conn_key_inj [OF assms(1)] mset_eq_setD [OF assms(2)]
  by (intro sort_key_inj_key_eq) simp_all

lemma conn_order_less: "conn_key k fs a < conn_key k fs b \<longleftrightarrow> conn_order k fs a b = OrdLess"
proof -
  have seen: "(case x of None \<Rightarrow> 0 | Some t \<Rightarrow> Suc t) = (case y of None \<Rightarrow> 0 | Some t \<Rightarrow> Suc t) \<longleftrightarrow> x = y"
    for x y :: "nat option" by (cases x; cases y) simp_all
  have less: "cmp x y = OrdLess \<longleftrightarrow> x < y" for x y :: "'z::linorder" by (simp add: cmp_def)
  have th: "ord_then o1 o2 = OrdLess \<longleftrightarrow> o1 = OrdLess \<or> o1 = OrdEqual \<and> o2 = OrdLess" for o1 o2
    by (cases o1) simp_all
  have opt: "cmp_option x y = OrdLess \<longleftrightarrow> (case x of None \<Rightarrow> 0 | Some t \<Rightarrow> Suc t) < (case y of None \<Rightarrow> 0 | Some t \<Rightarrow> Suc t)"
    for x y :: "nat option" by (cases x; cases y) (simp_all add: less)
  show ?thesis
    by (cases k) (auto simp: less_prod_def' less cmp_greater th opt cmp_option_greater seen descending_less
        descending_eq unat_mono_iff)
qed

section \<open>Facts: bounded logs\<close>

definition log_ok :: "log_ring \<Rightarrow> bool" where
  "log_ok r \<longleftrightarrow> 0 < lr_cap r \<and> length (lr_buf r) \<le> lr_cap r"

definition rates_ok :: "rate_history \<Rightarrow> bool" where
  "rates_ok r \<longleftrightarrow> 0 < rh_cap r \<and> length (rh_buf r) \<le> rh_cap r"

definition push_line :: "log_line \<Rightarrow> log_ring \<Rightarrow> log_ring" where
  "push_line l = log_push (ll_severity l) (ll_text l) (ll_conn_id l)"

interpretation log: bounded_log push_line lr_buf lr_cap log_ok
  by unfold_locales (auto simp: push_line_def log_push_def log_ok_def)

interpretation rates: bounded_log rates_push rates_samples rh_cap rates_ok
  by unfold_locales (auto simp: rates_push_def rates_samples_def rates_ok_def)

lemma log_push_line:
  "log_push sev text i = push_line \<lparr>ll_severity = sev, ll_text = text, ll_conn_id = i\<rparr>"
  by (simp add: push_line_def)

lemma log_new_ok: "log_ok (log_new n)" "lr_buf (log_new n) = []"
  by (simp_all add: log_ok_def log_new_def)

lemma rates_new_ok: "rates_ok (rates_new n)" "rates_samples (rates_new n) = []"
  by (simp_all add: rates_ok_def rates_new_def rates_samples_def)

text \<open>A line as it was, or as it is once its connection has closed.\<close>

definition aged :: "log_line \<Rightarrow> log_line \<Rightarrow> bool" where
  "aged l l' \<longleftrightarrow> l' = l \<or> ll_severity l \<noteq> SevDim \<and> ll_conn_id l \<noteq> None \<and> l' = close_line l"

lemma aged_refl [simp]: "aged l l"
  by (simp add: aged_def)

lemma aged_trans: "aged a b \<Longrightarrow> aged b c \<Longrightarrow> aged a c"
  by (auto simp: aged_def close_line_def)

lemma aged_list_refl: "list_all2 aged xs xs"
  by (simp add: list_all2_refl)

lemma aged_list_trans: "list_all2 aged xs ys \<Longrightarrow> list_all2 aged ys zs \<Longrightarrow> list_all2 aged xs zs"
  by (rule list_all2_trans [OF aged_trans])

lemma mark_first_aged: "list_all2 aged ls (mark_first i ls)"
  by (induction ls) (auto simp: aged_def list_all2_refl)

lemma mark_closed_aged: "list_all2 aged (lr_buf r) (lr_buf (mark_closed i r))"
  using mark_first_aged [of "rev (lr_buf r)" i]
  by (simp add: mark_closed_def) (metis list_all2_rev1)

lemma mark_closed_ok: "log_ok r \<Longrightarrow> log_ok (mark_closed i r)" "lr_cap (mark_closed i r) = lr_cap r"
  using list_all2_lengthD [OF mark_closed_aged, of r i] by (simp_all add: log_ok_def mark_closed_def)

text \<open>The newest open line of a connection is the one that closes.\<close>

lemma scroll_window_facts:
  assumes "scroll_window tot avail offset = (start, shown, hidden_above, hidden_below)"
  shows "start + shown + hidden_below = tot" "hidden_above = start" "shown = min (max avail 1) tot"
    "start = min offset (tot - max avail 1)"
proof -
  show st: "start = min offset (tot - max avail 1)"
    using arg_cong [OF assms, of fst] by (simp only: scroll_window_def Let_def fst_conv)
  have sh: "shown = min (max avail 1) (tot - start)"
    unfolding st using arg_cong [OF assms, of "\<lambda>x. fst (snd x)"] by (simp only: scroll_window_def Let_def fst_conv snd_conv)
  have "hidden_below = tot - start - shown"
    unfolding st sh using arg_cong [OF assms, of "\<lambda>x. snd (snd (snd x))"]
    by (simp only: scroll_window_def Let_def snd_conv)
  moreover have "start \<le> tot" using st by linarith
  moreover show "shown = min (max avail 1) tot" using st sh by linarith
  ultimately show "start + shown + hidden_below = tot" using sh by linarith
  show "hidden_above = start"
    unfolding st using arg_cong [OF assms, of "\<lambda>x. fst (snd (snd x))"] by (simp only: scroll_window_def Let_def fst_conv snd_conv)
qed

lemma max_by_snd_None: "max_by_snd xs = None \<longleftrightarrow> xs = []"
  by (cases xs) (auto split: option.splits)

lemma max_by_snd_Some:
  "max_by_snd xs = Some x \<Longrightarrow> \<exists>as bs. xs = as @ x # bs \<and> list_all (\<lambda>y. snd y \<le> snd x) as \<and> list_all (\<lambda>y. snd y < snd x) bs"
proof (induction xs arbitrary: x)
  case (Cons a xs)
  show ?case
  proof (cases "max_by_snd xs")
    case None
    then show ?thesis using Cons.prems max_by_snd_None [of xs] by (intro exI [of _ "[]"]) auto
  next
    case (Some y)
    from Cons.IH [OF Some] obtain as bs where s: "xs = as @ y # bs"
      "list_all (\<lambda>z. snd z \<le> snd y) as" "list_all (\<lambda>z. snd z < snd y) bs" by blast
    show ?thesis
    proof (cases "snd a \<le> snd y")
      case True
      then show ?thesis using Cons.prems Some s by (intro exI [of _ "a # as"] exI [of _ bs]) auto
    next
      case False
      then have "list_all (\<lambda>z. snd z < snd a) xs" using s by (auto simp: list_all_iff)
      moreover have "x = a" using Cons.prems Some False by simp
      ultimately show ?thesis by (intro exI [of _ "[]"] exI [of _ xs]) simp
    qed
  qed
qed simp

lemma top_error_list:
  "filter (\<lambda>(i, c). 0 < c) (map (\<lambda>i. (i, codes ! i)) [1..<9]) = map (\<lambda>i. (i, codes ! i)) (filter (\<lambda>i. 0 < codes ! i) [1..<9])"
  for codes :: "u64 list"
  by (simp add: filter_map comp_def)

section \<open>Properties\<close>

text \<open>The connection table is a permutation of the listing in strictly increasing order of
  the chosen key, ties broken by id, whatever the key (a connection not yet seen counts as
  the oldest); connections with distinct ids are never tied, so the table does not depend on
  the order in which the registry lists them.\<close>

theorem sort_connections_table:
  assumes "distinct (map ci_id xs)" and "mset ys = mset xs"
  shows "mset (sort_connections k fs xs) = mset xs \<and>
    sorted_wrt (\<lambda>a b. conn_order k fs a b = OrdLess) (sort_connections k fs xs) \<and>
    sort_connections k fs ys = sort_connections k fs xs"
proof -
  let ?s = "sort_key (conn_key k fs) xs"
  have inj: "inj_on (conn_key k fs) (set xs)" using conn_key_inj [OF assms(1)] .
  have "sorted (map (conn_key k fs) ?s)" by simp
  moreover have "distinct (map (conn_key k fs) ?s)" using assms(1) inj by (simp add: distinct_map)
  ultimately have "sorted_wrt (<) (map (conn_key k fs) ?s)" by (simp add: strict_sorted_iff)
  then have "sorted_wrt (\<lambda>a b. conn_order k fs a b = OrdLess) ?s"
    by (simp add: sorted_wrt_map conn_order_less)
  then show ?thesis using sort_connections_unique [OF assms] by (simp add: sort_connections_key)
qed

definition table_row :: "u64 \<Rightarrow> u64 \<Rightarrow> conn_info" where
  "table_row i up = \<lparr>ci_id = i, ci_src = SockV4 ipv4_unspecified 0, ci_target = [], ci_kind = KindUdp, ci_up = up, ci_down = 0\<rparr>"

theorem sort_connections_table_witness:
  "sort_connections SortUp fmempty [table_row 2 5, table_row 1 5, table_row 3 9]
     = sort_connections SortUp fmempty [table_row 3 9, table_row 1 5, table_row 2 5]"
proof -
  have "distinct (map ci_id [table_row 3 9, table_row 1 5, table_row 2 5])" by (simp add: table_row_def)
  moreover have "mset [table_row 2 5, table_row 1 5, table_row 3 9] = mset [table_row 3 9, table_row 1 5, table_row 2 5]"
    by simp
  ultimately show ?thesis using sort_connections_table by blast
qed

text \<open>The error called out in the statistics panel is a reply code from 1 to 8 with the
  highest count, the largest such code on a tie, and there is none exactly when all eight
  counts are zero.\<close>

theorem top_error_exact:
  "(top_error codes = None \<longleftrightarrow> list_all (\<lambda>i. codes ! i = 0) [1..<9]) \<and>
   (top_error codes = Some (i, c) \<longrightarrow>
      i \<in> set [1..<9] \<and> c = codes ! i \<and> 0 < c \<and> list_all (\<lambda>j. codes ! j \<le> c) [1..<9] \<and>
      list_all (\<lambda>j. codes ! j < c) [Suc i..<9])"
proof (intro conjI impI)
  let ?L = "filter (\<lambda>i. 0 < codes ! i) [1..<9]"
  have def: "top_error codes = max_by_snd (map (\<lambda>i. (i, codes ! i)) ?L)"
    unfolding top_error_def top_error_list ..
  show "top_error codes = None \<longleftrightarrow> list_all (\<lambda>i. codes ! i = 0) [1..<9]"
    unfolding def max_by_snd_None by (simp add: filter_empty_conv list_all_iff word_gt_0)
  assume "top_error codes = Some (i, c)"
  then obtain as bs where split: "map (\<lambda>i. (i, codes ! i)) ?L = as @ (i, c) # bs"
    "list_all (\<lambda>y. snd y \<le> c) as" "list_all (\<lambda>y. snd y < c) bs"
    using max_by_snd_Some [of "map (\<lambda>i. (i, codes ! i)) ?L"] unfolding def by fastforce
  then obtain A B where L: "?L = A @ i # B" "as = map (\<lambda>i. (i, codes ! i)) A" "bs = map (\<lambda>i. (i, codes ! i)) B"
    "c = codes ! i" by (auto simp: map_eq_append_conv map_eq_Cons_conv)
  have mem: "j \<in> set ?L \<longleftrightarrow> j \<in> set [1..<9] \<and> 0 < codes ! j" for j by auto
  have "i \<in> set ?L" unfolding L by simp
  with mem [of i] show i: "i \<in> set [1..<9]" and c: "c = codes ! i" "0 < c" using L(4) by blast+
  have le: "codes ! j \<le> c" if "j \<in> set ?L" for j
    using that split(2,3) unfolding L by (auto simp: list_all_iff)
  show "list_all (\<lambda>j. codes ! j \<le> c) [1..<9]"
    using le mem by (auto simp: list_all_iff word_gt_0) (metis word_gt_0 word_not_simps(1) linorder_not_less less_imp_le)
  have "sorted_wrt (<) ?L" by (intro sorted_wrt_filter) simp
  then have "sorted_wrt (<) (A @ i # B)" unfolding L .
  then have A: "j < i" if "j \<in> set A" for j using that by (simp add: sorted_wrt_append)
  have lt: "codes ! j < c" if "j \<in> set ?L" "i < j" for j
    using that A [of j] split(3) unfolding L by (auto simp: list_all_iff)
  show "list_all (\<lambda>j. codes ! j < c) [Suc i..<9]"
    unfolding list_all_iff
  proof
    fix j assume j: "j \<in> set [Suc i..<9]"
    show "codes ! j < c"
    proof (cases "codes ! j = 0")
      case True
      then show ?thesis using c(2) by simp
    next
      case False
      then show ?thesis using lt [of j] j i by (auto simp: word_gt_0)
    qed
  qed
qed

theorem top_error_exact_witness:
  "top_error [0, 2, 0, 2, 0, 1, 0, 0, 0] = Some (3, 2) \<and>
   list_all (\<lambda>j. [0, 2, 0, 2, 0, 1, 0, 0, 0] ! j \<le> (2 :: u64)) [1..<9]"
proof -
  have "top_error [0, 2, 0, 2, 0, 1, 0, 0, 0] = Some (3, 2)"
    by (simp add: top_error_def upt_rec word_le_nat_alt)
  then show ?thesis using top_error_exact [of "[0, 2, 0, 2, 0, 1, 0, 0, 0]" 3 2] by blast
qed

end
