(* ===== verification/Admin_Proto.thy ===== *)
theory Admin_Proto
  imports Tcp
begin

text \<open>
  \<open>src/admin/mod.rs\<close>, the framing of the attach connection, \<open>src/admin/client.rs\<close>, its reading
  end, and \<open>handle_client\<close> of \<open>src/admin/server.rs\<close>, its writing end. A frame's body is the
  output of the postcard serializer, which is a parameter: \<open>to_allocvec\<close> may fail, and so may
  \<open>from_bytes\<close>. Both ends of the Unix stream are connections in the sense of \<open>Tcp\<close>.
\<close>

section \<open>Frames\<close>

definition PROTO_VERSION :: u16 where
  "PROTO_VERSION = 1"

definition MAX_FRAME_LEN :: u32 where
  "MAX_FRAME_LEN = push_bit 20 1"

datatype frame =
    Hello u16 "string option"
  | Stats snapshot "conn_info list"
  | FrameEvent event

datatype 'p frame_error =
    FrameIo io_error_kind
  | TooLarge u32
  | FrameCodec 'p

type_synonym 'p encoder = "frame \<Rightarrow> (bytes, 'p) result"
type_synonym 'p decoder = "bytes \<Rightarrow> (frame, 'p) result"

text \<open>\<open>None\<close> in these results: the future is still pending.\<close>

definition write_frame ::
  "'p encoder \<Rightarrow> frame \<Rightarrow> conn \<Rightarrow> conn \<times> (unit, 'p frame_error) result option" where
  "write_frame to_allocvec f c =
     (case to_allocvec f of
        Inl e \<Rightarrow> (c, Some (Inl (FrameCodec e)))
      | Inr body \<Rightarrow>
          (let len = of_nat (length body) :: u32
           in if MAX_FRAME_LEN < len then (c, Some (Inl (TooLarge len)))
              else case write_all (u32_to_be len) c of
                (c, WrFailed e) \<Rightarrow> (c, Some (Inl (FrameIo e)))
              | (c, WrPending) \<Rightarrow> (c, None)
              | (c, WrDone) \<Rightarrow>
                  (case write_all body c of
                     (c, WrFailed e) \<Rightarrow> (c, Some (Inl (FrameIo e)))
                   | (c, WrPending) \<Rightarrow> (c, None)
                   | (c, WrDone) \<Rightarrow> (c, Some (Inr ())))))"

text \<open>\<open>read_exact\<close> for a buffer with \<open>n\<close> bytes to go.\<close>

function read_exact :: "nat \<Rightarrow> rx_item list \<Rightarrow> (bytes, io_error_kind) result option \<times> rx_item list" where
  "read_exact n items =
     (if n = 0 then (Some (Inr []), items)
      else case tcp_read n items of
        (RdPending, items) \<Rightarrow> (None, items)
      | (RdErr e, items) \<Rightarrow> (Some (Inl e), items)
      | (RdOk ch, items) \<Rightarrow>
          if ch = [] then (Some (Inl IoUnexpectedEof), items)
          else case read_exact (n - length ch) items of
            (Some (Inr bs), items) \<Rightarrow> (Some (Inr (ch @ bs)), items)
          | other \<Rightarrow> other)"
  by auto
termination by (relation "measure fst") auto

declare read_exact.simps [simp del]

definition read_frame ::
  "'p decoder \<Rightarrow> rx_item list \<Rightarrow> (frame, 'p frame_error) result option \<times> rx_item list" where
  "read_frame from_bytes items =
     (case read_exact 4 items of
        (None, items) \<Rightarrow> (None, items)
      | (Some (Inl e), items) \<Rightarrow> (Some (Inl (FrameIo e)), items)
      | (Some (Inr len_buf), items) \<Rightarrow>
          (let len = u32_from_be len_buf
           in if MAX_FRAME_LEN < len then (Some (Inl (TooLarge len)), items)
              else case read_exact (unat len) items of
                (None, items) \<Rightarrow> (None, items)
              | (Some (Inl e), items) \<Rightarrow> (Some (Inl (FrameIo e)), items)
              | (Some (Inr body), items) \<Rightarrow>
                  (case from_bytes body of
                     Inl e \<Rightarrow> (Some (Inl (FrameCodec e)), items)
                   | Inr f \<Rightarrow> (Some (Inr f), items))))"

section \<open>Reads and the stream\<close>

text \<open>What \<open>read_exact\<close> returns depends on the stream of bytes, not on its arrivals; a read it
  completes takes exactly its bytes.\<close>

definition reads :: "nat \<Rightarrow> rx_item list \<Rightarrow> (bytes, io_error_kind) result option \<times> rx_item list \<Rightarrow> bool" where
  "reads n items out \<longleftrightarrow>
     (if n \<le> length (stream_data items)
      then \<exists>rest. out = (Some (Inr (take n (stream_data items))), rest) \<and>
             stream_data rest = drop n (stream_data items) \<and> stream_end rest = stream_end items \<and>
             rx_bytes rest + n = rx_bytes items
      else case stream_end items of
             EndEof \<Rightarrow> fst out = Some (Inl IoUnexpectedEof)
           | EndErr \<Rightarrow> \<exists>e. fst out = Some (Inl e)
           | EndPending \<Rightarrow> fst out = None)"

lemma tcp_read_bytes: "tcp_read n items = (RdOk ch, items') \<Longrightarrow> rx_bytes items' + length ch = rx_bytes items"
  by (induction n items rule: tcp_read.induct) auto

text \<open>A read that brought something leaves the rest to the next one.\<close>

lemma reads_more:
  assumes r: "tcp_read n items = (RdOk ch, i1)" and n: "n \<noteq> 0" and ch: "ch \<noteq> []"
    and ih: "reads (n - length ch) i1 (read_exact (n - length ch) i1)"
  shows "reads n items (read_exact n items)"
proof -
  have d: "stream_data items = ch @ stream_data i1" "stream_end items = stream_end i1" "length ch \<le> n"
    "rx_bytes i1 + length ch = rx_bytes items"
    using tcp_read_data [of n items ch i1] tcp_read_bytes [of n items ch i1] r ch by auto
  have le: "n - length ch \<le> length (stream_data i1) \<longleftrightarrow> n \<le> length (stream_data items)"
    using d(1,3) by auto
  obtain o2 i2 where r2: "read_exact (n - length ch) i1 = (o2, i2)" by fastforce
  show ?thesis
  proof (cases "n \<le> length (stream_data items)")
    case True
    then show ?thesis using ih n r ch d le r2 by (subst read_exact.simps) (auto simp: reads_def)
  next
    case False
    then show ?thesis using ih n r ch d le r2
      by (subst read_exact.simps) (auto simp: reads_def split: ending.splits)
  qed
qed

lemma read_exact_reads: "reads n items (read_exact n items)"
proof (induction n items rule: read_exact.induct)
  case (1 n items)
  show ?case
  proof (cases "n = 0")
    case True
    then show ?thesis by (subst read_exact.simps) (simp add: reads_def)
  next
    case n: False
    obtain o1 i1 where r: "tcp_read n items = (o1, i1)" by fastforce
    show ?thesis
    proof (cases o1)
      case (RdOk ch)
      show ?thesis
      proof (cases "ch = []")
        case True
        then show ?thesis using n r RdOk tcp_read_eof [of n items i1]
          by (subst read_exact.simps) (simp add: reads_def)
      next
        case ch: False
        from reads_more [OF r [unfolded RdOk] n ch 1(1) [OF n r [symmetric] RdOk ch]] show ?thesis .
      qed
    next
      case (RdErr e)
      then show ?thesis using n r tcp_read_err [of n items e i1]
        by (subst read_exact.simps) (simp add: reads_def)
    next
      case RdPending
      then show ?thesis using n r tcp_read_pending [of n items i1]
        by (subst read_exact.simps) (simp add: reads_def)
    qed
  qed
qed

lemma read_exact_ok:
  assumes "stream_data items = bs @ rest" and "n = length bs"
  obtains items' where "read_exact n items = (Some (Inr bs), items')" "stream_data items' = rest"
    "stream_end items' = stream_end items" "rx_bytes items' + n = rx_bytes items"
  using read_exact_reads [of n items] assms by (auto simp: reads_def)

lemma read_exact_bytes: "read_exact n items = (Some (Inr bs), items') \<Longrightarrow> rx_bytes items' + n = rx_bytes items"
  using read_exact_reads [of n items] by (auto simp: reads_def split: if_splits ending.splits)

lemma read_frame_consumes: "read_frame dec items = (Some (Inr f), items') \<Longrightarrow> rx_bytes items' < rx_bytes items"
  by (auto simp: read_frame_def Let_def split: prod.splits option.splits sum.splits if_splits
      dest!: read_exact_bytes)

section \<open>The attached client\<close>

record remote =
  rs_snapshot :: snapshot
  rs_connections :: "conn_info list"
  rs_events :: "event list" \<comment> \<open>sent on \<open>events_tx\<close>\<close>
  rs_shutdown :: bool
  rs_lost :: bool

definition snapshot_default :: snapshot where
  "snapshot_default =
     \<lparr>sn_bytes_up = 0, sn_bytes_down = 0, sn_total_conns = 0, sn_active_conns = 0,
      sn_successes = 0, sn_failures = 0, sn_error_codes = replicate 9 0\<rparr>"

definition remote_new :: remote where
  "remote_new =
     \<lparr>rs_snapshot = snapshot_default, rs_connections = [], rs_events = [],
      rs_shutdown = False, rs_lost = False\<rparr>"

fun on_frame :: "frame \<Rightarrow> remote \<Rightarrow> remote" where
  "on_frame (Stats sn cs) r = r\<lparr>rs_snapshot := sn, rs_connections := cs\<rparr>"
| "on_frame (FrameEvent ev) r = r\<lparr>rs_events := rs_events r @ [ev]\<rparr>"
| "on_frame (Hello p la) r = r"

text \<open>The flag tells whether the loop has ended.\<close>

function decode_loop :: "'p decoder \<Rightarrow> rx_item list \<Rightarrow> remote \<Rightarrow> remote \<times> bool" where
  "decode_loop from_bytes items r =
     (case read_frame from_bytes items of
        (None, items') \<Rightarrow> (r, False)
      | (Some (Inl e), items') \<Rightarrow> (r\<lparr>rs_lost := True, rs_shutdown := True\<rparr>, True)
      | (Some (Inr f), items') \<Rightarrow> decode_loop from_bytes items' (on_frame f r))"
  by auto
termination
  by (relation "measure (\<lambda>(d, items, r). rx_bytes items)") (auto dest: read_frame_consumes [OF sym])

declare decode_loop.simps [simp del]

datatype 'p attach_result =
    AttachNoServer io_error_kind \<comment> \<open>exit 1\<close>
  | AttachVersion u16 \<comment> \<open>exit 1\<close>
  | AttachNotHello frame \<comment> \<open>exit 1\<close>
  | AttachBroken "'p frame_error" \<comment> \<open>exit 1\<close>
  | AttachPending
  | AttachUi "string option" "remote \<times> bool" \<comment> \<open>\<open>tui::run\<close> with what the decode task makes of the stream\<close>

definition attach ::
  "'p decoder \<Rightarrow> (rx_item list, io_error_kind) result \<Rightarrow> 'p attach_result" where
  "attach from_bytes stream =
     (case stream of
        Inl e \<Rightarrow> AttachNoServer e
      | Inr items \<Rightarrow>
          (case read_frame from_bytes items of
             (None, items) \<Rightarrow> AttachPending
           | (Some (Inl e), items) \<Rightarrow> AttachBroken e
           | (Some (Inr (Hello proto listen_addr)), items) \<Rightarrow>
               if proto \<noteq> PROTO_VERSION then AttachVersion proto
               else AttachUi listen_addr (decode_loop from_bytes items remote_new)
           | (Some (Inr other), items) \<Rightarrow> AttachNotHello other))"

section \<open>The serving end\<close>

definition PUSH_INTERVAL :: duration where
  "PUSH_INTERVAL = from_millis 250"

datatype 'a recv_result = RecvOk 'a | RecvLagged u64 | RecvClosed

text \<open>The branches of \<open>handle_client\<close>'s \<open>select!\<close>; a tick carries what the metrics source
  answers at that time.\<close>

datatype push_event =
    Tick snapshot "conn_info list"
  | BusEvent "event recv_result"
  | PushShutdown "bool option"

datatype 'p client_status =
    ClientServing
  | ClientDone
  | ClientFailed "'p frame_error"
  | ClientStalled

text \<open>Writes that follow one another, each ending the function when it fails.\<close>

fun write_frames :: "'p encoder \<Rightarrow> frame list \<Rightarrow> conn \<Rightarrow> conn \<times> 'p client_status" where
  "write_frames enc [] c = (c, ClientServing)"
| "write_frames enc (f # fs) c =
     (case write_frame enc f c of
        (c, None) \<Rightarrow> (c, ClientStalled)
      | (c, Some (Inl e)) \<Rightarrow> (c, ClientFailed e)
      | (c, Some (Inr _)) \<Rightarrow> write_frames enc fs c)"

fun push_loop :: "'p encoder \<Rightarrow> push_event list \<Rightarrow> conn \<Rightarrow> conn \<times> 'p client_status" where
  "push_loop enc [] c = (c, ClientServing)"
| "push_loop enc (Tick sn cs # es) c =
     (case write_frames enc [Stats sn cs] c of
        (c, ClientServing) \<Rightarrow> push_loop enc es c
      | other \<Rightarrow> other)"
| "push_loop enc (BusEvent (RecvOk ev) # es) c =
     (case write_frames enc [FrameEvent ev] c of
        (c, ClientServing) \<Rightarrow> push_loop enc es c
      | other \<Rightarrow> other)"
| "push_loop enc (BusEvent (RecvLagged n) # es) c = push_loop enc es c"
| "push_loop enc (BusEvent RecvClosed # es) c = (c, ClientDone)"
| "push_loop enc (PushShutdown v # es) c =
     (if v = Some False then push_loop enc es c else (c, ClientDone))"

definition handle_client ::
  "'p encoder \<Rightarrow> event list \<Rightarrow> string option \<Rightarrow> push_event list \<Rightarrow> conn \<Rightarrow> conn \<times> 'p client_status" where
  "handle_client enc replay listen_addr es c =
     (case write_frames enc [Hello PROTO_VERSION listen_addr] c of
        (c, ClientServing) \<Rightarrow>
          (case write_frames enc (map FrameEvent replay) c of
             (c, ClientServing) \<Rightarrow> push_loop enc es c
           | other \<Rightarrow> other)
      | other \<Rightarrow> other)"

section \<open>Frames on the wire\<close>

text \<open>What the framing needs of the serializer: a body decodes to the frame it was made from,
  and its length fits the 32-bit prefix.\<close>

definition codec_ok :: "'p encoder \<Rightarrow> 'p decoder \<Rightarrow> bool" where
  "codec_ok enc dec \<longleftrightarrow> (\<forall>f body. enc f = Inr body \<longrightarrow> dec body = Inr f \<and> length body < 2 ^ 32)"

definition body_of :: "'p encoder \<Rightarrow> frame \<Rightarrow> bytes" where
  "body_of enc f = (case enc f of Inr body \<Rightarrow> body | Inl e \<Rightarrow> [])"

definition sendable :: "'p encoder \<Rightarrow> frame \<Rightarrow> bool" where
  "sendable enc f \<longleftrightarrow> (\<exists>body. enc f = Inr body \<and> of_nat (length body) \<le> MAX_FRAME_LEN)"

definition frame_wire :: "'p encoder \<Rightarrow> frame \<Rightarrow> bytes" where
  "frame_wire enc f = u32_to_be (of_nat (length (body_of enc f))) @ body_of enc f"

definition wire_of :: "'p encoder \<Rightarrow> frame list \<Rightarrow> bytes" where
  "wire_of enc fs = concat (map (frame_wire enc) fs)"

lemma wire_of_simps [simp]:
  "wire_of enc [] = []" "wire_of enc (f # fs) = frame_wire enc f @ wire_of enc fs"
  "wire_of enc (fs @ gs) = wire_of enc fs @ wire_of enc gs"
  by (simp_all add: wire_of_def)

lemma write_frame_done:
  "write_frame enc f c = (c', Some (Inr u)) \<Longrightarrow> sendable enc f \<and> tx c' = tx c @ frame_wire enc f"
  by (auto simp: write_frame_def sendable_def frame_wire_def body_of_def Let_def not_less
      dest!: write_all_done split: sum.splits if_splits prod.splits write_outcome.splits)

lemma write_frames_done:
  "write_frames enc fs c = (c', ClientServing) \<Longrightarrow>
     list_all (sendable enc) fs \<and> tx c' = tx c @ wire_of enc fs"
proof (induction fs arbitrary: c)
  case (Cons f fs)
  from Cons.prems obtain c1 u where w: "write_frame enc f c = (c1, Some (Inr u))"
    and r: "write_frames enc fs c1 = (c', ClientServing)"
    by (auto split: prod.splits option.splits sum.splits)
  show ?case using write_frame_done [OF w] Cons.IH [OF r] by simp
qed simp

lemma write_frames_not_done: "snd (write_frames enc fs c) \<noteq> ClientDone"
  by (induction fs arbitrary: c) (auto split: prod.splits option.splits sum.splits)

lemma read_frame_sent:
  assumes ok: "codec_ok enc dec" and f: "sendable enc f" and data: "stream_data items = frame_wire enc f @ rest"
  obtains items' where "read_frame dec items = (Some (Inr f), items')" "stream_data items' = rest"
    "stream_end items' = stream_end items"
proof -
  from f obtain body where body: "enc f = Inr body" "of_nat (length body) \<le> MAX_FRAME_LEN"
    by (auto simp: sendable_def)
  have dec: "dec body = Inr f" and len: "length body < 2 ^ 32" using ok body(1) by (auto simp: codec_ok_def)
  let ?p = "u32_to_be (of_nat (length body))"
  have data': "stream_data items = ?p @ (body @ rest)"
    using data body(1) by (simp add: frame_wire_def body_of_def)
  obtain i1 where r1: "read_exact 4 items = (Some (Inr ?p), i1)" and d1: "stream_data i1 = body @ rest"
    "stream_end i1 = stream_end items"
    using read_exact_ok [OF data', of 4] by auto
  have un: "unat (of_nat (length body) :: u32) = length body" using len by (simp add: unat_of_nat)
  obtain i2 where r2: "read_exact (length body) i1 = (Some (Inr body), i2)" "stream_data i2 = rest"
    "stream_end i2 = stream_end i1"
    using read_exact_ok [OF d1(1) refl] by auto
  have "read_frame dec items = (Some (Inr f), i2)"
    using r1 r2(1) body(2) dec un by (simp add: read_frame_def Let_def)
  with r2 d1 that show ?thesis by auto
qed

lemma decode_loop_frames:
  assumes "codec_ok enc dec" and "list_all (sendable enc) fs" and "stream_data items = wire_of enc fs @ rest"
  obtains items' where "decode_loop dec items r = decode_loop dec items' (fold on_frame fs r)"
    "stream_data items' = rest" "stream_end items' = stream_end items"
  using assms(2,3)
proof (induction fs arbitrary: items r thesis)
  case Nil
  then show ?case by simp
next
  case (Cons f fs)
  obtain i1 where r1: "read_frame dec items = (Some (Inr f), i1)" "stream_data i1 = wire_of enc fs @ rest"
    "stream_end i1 = stream_end items"
    using read_frame_sent [OF assms(1), of f items "wire_of enc fs @ rest"] Cons.prems by auto
  obtain i2 where "decode_loop dec i1 (on_frame f r) = decode_loop dec i2 (fold on_frame fs (on_frame f r))"
    "stream_data i2 = rest" "stream_end i2 = stream_end i1"
    using Cons.IH [of i1 "on_frame f r"] Cons.prems(2) r1(2) by auto
  then show ?case using Cons.prems(1) r1 by (subst (asm) (2) decode_loop.simps) (auto simp: decode_loop.simps [of dec items])
qed

lemma decode_loop_end:
  assumes "stream_data items = []" and "stream_end items \<noteq> EndPending"
  shows "decode_loop dec items r = (r\<lparr>rs_lost := True, rs_shutdown := True\<rparr>, True)"
proof -
  obtain e items' where "read_exact 4 items = (Some (Inl e), items')"
    using read_exact_reads [of 4 items] assms
    by (cases "read_exact 4 items") (auto simp: reads_def split: ending.splits)
  then show ?thesis by (subst decode_loop.simps) (simp add: read_frame_def)
qed

section \<open>What a session sends\<close>

fun push_frames :: "push_event list \<Rightarrow> frame list" where
  "push_frames [] = []"
| "push_frames (Tick sn cs # es) = Stats sn cs # push_frames es"
| "push_frames (BusEvent (RecvOk ev) # es) = FrameEvent ev # push_frames es"
| "push_frames (BusEvent (RecvLagged n) # es) = push_frames es"
| "push_frames (BusEvent RecvClosed # es) = []"
| "push_frames (PushShutdown v # es) = (if v = Some False then push_frames es else [])"

lemma push_loop_sent:
  "push_loop enc es c = (c', st) \<Longrightarrow> st = ClientServing \<or> st = ClientDone \<Longrightarrow>
     list_all (sendable enc) (push_frames es) \<and> tx c' = tx c @ wire_of enc (push_frames es)"
proof (induction enc es c rule: push_loop.induct)
  case (2 enc sn cs es c)
  obtain c1 st1 where w: "write_frames enc [Stats sn cs] c = (c1, st1)" by fastforce
  then have "st1 = ClientServing" using 2(2,3) write_frames_not_done [of enc "[Stats sn cs]" c]
    by (cases st1) auto
  then show ?case using write_frames_done [of enc "[Stats sn cs]" c c1] w 2 by simp
next
  case (3 enc ev es c)
  obtain c1 st1 where w: "write_frames enc [FrameEvent ev] c = (c1, st1)" by fastforce
  then have "st1 = ClientServing" using 3(2,3) write_frames_not_done [of enc "[FrameEvent ev]" c]
    by (cases st1) auto
  then show ?case using write_frames_done [of enc "[FrameEvent ev]" c c1] w 3 by simp
qed (auto split: if_splits)

text \<open>The events and the last sample a session delivers.\<close>

fun frame_events :: "frame list \<Rightarrow> event list" where
  "frame_events [] = []"
| "frame_events (FrameEvent ev # fs) = ev # frame_events fs"
| "frame_events (f # fs) = frame_events fs"

lemma frame_events_append [simp]: "frame_events (fs @ gs) = frame_events fs @ frame_events gs"
  by (induction fs rule: frame_events.induct) simp_all

lemma frame_events_map [simp]: "frame_events (map FrameEvent xs) = xs"
  by (induction xs) simp_all

fun last_stats :: "snapshot \<times> conn_info list \<Rightarrow> frame list \<Rightarrow> snapshot \<times> conn_info list" where
  "last_stats d [] = d"
| "last_stats d (Stats sn cs # fs) = last_stats (sn, cs) fs"
| "last_stats d (f # fs) = last_stats d fs"

lemma last_stats_append [simp]: "last_stats d (fs @ gs) = last_stats (last_stats d fs) gs"
  by (induction d fs rule: last_stats.induct) simp_all

lemma last_stats_map [simp]: "last_stats d (map FrameEvent xs) = d"
  by (induction xs) simp_all

lemma fold_on_frame:
  "rs_events (fold on_frame fs r) = rs_events r @ frame_events fs"
  "(rs_snapshot (fold on_frame fs r), rs_connections (fold on_frame fs r))
     = last_stats (rs_snapshot r, rs_connections r) fs"
proof (induction fs arbitrary: r)
  case (Cons f fs)
  { case 1 show ?case using Cons(1) by (cases f) simp_all }
  { case 2 show ?case using Cons(2) by (cases f) simp_all }
qed simp_all

text \<open>A whole session at the client: the greeting, then every frame in turn, then the end.\<close>

lemma attach_session:
  assumes "codec_ok enc dec"
    and "handle_client enc replay la es c = (c', st)" and "st = ClientServing \<or> st = ClientDone"
    and "tx c = []" and "stream_data items = tx c'" and "stream_end items = EndEof"
  shows "attach dec (Inr items) = AttachUi la
    ((fold on_frame (map FrameEvent replay @ push_frames es) remote_new)\<lparr>rs_lost := True, rs_shutdown := True\<rparr>, True)"
proof -
  let ?h = "Hello PROTO_VERSION la" and ?fs = "map FrameEvent replay @ push_frames es"
  obtain c1 s1 where w1: "write_frames enc [?h] c = (c1, s1)" by fastforce
  obtain c2 s2 where w2: "write_frames enc (map FrameEvent replay) c1 = (c2, s2)" by fastforce
  have s1: "s1 = ClientServing"
    using assms(2,3) w1 write_frames_not_done [of enc "[?h]" c] by (cases s1) (auto simp: handle_client_def)
  moreover have s2: "s2 = ClientServing"
    using assms(2,3) w1 w2 s1 write_frames_not_done [of enc "map FrameEvent replay" c1]
    by (cases s2) (auto simp: handle_client_def)
  ultimately have p: "push_loop enc es c2 = (c', st)" using assms(2) w1 w2 by (simp add: handle_client_def)
  have data: "stream_data items = frame_wire enc ?h @ wire_of enc ?fs"
    and send: "sendable enc ?h" "list_all (sendable enc) ?fs"
    using write_frames_done [of enc "[?h]" c c1] write_frames_done [of enc "map FrameEvent replay" c1 c2]
      push_loop_sent [OF p assms(3)] w1 w2 s1 s2 assms(4,5) by simp_all
  obtain i1 where r1: "read_frame dec items = (Some (Inr ?h), i1)" "stream_data i1 = wire_of enc ?fs"
    "stream_end i1 = EndEof"
    using read_frame_sent [OF assms(1) send(1) data] assms(6) by auto
  obtain i2 where "decode_loop dec i1 remote_new = decode_loop dec i2 (fold on_frame ?fs remote_new)"
    "stream_data i2 = []" "stream_end i2 = EndEof"
    using decode_loop_frames [OF assms(1) send(2), of i1 "[]" remote_new] r1 by auto
  then have "decode_loop dec i1 remote_new
      = ((fold on_frame ?fs remote_new)\<lparr>rs_lost := True, rs_shutdown := True\<rparr>, True)"
    using decode_loop_end [of i2] by simp
  moreover have "attach dec (Inr items) = AttachUi la (decode_loop dec i1 remote_new)"
    using r1(1) by (simp add: attach_def)
  ultimately show ?thesis by simp
qed

section \<open>Properties\<close>

text \<open>C13: an attached client mirrors the server. Whatever a session pushes without a write
  failing, and however its bytes are cut on the way, \<open>attach\<close> accepts the greeting, shows the
  server's listening address, forwards the replayed events and then the live ones, each
  once and in order, holds the last sample pushed, and at the end of the stream reports the
  connection lost and shuts the dashboard down.\<close>

theorem attach_mirrors:
  assumes "codec_ok enc dec"
    and "handle_client enc replay la es c = (c', st)" and "st = ClientServing \<or> st = ClientDone"
    and "tx c = []" and "stream_data items = tx c'" and "stream_end items = EndEof"
  shows "\<exists>r. attach dec (Inr items) = AttachUi la (r, True) \<and>
    rs_events r = replay @ frame_events (push_frames es) \<and>
    (rs_snapshot r, rs_connections r) = last_stats (snapshot_default, []) (push_frames es) \<and>
    rs_lost r \<and> rs_shutdown r"
  using attach_session [OF assms] fold_on_frame [of "map FrameEvent replay @ push_frames es" remote_new]
  by (auto simp: remote_new_def)

definition sample_encoder :: "unit encoder" where
  "sample_encoder f =
     (if f = Hello PROTO_VERSION None then Inr [7]
      else if f = FrameEvent (EvClosed 3) then Inr [8, 9] else Inl ())"

definition sample_decoder :: "unit decoder" where
  "sample_decoder b =
     (if b = [7] then Inr (Hello PROTO_VERSION None)
      else if b = [8, 9] then Inr (FrameEvent (EvClosed 3)) else Inl ())"

definition unix_conn :: conn where
  "unix_conn = \<lparr>rx = [], tx = [], wr = [], evs = [], journal = []\<rparr>"

lemma sample_codec_ok: "codec_ok sample_encoder sample_decoder"
  by (auto simp: codec_ok_def sample_encoder_def sample_decoder_def split: if_splits)

lemma short_prefixes: "u32_to_be 1 = [0, 0, 0, 1]" "u32_to_be 2 = [0, 0, 0, 2]"
proof -
  have "4 = Suc (Suc (Suc (Suc 0)))" by simp
  then have "u32_to_be w = be_digits (Suc (Suc (Suc (Suc 0)))) (unat w)" for w by (metis u32_to_be_def)
  then show "u32_to_be 1 = [0, 0, 0, 1]" "u32_to_be 2 = [0, 0, 0, 2]" by simp_all
qed

lemma sample_session:
  "handle_client sample_encoder [EvClosed 3] None [PushShutdown None] unix_conn
     = (unix_conn\<lparr>tx := [0, 0, 0, 1, 7, 0, 0, 0, 2, 8, 9]\<rparr>, ClientDone)"
proof -
  have "\<not> MAX_FRAME_LEN < 1" "\<not> MAX_FRAME_LEN < 2" by (simp_all add: MAX_FRAME_LEN_def)
  then show ?thesis using short_prefixes
    by (simp add: handle_client_def write_frame_def sample_encoder_def write_all_def unix_conn_def)
qed

theorem attach_mirrors_witness:
  "\<exists>r. attach sample_decoder (Inr [Rx [0, 0, 0], Rx [1, 7, 0, 0, 0, 2, 8], Rx [9], Rx []]) = AttachUi None (r, True) \<and>
    rs_events r = [EvClosed 3] \<and> rs_lost r"
  using attach_mirrors [OF sample_codec_ok sample_session,
      of "[Rx [0, 0, 0], Rx [1, 7, 0, 0, 0, 2, 8], Rx [9], Rx []]"]
  by (auto simp: unix_conn_def)

lemma read_exact_end:
  "read_exact n items = (Some (Inr bs), items') \<Longrightarrow> stream_end items' = stream_end items"
  "read_exact n items = (None, items') \<Longrightarrow> stream_end items = EndPending"
  using read_exact_reads [of n items] by (auto simp: reads_def split: if_splits ending.splits)

lemma read_frame_end:
  "read_frame dec items = (Some (Inr f), items') \<Longrightarrow> stream_end items' = stream_end items"
  "read_frame dec items = (None, items') \<Longrightarrow> stream_end items = EndPending"
  by (auto simp: read_frame_def Let_def split: prod.splits option.splits sum.splits if_splits)
    (metis read_exact_end)+

lemma read_frame_oversized:
  assumes "stream_data items = u32_to_be len @ rest" and "MAX_FRAME_LEN < len"
  shows "\<exists>items'. read_frame dec items = (Some (Inl (TooLarge len)), items') \<and> stream_data items' = rest"
proof -
  obtain items' where "read_exact 4 items = (Some (Inr (u32_to_be len)), items')" "stream_data items' = rest"
    using read_exact_ok [OF assms(1), of 4] by auto
  then show ?thesis using assms(2) by (simp add: read_frame_def Let_def)
qed

text \<open>The framing as a function of the bytes alone: the frame at the front of a stream, and the
  frames it holds up to where it stops being one, with whether something wrong stopped it.\<close>

datatype next_frame = NeedMore | Broken | Decoded frame bytes

definition next_frame :: "'p decoder \<Rightarrow> bytes \<Rightarrow> next_frame" where
  "next_frame dec bs =
     (if length bs < 4 then NeedMore
      else let len = u32_from_be (take 4 bs)
           in if MAX_FRAME_LEN < len then Broken
              else if length bs < 4 + unat len then NeedMore
              else case dec (take (unat len) (drop 4 bs)) of
                     Inl e \<Rightarrow> Broken
                   | Inr f \<Rightarrow> Decoded f (drop (4 + unat len) bs))"

lemma next_frame_shorter: "next_frame dec bs = Decoded f rest \<Longrightarrow> length rest < length bs"
  by (auto simp: next_frame_def Let_def split: if_splits sum.splits)

function frames_in :: "'p decoder \<Rightarrow> bytes \<Rightarrow> frame list \<times> bool" where
  "frames_in dec bs =
     (case next_frame dec bs of
        NeedMore \<Rightarrow> ([], False)
      | Broken \<Rightarrow> ([], True)
      | Decoded f rest \<Rightarrow> (case frames_in dec rest of (fs, broken) \<Rightarrow> (f # fs, broken)))"
  by auto
termination by (relation "measure (\<lambda>(d, bs). length bs)") (auto dest: next_frame_shorter)

declare frames_in.simps [simp del]

lemma read_exact_short:
  assumes "length (stream_data items) < n"
  shows "if stream_end items = EndPending then fst (read_exact n items) = None
    else \<exists>e. fst (read_exact n items) = Some (Inl e)"
  using read_exact_reads [of n items] assms by (auto simp: reads_def split: ending.splits)

lemma read_frame_next:
  "case next_frame dec (stream_data items) of
     NeedMore \<Rightarrow> (if stream_end items = EndPending then fst (read_frame dec items) = None
        else \<exists>e. fst (read_frame dec items) = Some (Inl e))
   | Broken \<Rightarrow> \<exists>e. fst (read_frame dec items) = Some (Inl e)
   | Decoded f rest \<Rightarrow> \<exists>items'. read_frame dec items = (Some (Inr f), items') \<and>
        stream_data items' = rest \<and> stream_end items' = stream_end items"
proof (cases "length (stream_data items) < 4")
  case True
  then show ?thesis using read_exact_short [OF True]
    by (cases "read_exact 4 items") (auto simp: next_frame_def read_frame_def)
next
  case False
  let ?bs = "stream_data items"
  define len where "len = u32_from_be (take 4 ?bs)"
  obtain i1 where r1: "read_exact 4 items = (Some (Inr (take 4 ?bs)), i1)" "stream_data i1 = drop 4 ?bs"
    "stream_end i1 = stream_end items"
    using read_exact_ok [of items "take 4 ?bs" "drop 4 ?bs" 4] False by auto
  show ?thesis
  proof (cases "MAX_FRAME_LEN < len")
    case True
    then show ?thesis using False r1(1) by (simp add: next_frame_def read_frame_def len_def)
  next
    case small: False
    show ?thesis
    proof (cases "length ?bs < 4 + unat len")
      case True
      then have "length (stream_data i1) < unat len" using False by (simp add: r1(2))
      from read_exact_short [OF this] have "if stream_end items = EndPending then fst (read_frame dec items) = None
          else \<exists>e. fst (read_frame dec items) = Some (Inl e)"
        using small r1 by (cases "read_exact (unat len) i1")
          (auto simp: read_frame_def Let_def len_def [symmetric] split: if_splits)
      then show ?thesis using False small True by (simp add: next_frame_def Let_def len_def [symmetric])
    next
      case long: False
      have parts: "stream_data i1 = take (unat len) (drop 4 ?bs) @ drop (unat len) (drop 4 ?bs)"
        by (simp only: r1(2) append_take_drop_id)
      have len4: "unat len = length (take (unat len) (drop 4 ?bs))" using long by (simp add: min_def) arith
      obtain i2 where r2: "read_exact (unat len) i1 = (Some (Inr (take (unat len) (drop 4 ?bs))), i2)"
        "stream_data i2 = drop (unat len) (drop 4 ?bs)" "stream_end i2 = stream_end items"
        using read_exact_ok [OF parts len4] r1(3) by auto
      then show ?thesis using False small long r1(1)
        by (auto simp: next_frame_def read_frame_def Let_def len_def [symmetric] add.commute split: sum.split)
    qed
  qed
qed

text \<open>C29: the decode task is the framing and nothing else. Whatever bytes the peer sends, however
  they are cut and whatever the decoder makes of them, the task applies to the dashboard's
  state exactly the frames the bytes hold, in order, up to the first that claims more than a
  mebibyte or does not decode; it ends exactly when it meets such a frame or the stream ends,
  by an end of file or an error, even inside a frame; and when it ends, and only then, it
  marks the connection lost and asks the dashboard to stop. Of a frame that claims too much
  it reads the length and no more.\<close>

theorem decode_loop_exact:
  "(case frames_in dec (stream_data items) of
      (fs, broken) \<Rightarrow>
        decode_loop dec items r =
          (if broken \<or> stream_end items \<noteq> EndPending
           then ((fold on_frame fs r)\<lparr>rs_lost := True, rs_shutdown := True\<rparr>, True)
           else (fold on_frame fs r, False))) \<and>
   (\<forall>len rest. stream_data items = u32_to_be len @ rest \<and> MAX_FRAME_LEN < len \<longrightarrow>
      (\<exists>items'. read_frame dec items = (Some (Inl (TooLarge len)), items') \<and> stream_data items' = rest))"
proof -
  have "case frames_in dec (stream_data items) of
      (fs, broken) \<Rightarrow>
        decode_loop dec items r =
          (if broken \<or> stream_end items \<noteq> EndPending
           then ((fold on_frame fs r)\<lparr>rs_lost := True, rs_shutdown := True\<rparr>, True)
           else (fold on_frame fs r, False))"
  proof (induction dec items r rule: decode_loop.induct)
    case (1 dec items r)
    note step = read_frame_next [of items dec]
    show ?case
    proof (cases "next_frame dec (stream_data items)")
      case (Decoded f rest)
      with step obtain i where i: "read_frame dec items = (Some (Inr f), i)" "stream_data i = rest"
        "stream_end i = stream_end items" by auto
      from 1 [OF i(1) [symmetric] refl refl] show ?thesis using i Decoded
        by (auto simp: decode_loop.simps [of dec items] frames_in.simps [of dec "stream_data items"] split: prod.splits)
    qed (use step in \<open>cases "read_frame dec items";
      auto simp: decode_loop.simps [of dec items] frames_in.simps [of dec "stream_data items"] split: if_splits\<close>)+
  qed
  then show ?thesis using read_frame_oversized [of items _ _ dec] by blast
qed

theorem decode_loop_exact_witness:
  "\<exists>r'. decode_loop sample_decoder [Rx [255, 0], Rx [0, 0, 7]] remote_new = (r', True) \<and> rs_lost r'"
proof -
  let ?items = "[Rx [255, 0], Rx [0, 0, 7]]"
  have "frames_in sample_decoder (stream_data ?items) = ([], True)"
    by (subst frames_in.simps) (simp add: next_frame_def u32_from_be_def MAX_FRAME_LEN_def)
  with decode_loop_exact [of sample_decoder ?items remote_new] show ?thesis by simp
qed

end
