(* ===== verification/Dashboard.thy ===== *)
theory Dashboard
  imports Widgets Admin_Proto
begin

text \<open>
  \<open>src/tui/mod.rs\<close>: the dashboard's state and event loop. A run is the sequence of branches
  its \<open>select!\<close> takes; a tick carries what the metrics source and the event bus yield then.
  \<open>None\<close> stands for a terminal operation that failed.
\<close>

section \<open>State\<close>

definition LOG_CAPACITY :: usize where
  "LOG_CAPACITY = 1000"

definition RATE_HISTORY :: usize where
  "RATE_HISTORY = 120"

definition INFO_BAND_HEIGHT :: u16 where
  "INFO_BAND_HEIGHT = 13"

definition PAGE :: usize where
  "PAGE = 10"

record dashboard =
  ds_snapshot :: snapshot
  ds_up_kbps :: f64
  ds_down_kbps :: f64
  ds_up_history :: rate_history
  ds_down_history :: rate_history
  ds_log :: log_ring
  ds_connections :: "conn_info list"
  ds_first_seen :: "(u64, instant) fmap"
  ds_start :: instant
  ds_listen_addr :: "string option"
  ds_sort :: sort_key_choice
  ds_focus :: focus
  ds_conn_scroll :: usize
  ds_log_scroll :: usize

definition dashboard_new :: "instant \<Rightarrow> string option \<Rightarrow> dashboard" where
  "dashboard_new now listen_addr =
     \<lparr>ds_snapshot = snapshot_default, ds_up_kbps = 0, ds_down_kbps = 0,
      ds_up_history = rates_new RATE_HISTORY, ds_down_history = rates_new RATE_HISTORY,
      ds_log = log_new LOG_CAPACITY, ds_connections = [], ds_first_seen = fmempty, ds_start = now,
      ds_listen_addr = listen_addr, ds_sort = SortId, ds_focus = FocusConnections,
      ds_conn_scroll = 0, ds_log_scroll = 0\<rparr>"

section \<open>Events into the log\<close>

datatype try_recv = TryOk event | TryEmpty | TryClosed | TryLagged u64

fun event_conn_id :: "event \<Rightarrow> u64 option" where
  "event_conn_id (EvConnect i src target kind) = Some i"
| "event_conn_id _ = None"

fun drain_events :: "try_recv list \<Rightarrow> log_ring \<Rightarrow> log_ring \<times> usize" where
  "drain_events [] r = (r, 0)"
| "drain_events (TryOk (EvClosed i) # es) r = drain_events es (mark_closed i r)"
| "drain_events (TryOk ev # es) r =
     (case drain_events es (log_push (severity_of ev) (format_event ev) (event_conn_id ev) r) of
        (r, added) \<Rightarrow> (r, added + 1))"
| "drain_events (TryEmpty # es) r = (r, 0)"
| "drain_events (TryClosed # es) r = (r, 0)"
| "drain_events (TryLagged n # es) r =
     (case drain_events es (log_push SevWarn (''(log lagged, dropped '' @ show_nat (unat n) @ '' events)'') None r) of
        (r, added) \<Rightarrow> (r, added + 1))"

section \<open>Keys\<close>

definition panel_avail :: "u16 \<Rightarrow> usize \<times> usize" where
  "panel_avail term_height =
     (let main = unat term_height - unat (1 + INFO_BAND_HEIGHT)
      in (main - 3, main - 2))"

datatype key_action = Quit | CycleSort | SwitchFocus | ScrollUp usize | ScrollDown usize

definition apply_action :: "key_action \<Rightarrow> usize \<Rightarrow> usize \<Rightarrow> dashboard \<Rightarrow> dashboard" where
  "apply_action action conn_avail log_avail st =
     (let conn_max = length (ds_connections st) - max conn_avail 1;
          log_max = log_len (ds_log st) - max log_avail 1
      in case action of
           Quit \<Rightarrow> st
         | CycleSort \<Rightarrow> st\<lparr>ds_sort := sort_next (ds_sort st), ds_conn_scroll := 0\<rparr>
         | SwitchFocus \<Rightarrow> st\<lparr>ds_focus := focus_next (ds_focus st)\<rparr>
         | ScrollUp n \<Rightarrow>
             (case ds_focus st of
                FocusConnections \<Rightarrow> st\<lparr>ds_conn_scroll := ds_conn_scroll st - n\<rparr>
              | FocusLog \<Rightarrow> st\<lparr>ds_log_scroll := min (ds_log_scroll st + n) log_max\<rparr>)
         | ScrollDown n \<Rightarrow>
             (case ds_focus st of
                FocusConnections \<Rightarrow> st\<lparr>ds_conn_scroll := min (ds_conn_scroll st + n) conn_max\<rparr>
              | FocusLog \<Rightarrow> st\<lparr>ds_log_scroll := ds_log_scroll st - n\<rparr>))"

datatype key_code = KeyChar char | KeyTab | KeyUp | KeyDown | KeyPageUp | KeyPageDown | KeyOther

record key_event =
  key_press :: bool \<comment> \<open>\<open>KeyEventKind::Press\<close>\<close>
  key_control :: bool
  key_code :: key_code

definition map_key :: "key_event \<Rightarrow> key_action option" where
  "map_key key =
     (if \<not> key_press key then None
      else if key_code key = KeyChar CHR ''c'' \<and> key_control key then Some Quit
      else case key_code key of
             KeyChar ch \<Rightarrow>
               (if ch = CHR ''q'' then Some Quit
                else if ch = CHR ''s'' then Some CycleSort
                else if ch = CHR ''k'' then Some (ScrollUp 1)
                else if ch = CHR ''j'' then Some (ScrollDown 1)
                else None)
           | KeyTab \<Rightarrow> Some SwitchFocus
           | KeyUp \<Rightarrow> Some (ScrollUp 1)
           | KeyDown \<Rightarrow> Some (ScrollDown 1)
           | KeyPageUp \<Rightarrow> Some (ScrollUp PAGE)
           | KeyPageDown \<Rightarrow> Some (ScrollDown PAGE)
           | KeyOther \<Rightarrow> None)"

text \<open>One turn of the reader thread: the stop flag, what \<open>poll\<close> and \<open>read\<close> give, and whether the
  channel takes an action.\<close>

datatype poll_result = PollKey key_event | PollOther | PollNone | PollError

fun input_loop :: "(bool \<times> poll_result \<times> bool) list \<Rightarrow> key_action list \<times> bool" where
  "input_loop [] = ([], False)"
| "input_loop ((stop, polled, sent) # rest) =
     (if stop then ([], True)
      else case polled of
             PollError \<Rightarrow> ([], True)
           | PollKey key \<Rightarrow>
               (case map_key key of
                  None \<Rightarrow> input_loop rest
                | Some action \<Rightarrow>
                    if sent then (case input_loop rest of (acts, ended) \<Rightarrow> (action # acts, ended))
                    else ([], True))
           | _ \<Rightarrow> input_loop rest)"

section \<open>The event loop\<close>

record ui =
  ui_state :: "dashboard"
  ui_last_snapshot :: snapshot
  ui_last_instant :: instant

text \<open>\<open>first_seen\<close> after a listing: new ids are entered, ids no longer listed are dropped.\<close>

definition track_seen :: "instant \<Rightarrow> conn_info list \<Rightarrow> (u64, instant) fmap \<Rightarrow> (u64, instant) fmap" where
  "track_seen now conns seen =
     fmfilter (\<lambda>i. list_ex (\<lambda>c. ci_id c = i) conns)
       (fold (\<lambda>c seen. case fmlookup seen (ci_id c) of
                None \<Rightarrow> fmupd (ci_id c) now seen
              | Some t \<Rightarrow> seen) conns seen)"

definition sat_sub :: "u64 \<Rightarrow> u64 \<Rightarrow> u64" where
  "sat_sub a b = (if b \<le> a then a - b else 0)"

text \<open>The log's scroll offset after a tick; the terminal's height is read only off the tail.\<close>

definition anchor_scroll :: "u16 option \<Rightarrow> log_ring \<Rightarrow> usize \<Rightarrow> usize \<Rightarrow> usize option" where
  "anchor_scroll height r added scroll =
     (if 0 < scroll
      then case height of
             None \<Rightarrow> None
           | Some h \<Rightarrow> Some (min (scroll + added) (log_len r - snd (panel_avail h)))
      else Some scroll)"

definition ui_tick ::
  "instant \<Rightarrow> snapshot \<Rightarrow> conn_info list \<Rightarrow> try_recv list
   \<Rightarrow> u16 option \<Rightarrow> ui \<Rightarrow> ui option" where
  "ui_tick now snap conns items height ui =
     (let st = ui_state ui;
          dt = now - ui_last_instant ui;
          up = rate_kbps (sat_sub (sn_bytes_up snap) (sn_bytes_up (ui_last_snapshot ui))) dt;
          down = rate_kbps (sat_sub (sn_bytes_down snap) (sn_bytes_down (ui_last_snapshot ui))) dt;
          (r, added) = drain_events items (ds_log st)
      in case anchor_scroll height r added (ds_log_scroll st) of
           None \<Rightarrow> None
         | Some scroll \<Rightarrow>
             (let seen = track_seen now conns (ds_first_seen st)
              in Some \<lparr>ui_state = st\<lparr>ds_up_kbps := up, ds_down_kbps := down,
                     ds_up_history := rates_push (as_u64 up) (ds_up_history st),
                     ds_down_history := rates_push (as_u64 down) (ds_down_history st),
                     ds_log := r, ds_log_scroll := scroll, ds_snapshot := snap, ds_first_seen := seen,
                     ds_connections := sort_connections (ds_sort st) seen conns\<rparr>,
                   ui_last_snapshot = snap, ui_last_instant = now\<rparr>))"

datatype ui_event =
    UiTick instant snapshot "conn_info list" "try_recv list" "u16 option" bool
  | UiKey "key_action option" "u16 option" bool \<comment> \<open>\<open>None\<close>: the reader thread has ended\<close>
  | UiShutdown "bool option"

datatype ui_end = UiRunning | UiQuit \<comment> \<open>after \<open>shutdown_tx.send(true)\<close>\<close> | UiEnded | UiFailed

text \<open>The last argument of a tick or key tells whether drawing succeeds.\<close>

fun ui_run ::
  "ui_event list \<Rightarrow> ui \<Rightarrow> ui \<times> ui_end" where
  "ui_run [] ui = (ui, UiRunning)"
| "ui_run (UiTick now snap conns items height drawn # es) ui =
     (case ui_tick now snap conns items height ui of
        None \<Rightarrow> (ui, UiFailed)
      | Some ui' \<Rightarrow> if drawn then ui_run es ui' else (ui', UiFailed))"
| "ui_run (UiKey None height drawn # es) ui = (ui, UiEnded)"
| "ui_run (UiKey (Some action) height drawn # es) ui =
     (if action = Quit then (ui, UiQuit)
      else case height of
             None \<Rightarrow> (ui, UiFailed)
           | Some h \<Rightarrow>
               (let (conn_avail, log_avail) = panel_avail h;
                    ui' = ui\<lparr>ui_state := apply_action action conn_avail log_avail (ui_state ui)\<rparr>
                in if drawn then ui_run es ui' else (ui', UiFailed)))"
| "ui_run (UiShutdown v # es) ui =
     (if v = Some False then ui_run es ui else (ui, UiEnded))"

section \<open>What the panels show\<close>

text \<open>The window of \<open>render_log\<close>, for a body of \<open>avail\<close> rows.\<close>

definition log_view :: "usize \<Rightarrow> dashboard \<Rightarrow> log_line list" where
  "log_view avail st =
     (let lines = lr_buf (ds_log st);
          max_off = length lines - max avail 1;
          top_off = max_off - ds_log_scroll st
      in case scroll_window (length lines) avail top_off of
           (start, shown, hidden_above, hidden_below) \<Rightarrow> take shown (drop start lines))"

section \<open>Facts: the log\<close>

text \<open>\<open>n\<close> lines went in: the newest of the old and the new lines are there, some of them closed.\<close>

definition grown :: "log_ring \<Rightarrow> nat \<Rightarrow> log_ring \<Rightarrow> bool" where
  "grown r n r' \<longleftrightarrow> log_ok r' \<and> lr_cap r' = lr_cap r \<and>
     (\<exists>new. length new = n \<and>
        list_all2 aged (drop (log_len r + n - lr_cap r) (lr_buf r @ new)) (lr_buf r'))"

lemma grown_refl: "log_ok r \<Longrightarrow> grown r 0 r"
  by (auto simp: grown_def log_len_def log_ok_def intro: aged_list_refl)

lemma grown_mark:
  assumes "grown (mark_closed i r) n r'"
  shows "grown r n r'"
proof -
  have a: "list_all2 aged (lr_buf r) (lr_buf (mark_closed i r))" by (rule mark_closed_aged)
  then have l: "log_len (mark_closed i r) = log_len r" by (simp add: log_len_def list_all2_lengthD)
  from assms obtain new where new: "length new = n" "log_ok r'" "lr_cap r' = lr_cap r"
    "list_all2 aged (drop (log_len r + n - lr_cap r) (lr_buf (mark_closed i r) @ new)) (lr_buf r')"
    by (auto simp: grown_def l mark_closed_ok(2))
  have "list_all2 aged (drop (log_len r + n - lr_cap r) (lr_buf r @ new))
      (drop (log_len r + n - lr_cap r) (lr_buf (mark_closed i r) @ new))"
    using a by (intro list_all2_dropI list_all2_appendI aged_list_refl)
  from aged_list_trans [OF this new(4)] new show ?thesis by (auto simp: grown_def)
qed

lemma grown_push:
  assumes "log_ok r" and "grown (push_line l r) n r'"
  shows "grown r (n + 1) r'"
proof -
  define k where "k = log_len r + 1 - lr_cap r"
  have cap: "lr_cap (push_line l r) = lr_cap r" and buf: "lr_buf (push_line l r) = drop k (lr_buf r @ [l])"
    using log.entries_fold [OF assms(1), of "[l]"] by (simp_all add: k_def log_len_def)
  have len: "log_len r \<le> lr_cap r" "0 < lr_cap r" using assms(1) by (auto simp: log_ok_def log_len_def)
  from assms(2) obtain new where new: "length new = n" "log_ok r'" "lr_cap r' = lr_cap r"
    "list_all2 aged (drop (log_len (push_line l r) + n - lr_cap r) (lr_buf (push_line l r) @ new)) (lr_buf r')"
    by (auto simp: grown_def cap)
  have "drop (log_len (push_line l r) + n - lr_cap r) (lr_buf (push_line l r) @ new)
      = drop (log_len r + (n + 1) - lr_cap r) (lr_buf r @ (l # new))"
  proof -
    have "k \<le> Suc (log_len r)" "log_len (push_line l r) = Suc (log_len r) - k"
      by (simp_all add: k_def log_len_def buf)
    moreover have "drop k (lr_buf r @ [l]) @ new = drop k (lr_buf r @ (l # new))"
      using \<open>k \<le> Suc (log_len r)\<close> len
      by (cases "k \<le> log_len r") (simp_all add: log_len_def k_def)
    moreover have "Suc (log_len r) - k + n - lr_cap r + k = log_len r + (n + 1) - lr_cap r"
      using len by (simp add: k_def)
    ultimately show ?thesis unfolding buf by (simp only: drop_drop)
  qed
  with new show ?thesis unfolding grown_def by (metis length_Cons Suc_eq_plus1)
qed

lemma drain_events_grown: "log_ok r \<Longrightarrow> drain_events es r = (r', n) \<Longrightarrow> grown r n r'"
proof (induction es arbitrary: r n)
  case (Cons e es)
  have push: "grown r (Suc n') r'" if d: "drain_events es (push_line l r) = (r', n')" for l n'
    using Cons.IH [OF _ d] Cons.prems(1) log.push_valid grown_push [of r l n' r'] by simp
  show ?case
  proof (cases e)
    case (TryOk ev)
    show ?thesis
    proof (cases "\<exists>i. ev = EvClosed i")
      case True
      then obtain i where "ev = EvClosed i" ..
      then have "drain_events es (mark_closed i r) = (r', n)" using Cons.prems(2) TryOk by simp
      from Cons.IH [OF mark_closed_ok(1) [OF Cons.prems(1)] this] show ?thesis by (rule grown_mark)
    next
      case False
      then show ?thesis using Cons.prems(2) TryOk
        by (cases ev) (auto simp: log_push_line simp del: format_event.simps split: prod.splits intro: push)
    qed
  next
    case (TryLagged k)
    then show ?thesis using Cons.prems(2) by (auto simp: log_push_line split: prod.splits intro: push)
  qed (use Cons.prems grown_refl in auto)
qed (simp add: grown_refl)

lemma grown_len: "grown r n r' \<Longrightarrow> log_len r' = min (lr_cap r) (log_len r + n)" if "log_ok r"
proof -
  assume "grown r n r'"
  then obtain new where new: "length new = n"
    "list_all2 aged (drop (log_len r + n - lr_cap r) (lr_buf r @ new)) (lr_buf r')" by (auto simp: grown_def)
  from list_all2_lengthD [OF new(2)] new(1) show ?thesis by (simp add: log_len_def)
qed

text \<open>The view is the stretch of the log that ends \<open>ds_log_scroll\<close> lines before its newest line.\<close>

lemma log_view_exact:
  assumes "ds_log_scroll st \<le> log_len (ds_log st) - max avail 1"
  shows "log_view avail st =
    take (min (max avail 1) (log_len (ds_log st)))
      (drop (log_len (ds_log st) - max avail 1 - ds_log_scroll st) (lr_buf (ds_log st)))"
proof -
  let ?n = "length (lr_buf (ds_log st))"
  obtain start shown u v where w:
    "scroll_window ?n avail (?n - max avail 1 - ds_log_scroll st) = (start, shown, u, v)"
    by (metis prod_cases4)
  note f = scroll_window_facts [OF w]
  have "start = ?n - max avail 1 - ds_log_scroll st" using f(4) by linarith
  then show ?thesis unfolding log_view_def Let_def w prod.case log_len_def f(3) by (simp only:)
qed

section \<open>Facts: the event loop\<close>

lemma seen_fold:
  "fmlookup (fold (\<lambda>c seen. case fmlookup seen (ci_id c) of None \<Rightarrow> fmupd (ci_id c) now seen | Some t \<Rightarrow> seen) conns seen) i =
     (case fmlookup seen i of Some t \<Rightarrow> Some t | None \<Rightarrow> if i \<in> ci_id ` set conns then Some now else None)"
  by (induction conns arbitrary: seen) (auto split: option.splits)

lemma track_seen_lookup:
  "fmlookup (track_seen now conns seen) i =
     (if i \<in> ci_id ` set conns then Some (case fmlookup seen i of Some t \<Rightarrow> t | None \<Rightarrow> now) else None)"
  by (auto simp: track_seen_def seen_fold list_ex_iff split: option.splits)

definition ui_ok :: "dashboard \<Rightarrow> bool" where
  "ui_ok st \<longleftrightarrow>
     log_ok (ds_log st) \<and> lr_cap (ds_log st) = LOG_CAPACITY \<and> ds_log_scroll st \<le> log_len (ds_log st) \<and>
     rates_ok (ds_up_history st) \<and> rh_cap (ds_up_history st) = RATE_HISTORY \<and>
     rates_ok (ds_down_history st) \<and> rh_cap (ds_down_history st) = RATE_HISTORY \<and>
     length (rates_samples (ds_up_history st)) = length (rates_samples (ds_down_history st)) \<and>
     fset (fmdom (ds_first_seen st)) = ci_id ` set (ds_connections st)"

lemma dashboard_new_ok: "ui_ok (dashboard_new now la)"
  using log_new_ok [of LOG_CAPACITY] rates_new_ok [of RATE_HISTORY]
  by (simp add: ui_ok_def dashboard_new_def) (simp add: log_new_def rates_new_def LOG_CAPACITY_def RATE_HISTORY_def)

lemma sort_connections_set [simp]: "set (sort_connections k fs xs) = set xs"
  by (simp add: sort_connections_key)

lemma track_seen_dom: "fset (fmdom (track_seen now conns seen)) = ci_id ` set conns"
  by (auto simp: fmlookup_dom_iff track_seen_lookup split: if_splits)

lemma ui_tick_fields:
  assumes "ui_tick now snap conns items height ui = Some ui'" and "st = ui_state ui" and "st' = ui_state ui'"
    and "drain_events items (ds_log st) = (r, added)"
  shows "ds_log st' = r" "anchor_scroll height r added (ds_log_scroll st) = Some (ds_log_scroll st')"
    "ds_first_seen st' = track_seen now conns (ds_first_seen st)"
    "ds_connections st' = sort_connections (ds_sort st) (ds_first_seen st') conns"
    "\<exists>v. ds_up_history st' = rates_push v (ds_up_history st)"
    "\<exists>v. ds_down_history st' = rates_push v (ds_down_history st)"
  using assms by (auto simp: ui_tick_def Let_def split: option.splits)

lemma ui_tick_total: "\<exists>ui'. ui_tick now snap conns items (Some h) ui = Some ui'"
  by (simp add: ui_tick_def anchor_scroll_def Let_def split: prod.split)

lemma ui_tick_ok:
  assumes ok: "ui_ok (ui_state ui)" and t: "ui_tick now snap conns items height ui = Some ui'"
  shows "ui_ok (ui_state ui')"
proof -
  let ?st = "ui_state ui" and ?st' = "ui_state ui'"
  obtain r added where d: "drain_events items (ds_log ?st) = (r, added)" by fastforce
  note f = ui_tick_fields [OF t refl refl d]
  have "grown (ds_log ?st) added r" using drain_events_grown [OF _ d] ok by (simp add: ui_ok_def)
  then have "log_ok (ds_log ?st') \<and> lr_cap (ds_log ?st') = LOG_CAPACITY"
    using ok f(1) by (simp add: grown_def ui_ok_def)
  moreover have "ds_log_scroll ?st' \<le> log_len (ds_log ?st')"
    using f(1,2) by (auto simp: anchor_scroll_def split: if_splits option.splits)
  moreover obtain u v where "ds_up_history ?st' = rates_push u (ds_up_history ?st)"
    "ds_down_history ?st' = rates_push v (ds_down_history ?st)" using f(5,6) by blast
  ultimately show ?thesis using ok rates.push_valid rates.push_capacity rates.length_push f(3,4)
    by (simp add: ui_ok_def track_seen_dom)
qed

lemma apply_action_ok: "ui_ok st \<Longrightarrow> ui_ok (apply_action action ca la st)"
  by (cases action) (auto simp: apply_action_def ui_ok_def Let_def split: focus.splits)

lemma ui_run_ok: "ui_run es ui = (ui', ending) \<Longrightarrow> ui_ok (ui_state ui) \<Longrightarrow> ui_ok (ui_state ui')"
proof (induction es ui rule: ui_run.induct)
  case (2 now snap conns items height drawn es ui)
  then show ?case using ui_tick_ok [OF 2(3)] by (auto split: option.splits if_splits)
next
  case (4 action height drawn es ui)
  then show ?case using apply_action_ok [of "ui_state ui"]
    by (auto split: option.splits if_splits prod.splits simp: Let_def)
qed (auto split: if_splits)

text \<open>What the two histories are told: one pair of rates a tick, each measured from the tick before.\<close>

fun tick_rates :: "snapshot \<Rightarrow> instant \<Rightarrow> ui_event list \<Rightarrow> (u64 \<times> u64) list" where
  "tick_rates prev since [] = []"
| "tick_rates prev since (UiTick now snap conns items height drawn # es) =
     (as_u64 (rate_kbps (sat_sub (sn_bytes_up snap) (sn_bytes_up prev)) (now - since)),
      as_u64 (rate_kbps (sat_sub (sn_bytes_down snap) (sn_bytes_down prev)) (now - since))) # tick_rates snap now es"
| "tick_rates prev since (UiKey action height drawn # es) = tick_rates prev since es"
| "tick_rates prev since (UiShutdown v # es) = tick_rates prev since es"

lemma ui_tick_rates:
  assumes "ui_tick now snap conns items height ui = Some ui'"
  shows "ui_last_snapshot ui' = snap" "ui_last_instant ui' = now"
    "tick_rates (ui_last_snapshot ui) (ui_last_instant ui) [UiTick now snap conns items height drawn] = [(up, down)] \<Longrightarrow>
     ds_up_history (ui_state ui') = rates_push up (ds_up_history (ui_state ui)) \<and>
     ds_down_history (ui_state ui') = rates_push down (ds_down_history (ui_state ui))"
  using assms by (auto simp: ui_tick_def Let_def split: option.splits prod.splits)

lemma apply_action_rates:
  "ds_up_history (apply_action action ca la st) = ds_up_history st"
  "ds_down_history (apply_action action ca la st) = ds_down_history st"
  by (cases action; auto simp: apply_action_def Let_def split: focus.splits)+

lemma ui_run_rates:
  "ui_run es ui = (ui', UiRunning) \<Longrightarrow> rs = tick_rates (ui_last_snapshot ui) (ui_last_instant ui) es \<Longrightarrow>
   ds_up_history (ui_state ui') = fold rates_push (map fst rs) (ds_up_history (ui_state ui)) \<and>
   ds_down_history (ui_state ui') = fold rates_push (map snd rs) (ds_down_history (ui_state ui))"
proof (induction es ui arbitrary: rs rule: ui_run.induct)
  case (2 now snap conns items height drawn es ui)
  then obtain ui1 where t: "ui_tick now snap conns items height ui = Some ui1" and drawn
    and run: "ui_run es ui1 = (ui', UiRunning)" by (auto split: option.splits if_splits)
  from 2(1) [OF t \<open>drawn\<close> run refl] ui_tick_rates [OF t] 2(3) show ?case by simp
next
  case (4 action height drawn es ui)
  then show ?case by (auto simp: Let_def apply_action_rates split: option.splits if_splits prod.splits)
qed (auto split: if_splits)

lemma ui_run_quit: "ui_run es u = (ui, UiQuit) \<Longrightarrow> \<exists>h d. UiKey (Some Quit) h d \<in> set es"
proof (induction es u rule: ui_run.induct)
  case (4 action height drawn es ui)
  then show ?case by (cases "action = Quit") (auto simp: Let_def split: option.splits if_splits prod.splits)
qed (auto split: option.splits if_splits)

lemma view_stretch:
  assumes "list_all2 P (drop e (xs @ new)) ys" and "e + length ys = length xs + length new"
    and "s + length new + a \<le> length ys" and "e \<le> length xs"
  shows "list_all2 P (take a (drop (length xs - a - s) xs)) (take a (drop (length ys - a - (s + length new)) ys))"
proof -
  have "list_all2 P (take a (drop (length ys - a - (s + length new)) (drop e (xs @ new))))
      (take a (drop (length ys - a - (s + length new)) ys))"
    using assms(1) by (intro list_all2_takeI list_all2_dropI)
  moreover have "length ys - a - (s + length new) + e = length xs - a - s" using assms(2,3) by linarith
  moreover have "take a (drop (length xs - a - s) (xs @ new)) = take a (drop (length xs - a - s) xs)"
    using assms(2,3,4) by simp
  ultimately show ?thesis by (simp only: drop_drop)
qed

lemma log_view_within:
  assumes "ds_log_scroll st + max avail 1 \<le> log_len (ds_log st)"
  shows "log_view avail st =
    take (max avail 1) (drop (log_len (ds_log st) - max avail 1 - ds_log_scroll st) (lr_buf (ds_log st)))"
proof -
  have "min (max avail 1) (log_len (ds_log st)) = max avail 1" using assms by linarith
  moreover have "ds_log_scroll st \<le> log_len (ds_log st) - max avail 1" using assms by linarith
  ultimately show ?thesis using log_view_exact [of st avail] by (simp only:)
qed

section \<open>Properties\<close>

text \<open>C30: the log panel keeps its place. A tick that drains any number of events while the user
  is scrolled up leaves the panel showing the very same lines (some of them now marked
  closed), also when old lines drop out of the full ring, unless the lines shown would
  themselves have to drop out; a panel that tails the log keeps showing its newest lines.\<close>

theorem log_view_anchored:
  assumes "ui_ok (ui_state ui)" and "ui_tick now snap conns items (Some h) ui = Some ui'"
    and "drain_events items (ds_log (ui_state ui)) = (r, added)" and "avail = snd (panel_avail h)"
  shows "(0 < ds_log_scroll (ui_state ui) \<and> ds_log_scroll (ui_state ui) + added + max avail 1 \<le> log_len r \<longrightarrow>
       list_all2 aged (log_view avail (ui_state ui)) (log_view avail (ui_state ui'))) \<and>
    (ds_log_scroll (ui_state ui) = 0 \<longrightarrow>
       log_view avail (ui_state ui') = drop (log_len r - max avail 1) (lr_buf r))"
proof (intro conjI impI)
  let ?st = "ui_state ui" and ?st' = "ui_state ui'" and ?a = "max avail 1"
  note f = ui_tick_fields [OF assms(2) refl refl assms(3)]
  have ok: "log_ok (ds_log ?st)" using assms(1) by (simp add: ui_ok_def)
  have g: "grown (ds_log ?st) added r" using drain_events_grown [OF ok assms(3)] .
  have len: "log_len r = min (lr_cap (ds_log ?st)) (log_len (ds_log ?st) + added)" using grown_len [OF ok g] .
  {
    assume a: "0 < ds_log_scroll ?st \<and> ds_log_scroll ?st + added + ?a \<le> log_len r"
    then have s': "ds_log_scroll ?st' = ds_log_scroll ?st + added"
      using f(2) assms(4) by (auto simp: anchor_scroll_def)
    obtain new where new: "length new = added"
      "list_all2 aged (drop (log_len (ds_log ?st) + added - lr_cap (ds_log ?st)) (lr_buf (ds_log ?st) @ new)) (lr_buf r)"
      using g by (auto simp: grown_def)
    have "list_all2 aged (take ?a (drop (log_len (ds_log ?st) - ?a - ds_log_scroll ?st) (lr_buf (ds_log ?st))))
        (take ?a (drop (log_len r - ?a - (ds_log_scroll ?st + added)) (lr_buf r)))"
      using view_stretch [OF new(2), of "ds_log_scroll ?st" ?a] a len new(1) by (auto simp: log_len_def)
    moreover have "ds_log_scroll ?st + ?a \<le> log_len (ds_log ?st)" using a len by linarith
    then have "log_view avail ?st = take ?a (drop (log_len (ds_log ?st) - ?a - ds_log_scroll ?st) (lr_buf (ds_log ?st)))"
      by (rule log_view_within)
    moreover have "log_view avail ?st' = take ?a (drop (log_len r - ?a - (ds_log_scroll ?st + added)) (lr_buf r))"
      using log_view_within [of ?st' avail] a s' f(1) by (simp only:)
    ultimately show "list_all2 aged (log_view avail ?st) (log_view avail ?st')" by simp
  }
  assume "ds_log_scroll ?st = 0"
  then have "ds_log_scroll ?st' = 0" using f(2) by (simp add: anchor_scroll_def)
  then show "log_view avail ?st' = drop (log_len r - ?a) (lr_buf r)"
    using f(1) by (subst log_view_exact) (simp_all add: log_len_def min_def)
qed

definition sample_log :: log_ring where
  "sample_log = fold (\<lambda>t. log_push SevInfo t (Some 4)) [''a'', ''b'', ''c''] (log_new LOG_CAPACITY)"

definition sample_ui :: "ui" where
  "sample_ui =
     \<lparr>ui_state = (dashboard_new 0 None)\<lparr>ds_log := sample_log, ds_log_scroll := 1\<rparr>,
      ui_last_snapshot = snapshot_default, ui_last_instant = 0\<rparr>"

lemma sample_log_lines:
  "sample_log = \<lparr>lr_buf = map (\<lambda>t. \<lparr>ll_severity = SevInfo, ll_text = t, ll_conn_id = Some 4\<rparr>) [''a'', ''b'', ''c''], lr_cap = 1000\<rparr>"
  by (simp add: sample_log_def log_push_def log_new_def LOG_CAPACITY_def)

theorem log_view_anchored_witness:
  "\<exists>ui'. ui_tick 5 snapshot_default [] [TryOk (EvClosed 4), TryOk (EvLog ''d'')] (Some 17) sample_ui = Some ui' \<and>
     list_all2 aged (log_view 1 (ui_state sample_ui)) (log_view 1 (ui_state ui'))"
proof -
  let ?items = "[TryOk (EvClosed 4), TryOk (EvLog ''d'')]"
  obtain r added where d: "drain_events ?items (ds_log (ui_state sample_ui)) = (r, added)" by fastforce
  have ok: "ui_ok (ui_state sample_ui)"
    using dashboard_new_ok [of 0 None]
    by (simp add: sample_ui_def ui_ok_def sample_log_lines log_ok_def log_len_def LOG_CAPACITY_def dashboard_new_def)
  have len: "added = 1" "log_len r = 4" using d
    by (auto simp: sample_ui_def sample_log_lines mark_closed_def close_line_def log_push_def log_len_def)
  obtain ui' where t: "ui_tick 5 snapshot_default [] ?items (Some 17) sample_ui = Some ui'"
    using ui_tick_total by blast
  have "1 = snd (panel_avail 17)" by (simp add: panel_avail_def INFO_BAND_HEIGHT_def)
  from log_view_anchored [OF ok t d this] len t show ?thesis by (auto simp: sample_ui_def)
qed

text \<open>Through any run of the dashboard the log holds at most a thousand lines and each
  throughput history at most 120 samples, the log's scroll offset stays within the log, the
  table of first sightings has an entry for exactly the connections listed, the slices the
  panels take are in range, and the loop asks the server to shut down only on a quit key.\<close>

theorem dashboard_run:
  assumes "ui_run es \<lparr>ui_state = dashboard_new start la, ui_last_snapshot = sn, ui_last_instant = t\<rparr> = (ui, ending)"
    and "st = ui_state ui"
  shows "log_len (ds_log st) \<le> 1000 \<and> length (rates_samples (ds_up_history st)) \<le> 120 \<and>
    length (rates_samples (ds_down_history st)) \<le> 120 \<and> ds_log_scroll st \<le> log_len (ds_log st) \<and>
    fset (fmdom (ds_first_seen st)) = ci_id ` set (ds_connections st) \<and>
    (\<forall>avail offset. case scroll_window (log_len (ds_log st)) avail offset of
       (first, shown, u, v) \<Rightarrow> first + shown \<le> log_len (ds_log st)) \<and>
    (ending = UiQuit \<longrightarrow> (\<exists>h d. UiKey (Some Quit) h d \<in> set es))"
proof -
  have "ui_ok st" using ui_run_ok [OF assms(1)] assms(2) by (simp add: dashboard_new_ok)
  moreover have "ending = UiQuit \<longrightarrow> (\<exists>h d. UiKey (Some Quit) h d \<in> set es)"
    using ui_run_quit assms(1) by blast
  moreover have "case scroll_window n avail offset of (first, shown, u, v) \<Rightarrow> first + shown \<le> n" for n avail offset
  proof (cases "scroll_window n avail offset")
    case (fields first shown u v)
    then show ?thesis using scroll_window_facts(1) [OF fields] by simp
  qed
  ultimately show ?thesis
    by (simp add: ui_ok_def log_ok_def rates_ok_def log_len_def rates_samples_def LOG_CAPACITY_def RATE_HISTORY_def)
qed

theorem dashboard_run_witness:
  "\<exists>ui. ui_run [UiKey (Some SwitchFocus) (Some 40) True, UiKey (Some Quit) None True]
       \<lparr>ui_state = dashboard_new 0 None, ui_last_snapshot = snapshot_default, ui_last_instant = 0\<rparr> = (ui, UiQuit) \<and>
     log_len (ds_log (ui_state ui)) \<le> 1000"
proof -
  obtain ui ending where r: "ui_run [UiKey (Some SwitchFocus) (Some 40) True, UiKey (Some Quit) None True]
       \<lparr>ui_state = dashboard_new 0 None, ui_last_snapshot = snapshot_default, ui_last_instant = 0\<rparr> = (ui, ending)"
    by fastforce
  then have "ending = UiQuit" by (auto simp: Let_def split: prod.splits)
  with dashboard_run [OF r refl] r show ?thesis by blast
qed

end
