(* ===== verification/Render.thy ===== *)
theory Render
  imports Dashboard
begin

text \<open>
  What \<open>render\<close> in \<open>src/tui/widgets.rs\<close> puts on the screen: the texts, styles and chart of every
  panel as a function of the dashboard's state. The terminal library that lays the panels
  out and paints them is outside the repository: the height it gives to the two scrolling
  panels is an argument.
\<close>

section \<open>Styles\<close>

datatype color = ColBlack | ColCyan | ColDarkGray | ColYellow | ColRed | ColGreen

record style =
  sty_fg :: "color option"
  sty_bg :: "color option"
  sty_bold :: bool

definition style_default :: style where
  "style_default = \<lparr>sty_fg = None, sty_bg = None, sty_bold = False\<rparr>"

fun severity_style :: "severity \<Rightarrow> style" where
  "severity_style SevInfo = style_default"
| "severity_style SevDim = style_default\<lparr>sty_fg := Some ColDarkGray\<rparr>"
| "severity_style SevWarn = style_default\<lparr>sty_fg := Some ColYellow\<rparr>"
| "severity_style SevError = style_default\<lparr>sty_fg := Some ColRed\<rparr>"

record block =
  blk_title :: string
  blk_border :: style

definition block_titled :: "string \<Rightarrow> block" where
  "block_titled title = \<lparr>blk_title = title, blk_border = style_default\<rparr>"

definition panel_block :: "string \<Rightarrow> bool \<Rightarrow> block" where
  "panel_block title focused =
     (let b = block_titled title
      in if focused then b\<lparr>blk_border := style_default\<lparr>sty_fg := Some ColCyan, sty_bold := True\<rparr>\<rparr> else b)"

type_synonym line = "(string \<times> style) list"

section \<open>Title and throughput\<close>

definition KEYS :: string where
  "KEYS = ''tab:focus s:sort '' @ up_arrow @ down_arrow @ ''/jk:scroll q:quit''"

definition render_title :: "instant \<Rightarrow> dashboard \<Rightarrow> string \<times> style" where
  "render_title now st =
     (let up = fmt_hms (now - ds_start st);
          active = show_nat (unat (sn_active_conns (ds_snapshot st)));
          title = (case ds_listen_addr st of
              Some addr \<Rightarrow> '' next-socks5  -  '' @ addr @ ''  -  up '' @ up @ ''  -  active '' @ active @ ''  -  '' @ KEYS @ '' ''
            | None \<Rightarrow> '' next-socks5  -  up '' @ up @ ''  -  active '' @ active @ ''  -  '' @ KEYS @ '' '')
      in (title, \<lparr>sty_fg = Some ColBlack, sty_bg = Some ColCyan, sty_bold = True\<rparr>))"

definition render_throughput :: "dashboard \<Rightarrow> block \<times> line list" where
  "render_throughput st =
     (block_titled ''Throughput'',
      [[(''Up:   '' @ align_right 8 (fixed 1 (ds_up_kbps st)) @ '' KB/s  total '' @
           human_bytes (sn_bytes_up (ds_snapshot st)), style_default)],
       [(''Down: '' @ align_right 8 (fixed 1 (ds_down_kbps st)) @ '' KB/s  total '' @
           human_bytes (sn_bytes_down (ds_snapshot st)), style_default)],
       [(''peak  '' @ up_arrow @ show_nat (unat (rates_peak (ds_up_history st))) @ '' '' @ down_arrow @
           show_nat (unat (rates_peak (ds_down_history st))) @ '' KB/s'', style_default\<lparr>sty_fg := Some ColDarkGray\<rparr>)]])"

section \<open>The chart\<close>

record chart =
  ch_up :: "(f64 \<times> f64) list"
  ch_down :: "(f64 \<times> f64) list"
  ch_x_bounds :: "f64 \<times> f64"
  ch_y_bounds :: "f64 \<times> f64"
  ch_x_labels :: "string list"
  ch_y_labels :: "string list"

definition to_points :: "nat \<Rightarrow> u64 list \<Rightarrow> (f64 \<times> f64) list" where
  "to_points offset series = map (\<lambda>(i, v). (f64_of_nat (offset + i), as_f64 v)) (enumerate 0 series)"

definition render_chart :: "dashboard \<Rightarrow> block \<times> chart" where
  "render_chart st =
     (let up = rates_samples (ds_up_history st);
          down = rates_samples (ds_down_history st);
          window = rates_capacity (ds_up_history st);
          offset = window - length up;
          ymax = as_f64 (max (fold max (up @ down) 0) 1)
      in (block_titled ''Trend (30s)'',
          \<lparr>ch_up = to_points offset up, ch_down = to_points offset down,
           ch_x_bounds = (0, f64_of_nat (max window 1 - 1)), ch_y_bounds = (0, ymax),
           ch_x_labels = [''-30s'', ''-15s'', ''now''], ch_y_labels = rate_axis_labels ymax\<rparr>))"

section \<open>Connections\<close>

fun kind_name :: "conn_kind \<Rightarrow> string" where
  "kind_name KindConnect = ''CONNECT''"
| "kind_name KindUdp = ''UDP''"

definition conn_header :: "string list" where
  "conn_header = [''ID'', ''Source'', ''Target'', ''Kind'', ''Up'', ''Down'', ''Age'']"

definition conn_row :: "instant \<Rightarrow> (u64, instant) fmap \<Rightarrow> conn_info \<Rightarrow> string list" where
  "conn_row now first_seen c =
     [show_nat (unat (ci_id c)), show_sock (ci_src c), ci_target c, kind_name (ci_kind c),
      human_bytes (ci_up c), human_bytes (ci_down c),
      (case fmlookup first_seen (ci_id c) of Some t \<Rightarrow> fmt_age (now - t) | None \<Rightarrow> '''')]"

record table =
  tab_block :: block
  tab_header :: "string list"
  tab_rows :: "string list list"

text \<open>\<open>height\<close> is the area's, borders and header included.\<close>

definition render_connections :: "instant \<Rightarrow> nat \<Rightarrow> dashboard \<Rightarrow> table" where
  "render_connections now height st =
     (let tot = length (ds_connections st);
          avail = height - 3;
          (start, shown, hidden_above, hidden_below) = scroll_window tot avail (ds_conn_scroll st);
          rows = map (conn_row now (ds_first_seen st)) (take shown (drop start (ds_connections st)));
          focused = (ds_focus st = FocusConnections);
          title = ''Active connections ('' @ show_nat tot @ '')  sort:'' @ sort_label (ds_sort st) @
            scroll_hint hidden_above hidden_below
      in \<lparr>tab_block = panel_block title focused, tab_header = conn_header, tab_rows = rows\<rparr>)"

section \<open>Statistics and log\<close>

definition code_span :: "snapshot \<Rightarrow> nat \<Rightarrow> string \<times> style" where
  "code_span sn i =
     (code_text (sn_error_codes sn) i,
      style_default\<lparr>sty_fg := Some (if 0 < sn_error_codes sn ! i then ColYellow else ColDarkGray)\<rparr>)"

definition render_stats :: "dashboard \<Rightarrow> block \<times> line list" where
  "render_stats st =
     (let sn = ds_snapshot st;
          top_style = style_default\<lparr>sty_fg := Some (case top_error (sn_error_codes sn) of Some _ \<Rightarrow> ColYellow | None \<Rightarrow> ColDarkGray)\<rparr>
      in (block_titled ''Stats'',
          [[(''conns total='' @ show_nat (unat (sn_total_conns sn)) @ ''  active='' @ show_nat (unat (sn_active_conns sn)) @
             ''  ok='' @ show_nat (unat (sn_successes sn)) @ ''  fail='' @ show_nat (unat (sn_failures sn)) @
             ''  ('' @ fmt_pct (sn_successes sn) (sn_failures sn) @ '')'', style_default)],
           map (code_span sn) [1..<4],
           map (code_span sn) [4..<7],
           map (code_span sn) [7..<9],
           [(top_line sn, top_style)]]))"

definition render_log :: "nat \<Rightarrow> dashboard \<Rightarrow> block \<times> (string \<times> style) list" where
  "render_log height st =
     (let avail = height - 2;
          lines = log_lines (ds_log st);
          tot = length lines;
          max_off = tot - max avail 1;
          top_off = max_off - ds_log_scroll st;
          (start, shown, hidden_above, hidden_below) = scroll_window tot avail top_off;
          items = map (\<lambda>l. (ll_text l, severity_style (ll_severity l))) (take shown (drop start lines));
          focused = (ds_focus st = FocusLog);
          title = ''Log ('' @ show_nat tot @ '')'' @ scroll_hint hidden_above hidden_below
      in (panel_block title focused, items))"

record screen =
  scr_title :: "string \<times> style"
  scr_throughput :: "block \<times> line list"
  scr_stats :: "block \<times> line list"
  scr_chart :: "block \<times> chart"
  scr_connections :: table
  scr_log :: "block \<times> (string \<times> style) list"

text \<open>\<open>main_height\<close> is the height of the row of the two scrolling panels.\<close>

definition render :: "instant \<Rightarrow> nat \<Rightarrow> dashboard \<Rightarrow> screen" where
  "render now main_height st =
     \<lparr>scr_title = render_title now st, scr_throughput = render_throughput st,
      scr_stats = render_stats st, scr_chart = render_chart st,
      scr_connections = render_connections now main_height st, scr_log = render_log main_height st\<rparr>"

section \<open>Facts\<close>

lemma length_to_points [simp]: "length (to_points n xs) = length xs"
  by (simp add: to_points_def)






lemma render_log_view:
  "snd (render_log h st) = map (\<lambda>l. (ll_text l, severity_style (ll_severity l))) (log_view (h - 2) st)"
  by (simp add: render_log_def log_view_def log_lines_def Let_def split: prod.split)

lemma panel_block_title [simp]: "blk_title (panel_block title focused) = title"
  by (simp add: panel_block_def block_titled_def Let_def)

lemma panel_block_border: "blk_border (panel_block title focused) = style_default \<longleftrightarrow> \<not> focused"
  by (simp add: panel_block_def block_titled_def Let_def style_default_def)

lemma window_length: "start + shown + hidden = length xs \<Longrightarrow> length (map f (take shown (drop start xs))) = shown"
  by simp

lemma render_connections_window:
  assumes "scroll_window (length (ds_connections st)) (height - 3) (ds_conn_scroll st) = (start, shown, u, v)"
  shows "render_connections now height st =
    \<lparr>tab_block = panel_block (''Active connections ('' @ show_nat (length (ds_connections st)) @ '')  sort:'' @
         sort_label (ds_sort st) @ scroll_hint u v) (ds_focus st = FocusConnections),
     tab_header = conn_header,
     tab_rows = map (conn_row now (ds_first_seen st)) (take shown (drop start (ds_connections st)))\<rparr>"
  by (simp only: render_connections_def Let_def assms prod.case)

lemma render_log_window:
  assumes "lines = lr_buf (ds_log st)"
    and "scroll_window (length lines) (height - 2) (length lines - max (height - 2) 1 - ds_log_scroll st) = (start, shown, u, v)"
  shows "render_log height st =
    (panel_block (''Log ('' @ show_nat (length lines) @ '')'' @ scroll_hint u v) (ds_focus st = FocusLog),
     map (\<lambda>l. (ll_text l, severity_style (ll_severity l))) (take shown (drop start lines)))"
  using assms by (simp only: render_log_def log_lines_def Let_def prod.case)

section \<open>Properties\<close>






definition chart_ui :: dashboard where
  "chart_ui = (dashboard_new 0 None)\<lparr>ds_up_history := rates_push 7 (rates_push 3 (rates_new RATE_HISTORY)),
     ds_down_history := rates_push 0 (rates_push 9 (rates_new RATE_HISTORY))\<rparr>"

lemma chart_ui_ok: "ui_ok chart_ui"
  using dashboard_new_ok [of 0 None] rates_new_ok [of RATE_HISTORY]
  by (simp add: chart_ui_def ui_ok_def rates.push_valid rates.length_push)
    (simp add: rates_push_def rates_new_def RATE_HISTORY_def)

lemma connections_panel:
  assumes "render now height st = scr" and "n = length (ds_connections st)" and "rows = tab_rows (scr_connections scr)"
  shows "\<exists>above' below'. above' + length rows + below' = n \<and> length rows = min (max (height - 3) 1) n \<and>
    rows = map (conn_row now (ds_first_seen st)) (take (length rows) (drop above' (ds_connections st))) \<and>
    blk_title (tab_block (scr_connections scr)) =
      ''Active connections ('' @ show_nat n @ '')  sort:'' @ sort_label (ds_sort st) @ scroll_hint above' below'"
proof -
  obtain s1 k1 a1 b1 where w1: "scroll_window (length (ds_connections st)) (height - 3) (ds_conn_scroll st) = (s1, k1, a1, b1)"
    by (metis prod_cases4)
  note f1 = scroll_window_facts [OF w1]
  have r1: "rows = map (conn_row now (ds_first_seen st)) (take k1 (drop a1 (ds_connections st)))"
    and t1: "blk_title (tab_block (scr_connections scr)) =
      ''Active connections ('' @ show_nat n @ '')  sort:'' @ sort_label (ds_sort st) @ scroll_hint a1 b1"
    unfolding assms(2,3) assms(1) [symmetric] render_def screen.simps render_connections_window [OF w1] table.simps f1(2)
    by simp_all
  have "length rows = k1" unfolding r1 f1(2) by (rule window_length [OF f1(1)])
  then show ?thesis
    using f1(1,3) r1 t1 unfolding f1(2) assms(2) [symmetric]
    by - (rule exI [where x = s1], rule exI [where x = b1], simp only: simp_thms)
qed

lemma log_panel:
  assumes "render now height st = scr" and "lines = lr_buf (ds_log st)" and "items = snd (scr_log scr)"
  shows "\<exists>above' below'. above' + length items + below' = length lines \<and>
    length items = min (max (height - 2) 1) (length lines) \<and>
    items = map (\<lambda>l. (ll_text l, severity_style (ll_severity l))) (take (length items) (drop above' lines)) \<and>
    blk_title (fst (scr_log scr)) = ''Log ('' @ show_nat (length lines) @ '')'' @ scroll_hint above' below'"
proof -
  let ?off = "length lines - max (height - 2) 1 - ds_log_scroll st"
  obtain s2 k2 a2 b2 where w2: "scroll_window (length lines) (height - 2) ?off = (s2, k2, a2, b2)" by (metis prod_cases4)
  note f2 = scroll_window_facts [OF w2]
  have r2: "items = map (\<lambda>l. (ll_text l, severity_style (ll_severity l))) (take k2 (drop a2 lines))"
    and t2: "blk_title (fst (scr_log scr)) = ''Log ('' @ show_nat (length lines) @ '')'' @ scroll_hint a2 b2"
    unfolding assms(3) assms(1) [symmetric] render_def screen.simps render_log_window [OF assms(2) w2] f2(2)
    by simp_all
  have "length items = k2" unfolding r2 f2(2) by (rule window_length [OF f2(1)])
  then show ?thesis
    using f2(1,3) r2 t2 unfolding f2(2)
    by - (rule exI [where x = s2], rule exI [where x = b2], simp only: simp_thms)
qed

text \<open>The scrolling panels account for everything they list. The connection table shows a
  contiguous run of the sorted connections, as many as fit (at least one row when there is
  one), and its title names the total, the sort order and exactly how many are hidden
  above and below; every row has seven cells, and its age is counted from the connection's
  first sighting, which is always known. The log panel does the same for its lines, and
  exactly the panel that has the focus has the highlighted border.\<close>

theorem panels_account:
  assumes "ui_ok st" and "render now height st = scr"
    and "n = length (ds_connections st)" and "rows = tab_rows (scr_connections scr)"
    and "lines = lr_buf (ds_log st)" and "items = snd (scr_log scr)"
  shows "(\<exists>above' below'. above' + length rows + below' = n \<and> length rows = min (max (height - 3) 1) n \<and>
      rows = map (conn_row now (ds_first_seen st)) (take (length rows) (drop above' (ds_connections st))) \<and>
      blk_title (tab_block (scr_connections scr)) =
        ''Active connections ('' @ show_nat n @ '')  sort:'' @ sort_label (ds_sort st) @ scroll_hint above' below') \<and>
    (\<forall>c \<in> set (ds_connections st). \<exists>t. fmlookup (ds_first_seen st) (ci_id c) = Some t \<and>
      last (conn_row now (ds_first_seen st) c) = fmt_age (now - t)) \<and>
    (\<exists>above' below'. above' + length items + below' = length lines \<and>
      length items = min (max (height - 2) 1) (length lines) \<and>
      items = map (\<lambda>l. (ll_text l, severity_style (ll_severity l))) (take (length items) (drop above' lines)) \<and>
      blk_title (fst (scr_log scr)) = ''Log ('' @ show_nat (length lines) @ '')'' @ scroll_hint above' below') \<and>
    (blk_border (tab_block (scr_connections scr)) = style_default \<longleftrightarrow>
      blk_border (fst (scr_log scr)) \<noteq> style_default)"
proof (intro conjI ballI)
  fix c assume "c \<in> set (ds_connections st)"
  then have "ci_id c |\<in>| fmdom (ds_first_seen st)" using assms(1) by (simp add: ui_ok_def)
  then obtain t where "fmlookup (ds_first_seen st) (ci_id c) = Some t" by (auto simp: fmlookup_dom_iff)
  then show "\<exists>t. fmlookup (ds_first_seen st) (ci_id c) = Some t \<and> last (conn_row now (ds_first_seen st) c) = fmt_age (now - t)"
    by (simp add: conn_row_def)
next
  show "blk_border (tab_block (scr_connections scr)) = style_default \<longleftrightarrow>
      blk_border (fst (scr_log scr)) \<noteq> style_default"
    unfolding assms(2) [symmetric] render_def screen.simps
    by (cases "ds_focus st") (simp_all add: render_connections_def render_log_def Let_def panel_block_border split: prod.split)
qed (rule connections_panel [OF assms(2,3,4)], rule log_panel [OF assms(2,5,6)])

theorem panels_account_witness:
  "length (tab_rows (scr_connections (render 9 20 chart_ui))) = 0 \<and>
   (blk_border (tab_block (scr_connections (render 9 20 chart_ui))) = style_default \<longleftrightarrow>
      blk_border (fst (scr_log (render 9 20 chart_ui))) \<noteq> style_default)"
  using panels_account [OF chart_ui_ok refl refl refl refl refl, of 9 20]
  by (auto simp: chart_ui_def dashboard_new_def)

end
