(* ===== verification/Sources.thy ===== *)
theory Sources
  imports Render
begin

text \<open>
  \<open>MetricsSource\<close> in \<open>src/metrics.rs\<close>: what the dashboard reads, implemented by the server's own
  metrics and by the state an attached client decodes (\<open>src/admin/client.rs\<close>). The contract is
  a locale, interpreted on both; an attached dashboard shows what a local one would.
\<close>

section \<open>Definitions\<close>

datatype metrics_source = LocalMetrics metrics | RemoteState remote

fun source_snapshot :: "metrics_source \<Rightarrow> snapshot" where
  "source_snapshot (LocalMetrics m) = metrics_snapshot m"
| "source_snapshot (RemoteState r) = rs_snapshot r"

text \<open>\<open>connections\<close> of the local metrics lists the registry in the hash map's unspecified order, so
  it is a relation: the listings it may give. The remote state hands out its own list.\<close>

fun source_connections :: "metrics_source \<Rightarrow> conn_info list \<Rightarrow> bool" where
  "source_connections (LocalMetrics m) cs \<longleftrightarrow> distinct cs \<and> fset_of_list cs = connections m"
| "source_connections (RemoteState r) cs \<longleftrightarrow> cs = rs_connections r"

lemma fset_of_list_iff: "fset_of_list cs = A \<longleftrightarrow> set cs = fset A"
  by (metis fset_inject fset_of_list.rep_eq)

section \<open>The contract\<close>

locale dashboard_source =
  fixes snap :: "'s \<Rightarrow> snapshot"
    and lists :: "'s \<Rightarrow> conn_info list \<Rightarrow> bool"
    and valid :: "'s \<Rightarrow> bool"
  assumes listing_exists: "\<exists>cs. lists s cs"
    and listing_unique: "lists s cs \<Longrightarrow> lists s ds \<Longrightarrow> mset ds = mset cs"
    and listing_ids: "valid s \<Longrightarrow> lists s cs \<Longrightarrow> distinct (map ci_id cs)"
begin

text \<open>A tick does not depend on the order of the listing, and two valid sources that agree on
  one listing drive the dashboard alike.\<close>

lemma tick_order:
  assumes "valid s" and "lists s cs" and "mset ds = mset cs"
  shows "ui_tick now (snap s) ds items height ui = ui_tick now (snap s) cs items height ui"
proof -
  have set: "set ds = set cs" using assms(3) by (rule mset_eq_setD)
  have seen: "track_seen now ds seen = track_seen now cs seen" for seen
    by (rule fmap_ext) (simp add: track_seen_lookup set)
  have sorted: "sort_connections k fs ds = sort_connections k fs cs" for k fs
    using sort_connections_unique [OF listing_ids [OF assms(1,2)] assms(3)] .
  show ?thesis by (simp only: ui_tick_def seen sorted)
qed

end

definition source_valid :: "metrics_source \<Rightarrow> bool" where
  "source_valid s \<longleftrightarrow>
     (case s of LocalMetrics m \<Rightarrow> metrics_ok m | RemoteState r \<Rightarrow> distinct (map ci_id (rs_connections r)))"

lemma connections_ids:
  assumes "metrics_ok m" and "a |\<in>| connections m" and "b |\<in>| connections m" and "ci_id a = ci_id b"
  shows "a = b"
proof -
  obtain i j where "fmlookup (registry m) i = Some a" "fmlookup (registry m) j = Some b"
    using assms(2,3) by (auto simp: connections_def fmlookup_ran_iff)
  then show ?thesis using assms(1,4) unfolding metrics_ok_def by (metis option.inject)
qed

lemma listed_ids:
  assumes "metrics_ok m"
  shows "ci_id ` fset (connections m) = live_ids m"
proof -
  have id: "ci_id info = i" if "fmlookup (registry m) i = Some info" for i info
    using assms that by (simp add: metrics_ok_def)
  show ?thesis
  proof (intro set_eqI iffI)
    fix i assume "i \<in> ci_id ` fset (connections m)"
    then obtain info j where "i = ci_id info" "fmlookup (registry m) j = Some info"
      by (auto simp: connections_def fmlookup_ran_iff)
    then show "i \<in> live_ids m" using id [of j info] by (simp add: live_ids_def fmlookup_dom_iff)
  next
    fix i assume "i \<in> live_ids m"
    then obtain info where l: "fmlookup (registry m) i = Some info" by (auto simp: live_ids_def fmlookup_dom_iff)
    then have "info \<in> fset (connections m)" by (auto simp: connections_def fmlookup_ran_iff)
    then show "i \<in> ci_id ` fset (connections m)" using id [OF l] by blast
  qed
qed

interpretation src: dashboard_source source_snapshot source_connections source_valid
proof
  fix s show "\<exists>cs. source_connections s cs"
  proof (cases s)
    case (LocalMetrics m)
    obtain cs where "set cs = fset (connections m)" "distinct cs"
      by (metis finite_distinct_list finite_fset)
    then have "source_connections s cs" by (simp add: LocalMetrics fset_of_list_iff)
    then show ?thesis ..
  qed simp
next
  fix s cs ds assume "source_connections s cs" "source_connections s ds"
  then show "mset ds = mset cs"
  proof (cases s)
    case (LocalMetrics m)
    then have d: "distinct cs" "distinct ds" and "fset_of_list ds = fset_of_list cs"
      using \<open>source_connections s cs\<close> \<open>source_connections s ds\<close> by simp_all
    then have "set ds = set cs" by (metis fset_of_list.rep_eq)
    then show ?thesis using set_eq_iff_mset_eq_distinct [OF d(2,1)] by blast
  qed simp
next
  fix s cs assume v: "source_valid s" and l: "source_connections s cs"
  show "distinct (map ci_id cs)"
  proof (cases s)
    case (LocalMetrics m)
    then have "set cs = fset (connections m)" "distinct cs"
      using l by (simp_all add: fset_of_list_iff)
    moreover have "inj_on ci_id (fset (connections m))"
      using v LocalMetrics connections_ids [of m] by (auto simp: inj_on_def source_valid_def)
    ultimately show ?thesis by (simp add: distinct_map)
  qed (use v l in \<open>simp add: source_valid_def\<close>)
qed

section \<open>Properties\<close>

text \<open>C14: an attached dashboard shows what the server's own would. When the last sample a session
  pushes is the server's metrics, listed in any order, then however the bytes are cut on the
  way, a tick of a dashboard fed by \<open>attach\<close> gives exactly the state, and so the screen, that
  the same tick gives from the metrics themselves, whatever order each side lists the
  connections in.\<close>

theorem attached_dashboard_agrees:
  assumes "codec_ok enc dec" and "metrics_ok m" and "source_connections (LocalMetrics m) cs"
    and "handle_client enc replay la es c = (c', st)" and "st = ClientServing \<or> st = ClientDone"
    and "last_stats (snapshot_default, []) (push_frames es) = (metrics_snapshot m, cs)"
    and "tx c = []" and "stream_data items = tx c'" and "stream_end items = EndEof"
    and "attach dec (Inr items) = AttachUi la' (r, ended)"
    and "source_connections (RemoteState r) ds" and "source_connections (LocalMetrics m) ds'"
  shows "ui_tick now (source_snapshot (RemoteState r)) ds queued height ui =
    ui_tick now (source_snapshot (LocalMetrics m)) ds' queued height ui"
proof -
  let ?fs = "map FrameEvent replay @ push_frames es"
  have "r = (fold on_frame ?fs remote_new)\<lparr>rs_lost := True, rs_shutdown := True\<rparr>"
    using attach_session [OF assms(1,4,5,7-9)] assms(10) by simp
  then have r: "rs_snapshot r = metrics_snapshot m" "rs_connections r = cs"
    using fold_on_frame(2) [of ?fs remote_new] assms(6) by (auto simp: remote_new_def)
  have v: "source_valid (LocalMetrics m)" using assms(2) by (simp add: source_valid_def)
  have "mset ds = mset ds'" using src.listing_unique [OF assms(12,3)] assms(11) r(2) by simp
  from src.tick_order [OF v assms(12) this] show ?thesis using r(1) by simp
qed

text \<open>A serializer for one sample, to run the property on.\<close>

definition one_conn :: metrics where
  "one_conn = snd (register metrics_new (SockV4 (Ipv4 10 0 0 1) 4000) ''a'' KindConnect)"

definition one_listing :: "conn_info list" where
  "one_listing = [\<lparr>ci_id = 1, ci_src = SockV4 (Ipv4 10 0 0 1) 4000, ci_target = ''a'', ci_kind = KindConnect, ci_up = 0, ci_down = 0\<rparr>]"

definition stats_encoder :: "unit encoder" where
  "stats_encoder f =
     (if f = Hello PROTO_VERSION None then Inr [7]
      else if f = Stats (metrics_snapshot one_conn) one_listing then Inr [8, 9] else Inl ())"

definition stats_decoder :: "unit decoder" where
  "stats_decoder b =
     (if b = [7] then Inr (Hello PROTO_VERSION None)
      else if b = [8, 9] then Inr (Stats (metrics_snapshot one_conn) one_listing) else Inl ())"

lemma stats_session:
  "handle_client stats_encoder [] None [Tick (metrics_snapshot one_conn) one_listing, PushShutdown None] unix_conn
     = (unix_conn\<lparr>tx := [0, 0, 0, 1, 7, 0, 0, 0, 2, 8, 9]\<rparr>, ClientDone)"
proof -
  have "\<not> MAX_FRAME_LEN < 1" "\<not> MAX_FRAME_LEN < 2" by (simp_all add: MAX_FRAME_LEN_def)
  then show ?thesis using short_prefixes
    by (simp add: handle_client_def write_frame_def stats_encoder_def write_all_def unix_conn_def)
qed

theorem attached_dashboard_agrees_witness:
  "\<exists>r. attach stats_decoder (Inr [Rx [0, 0, 0], Rx [1, 7, 0, 0, 0, 2, 8], Rx [9], Rx []]) = AttachUi None (r, True) \<and>
     ui_tick 5 (source_snapshot (RemoteState r)) (rs_connections r) [] (Some 40) sample_ui =
     ui_tick 5 (source_snapshot (LocalMetrics one_conn)) one_listing [] (Some 40) sample_ui"
proof -
  let ?items = "[Rx [0, 0, 0], Rx [1, 7, 0, 0, 0, 2, 8], Rx [9], Rx []]"
  have codec: "codec_ok stats_encoder stats_decoder"
    by (auto simp: codec_ok_def stats_encoder_def stats_decoder_def split: if_splits)
  have io: "tx unix_conn = []" "stream_data ?items = [0, 0, 0, 1, 7, 0, 0, 0, 2, 8, 9]" "stream_end ?items = EndEof"
    by (simp_all add: unix_conn_def)
  obtain r where r: "attach stats_decoder (Inr ?items) = AttachUi None (r, True)"
    using attach_session [OF codec stats_session, of ?items] io by simp
  have m: "metrics_ok one_conn" unfolding one_conn_def
    by (rule metrics_ok_register) (use metrics_ok_new in \<open>simp_all add: ids_left_def metrics_new_def\<close>)
  have l: "source_connections (LocalMetrics one_conn) one_listing"
    by (auto simp: one_conn_def one_listing_def register_def Let_def connections_def metrics_new_def fmlookup_ran_iff
        split: if_splits)
  show ?thesis
    using attached_dashboard_agrees [OF codec m l stats_session, of ?items None r True] io r l by auto
qed

end
