(* ===== verification/Terminal.thy ===== *)
theory Terminal
  imports Dashboard
begin

text \<open>
  The shell of \<open>run\<close> in \<open>src/tui/mod.rs\<close>: entering and leaving the terminal (\<open>TerminalGuard\<close>), the
  panic hook, the reader thread's stop flag and the event loop between them. The terminal
  library is outside the repository: its four operations are parameters that change the
  terminal and tell whether they succeeded.
\<close>

section \<open>Definitions\<close>

record 't tty =
  tty_enable_raw :: "'t \<Rightarrow> 't \<times> bool"
  tty_disable_raw :: "'t \<Rightarrow> 't \<times> bool"
  tty_enter_alternate :: "'t \<Rightarrow> 't \<times> bool"
  tty_leave_alternate :: "'t \<Rightarrow> 't \<times> bool"

text \<open>\<open>TerminalGuard::enter\<close>; the flag tells whether there is a guard.\<close>

definition guard_enter :: "'t tty \<Rightarrow> 't \<Rightarrow> 't \<times> bool" where
  "guard_enter ops t =
     (case tty_enable_raw ops t of
        (t, False) \<Rightarrow> (t, False)
      | (t, True) \<Rightarrow>
          (case tty_enter_alternate ops t of
             (t, False) \<Rightarrow> (t, False)
           | (t, True) \<Rightarrow> (t, True)))"

text \<open>\<open>Drop for TerminalGuard\<close>: both calls are made whatever the first one gives.\<close>

definition guard_drop :: "'t tty \<Rightarrow> 't \<Rightarrow> 't" where
  "guard_drop ops t =
     (case tty_disable_raw ops t of (t, _) \<Rightarrow> (case tty_leave_alternate ops t of (t, _) \<Rightarrow> t))"

text \<open>The hook of \<open>install_panic_hook\<close>: the previous hook runs after the terminal is restored.\<close>

definition panic_hook :: "'t tty \<Rightarrow> ('t \<Rightarrow> 't) \<Rightarrow> 't \<Rightarrow> 't" where
  "panic_hook ops prev t =
     (case tty_disable_raw ops t of (t, _) \<Rightarrow> (case tty_leave_alternate ops t of (t, _) \<Rightarrow> prev t))"

text \<open>What happens while the function runs: how the two set-up calls on the drawing library end,
  the branches of the loop, and whether it panics after them.\<close>

record run_env =
  env_terminal_new :: bool
  env_clear :: bool
  env_start :: instant
  env_snapshot :: snapshot
  env_events :: "ui_event list"
  env_panics :: bool

datatype run_exit = RunGoing | RunOk | RunErr | RunPanicked

record 't run_result =
  rr_tty :: 't
  rr_exit :: run_exit
  rr_shutdown_sent :: bool
  rr_reader_started :: bool
  rr_reader_joined :: bool \<comment> \<open>after \<open>reader_stop\<close> was set\<close>

definition run_ended :: "'t tty \<Rightarrow> ('t \<Rightarrow> 't) \<Rightarrow> run_env \<Rightarrow> ui_end \<Rightarrow> 't \<Rightarrow> 't run_result" where
  "run_ended ops prev env ending t =
     (case ending of
        UiRunning \<Rightarrow>
          if env_panics env
          then \<lparr>rr_tty = guard_drop ops (panic_hook ops prev t), rr_exit = RunPanicked,
                rr_shutdown_sent = False, rr_reader_started = True, rr_reader_joined = False\<rparr>
          else \<lparr>rr_tty = t, rr_exit = RunGoing,
                rr_shutdown_sent = False, rr_reader_started = True, rr_reader_joined = False\<rparr>
      | UiFailed \<Rightarrow>
          \<lparr>rr_tty = guard_drop ops t, rr_exit = RunErr,
           rr_shutdown_sent = False, rr_reader_started = True, rr_reader_joined = False\<rparr>
      | _ \<Rightarrow>
          \<lparr>rr_tty = guard_drop ops t, rr_exit = RunOk,
           rr_shutdown_sent = (ending = UiQuit), rr_reader_started = True, rr_reader_joined = True\<rparr>)"

definition tui_run ::
  "'t tty \<Rightarrow> ('t \<Rightarrow> 't) \<Rightarrow> run_env \<Rightarrow> string option \<Rightarrow> 't \<Rightarrow> 't run_result" where
  "tui_run ops prev env listen_addr t =
     (let failed = (\<lambda>t. \<lparr>rr_tty = t, rr_exit = RunErr, rr_shutdown_sent = False,
            rr_reader_started = False, rr_reader_joined = False\<rparr>)
      in case guard_enter ops t of
           (t, False) \<Rightarrow> failed t
         | (t, True) \<Rightarrow>
             if \<not> env_terminal_new env then failed (guard_drop ops t)
             else if \<not> env_clear env then failed (guard_drop ops t)
             else case ui_run (env_events env)
                 \<lparr>ui_state = dashboard_new (env_start env) listen_addr,
                  ui_last_snapshot = env_snapshot env, ui_last_instant = env_start env\<rparr> of
                 (ui, ending) \<Rightarrow> run_ended ops prev env ending t)"

section \<open>The terminal library\<close>

text \<open>What is documented of the four operations: each sets or clears its own mode when it
  succeeds, and otherwise changes neither. \<open>raw\<close> and \<open>alt\<close> read the two modes off the terminal.\<close>

definition tty_sets :: "('t \<Rightarrow> 't \<times> bool) \<Rightarrow> ('t \<Rightarrow> bool) \<Rightarrow> bool \<Rightarrow> ('t \<Rightarrow> bool) \<Rightarrow> bool" where
  "tty_sets f mode v other \<longleftrightarrow>
     (\<forall>t. mode (fst (f t)) = (if snd (f t) then v else mode t) \<and> other (fst (f t)) = other t)"

definition tty_ok :: "'t tty \<Rightarrow> ('t \<Rightarrow> bool) \<Rightarrow> ('t \<Rightarrow> bool) \<Rightarrow> bool" where
  "tty_ok ops raw alt \<longleftrightarrow>
     tty_sets (tty_enable_raw ops) raw True alt \<and> tty_sets (tty_disable_raw ops) raw False alt \<and>
     tty_sets (tty_enter_alternate ops) alt True raw \<and> tty_sets (tty_leave_alternate ops) alt False raw"

text \<open>Leaving a mode succeeds.\<close>

definition tty_restores :: "'t tty \<Rightarrow> bool" where
  "tty_restores ops \<longleftrightarrow> (\<forall>t. snd (tty_disable_raw ops t) \<and> snd (tty_leave_alternate ops t))"

section \<open>Facts\<close>

lemma tty_setsD: "tty_sets f mode v other \<Longrightarrow> f t = (t', ok) \<Longrightarrow>
    mode t' = (if ok then v else mode t) \<and> other t' = other t"
  unfolding tty_sets_def by (metis fst_conv snd_conv)

lemma guard_drop_restores:
  assumes "tty_ok ops raw alt" and "tty_restores ops"
  shows "\<not> raw (guard_drop ops t)" "\<not> alt (guard_drop ops t)"
proof -
  obtain t1 o1 where 1: "tty_disable_raw ops t = (t1, o1)" by fastforce
  obtain t2 o2 where 2: "tty_leave_alternate ops t1 = (t2, o2)" by fastforce
  have "o1" "o2" using assms(2) 1 2 by (metis snd_conv tty_restores_def)+
  then have "\<not> raw t1" "raw t2 = raw t1" "\<not> alt t2"
    using assms(1) tty_setsD [where f = "tty_disable_raw ops", OF _ 1, of raw False alt]
      tty_setsD [where f = "tty_leave_alternate ops", OF _ 2, of alt False raw] by (auto simp: tty_ok_def)
  then show "\<not> raw (guard_drop ops t)" "\<not> alt (guard_drop ops t)" by (simp_all add: guard_drop_def 1 2)
qed

text \<open>A guard means both modes are on; without one, raw mode is left on exactly when the
  alternate screen could not be entered after it.\<close>

lemma guard_enter_modes:
  assumes "tty_ok ops raw alt" and "\<not> raw t" and "\<not> alt t" and "guard_enter ops t = (t', guarded)"
  shows "\<not> guarded \<Longrightarrow> \<not> alt t' \<and> (raw t' \<longleftrightarrow> snd (tty_enable_raw ops t))"
    "guarded \<Longrightarrow> raw t' \<and> alt t'"
proof -
  obtain t1 o1 where 1: "tty_enable_raw ops t = (t1, o1)" by fastforce
  obtain t2 o2 where 2: "tty_enter_alternate ops t1 = (t2, o2)" by fastforce
  note s = tty_setsD [where f = "tty_enable_raw ops", OF _ 1, of raw True alt]
    tty_setsD [where f = "tty_enter_alternate ops", OF _ 2, of alt True raw]
  show "\<not> guarded \<Longrightarrow> \<not> alt t' \<and> (raw t' \<longleftrightarrow> snd (tty_enable_raw ops t))" "guarded \<Longrightarrow> raw t' \<and> alt t'"
    using assms s by (cases o1; cases o2; auto simp: guard_enter_def tty_ok_def 1 2)+
qed

section \<open>Properties\<close>

text \<open>C15: the terminal is given back. Starting from an ordinary terminal, whenever \<open>run\<close> is over,
  by returning, by an error of any of its calls or by a panic, the alternate screen has been
  left and raw mode is off, as long as leaving a mode succeeds, with one exception: when raw
  mode was entered and the alternate screen could not be, no guard exists yet and raw mode
  stays on. The shutdown is requested only by a quit key, and the reader thread is stopped
  and joined exactly when \<open>run\<close> returns without an error.\<close>

theorem terminal_restored:
  assumes "tty_ok ops raw alt" and "tty_restores ops" and "\<not> raw t" and "\<not> alt t"
    and "tui_run ops prev env la t = res" and "rr_exit res \<noteq> RunGoing"
  shows "\<not> alt (rr_tty res) \<and>
    (raw (rr_tty res) \<longleftrightarrow>
       snd (tty_enable_raw ops t) \<and> \<not> snd (tty_enter_alternate ops (fst (tty_enable_raw ops t)))) \<and>
    (rr_shutdown_sent res \<longrightarrow> rr_exit res = RunOk \<and> (\<exists>h d. UiKey (Some Quit) h d \<in> set (env_events env))) \<and>
    (rr_reader_joined res \<longleftrightarrow> rr_exit res = RunOk)"
proof -
  obtain t' guarded where g: "guard_enter ops t = (t', guarded)" by fastforce
  have gd: "guarded \<longleftrightarrow> snd (tty_enable_raw ops t) \<and> snd (tty_enter_alternate ops (fst (tty_enable_raw ops t)))"
    using g by (auto simp: guard_enter_def split: prod.splits bool.splits)
  note drop = guard_drop_restores [OF assms(1,2)]
  show ?thesis
  proof (cases guarded)
    case False
    then show ?thesis using guard_enter_modes(1) [OF assms(1,3,4) g] gd g assms(5)
      by (auto simp: tui_run_def)
  next
    case True
    obtain ui ending where u: "ui_run (env_events env) \<lparr>ui_state = dashboard_new (env_start env) la,
        ui_last_snapshot = env_snapshot env, ui_last_instant = env_start env\<rparr> = (ui, ending)" by fastforce
    note quit = ui_run_quit [of "env_events env" _ ui]
    show ?thesis using True g gd assms(5,6) drop u quit
      by (auto simp: tui_run_def run_ended_def Let_def split: ui_end.splits if_splits)
  qed
qed

definition plain_tty :: "bool \<Rightarrow> (bool \<times> bool) tty" where
  "plain_tty enters =
     \<lparr>tty_enable_raw = (\<lambda>(r, a). ((True, a), True)), tty_disable_raw = (\<lambda>(r, a). ((False, a), True)),
      tty_enter_alternate = (\<lambda>(r, a). ((r, a \<or> enters), enters)), tty_leave_alternate = (\<lambda>(r, a). ((r, False), True))\<rparr>"

definition quit_env :: run_env where
  "quit_env =
     \<lparr>env_terminal_new = True, env_clear = True, env_start = 0, env_snapshot = snapshot_default,
      env_events = [UiKey (Some SwitchFocus) (Some 40) True, UiKey (Some Quit) None True], env_panics = False\<rparr>"

lemma plain_tty_ok: "tty_ok (plain_tty enters) fst snd" "tty_restores (plain_tty enters)"
  by (auto simp: tty_ok_def tty_sets_def tty_restores_def plain_tty_def)

theorem terminal_restored_witness:
  "\<exists>r1 r2. tui_run (plain_tty True) id quit_env None (False, False) = r1 \<and> rr_exit r1 = RunOk \<and>
     \<not> fst (rr_tty r1) \<and> rr_reader_joined r1 \<and>
     tui_run (plain_tty False) id quit_env None (False, False) = r2 \<and> rr_exit r2 = RunErr \<and> fst (rr_tty r2)"
proof -
  obtain r1 where r1: "tui_run (plain_tty True) id quit_env None (False, False) = r1" by blast
  obtain r2 where r2: "tui_run (plain_tty False) id quit_env None (False, False) = r2" by blast
  have e: "rr_exit r1 = RunOk" "rr_exit r2 = RunErr"
    using r1 r2 by (auto simp: tui_run_def guard_enter_def plain_tty_def quit_env_def run_ended_def Let_def split: prod.splits)
  show ?thesis
    using terminal_restored [OF plain_tty_ok _ _ r1] terminal_restored [OF plain_tty_ok _ _ r2] e r1 r2
    by (auto simp: plain_tty_def)
qed

end
