(* ===== verification/Admin_Server.thy ===== *)
theory Admin_Server
  imports Admin_Proto
begin

text \<open>
  \<open>src/admin/ring.rs\<close> and \<open>src/admin/server.rs\<close>: the ring of recent events with the task that
  fills it, the accept loop of the attach endpoint, and the claim of its socket path. The
  claim is a sequence of system calls that other processes' calls may interleave with, so it
  is a transition system over a file system shared by any number of processes; the loop is
  one over the event bus, the filler and the clients.
\<close>

section \<open>The ring of recent events\<close>

definition ADMIN_EVENT_RING_CAPACITY :: usize where
  "ADMIN_EVENT_RING_CAPACITY = 500"

record event_ring =
  ring_inner :: "event list"

definition event_ring_new :: event_ring where
  "event_ring_new = \<lparr>ring_inner = []\<rparr>"

definition ring_push :: "event \<Rightarrow> event_ring \<Rightarrow> event_ring" where
  "ring_push ev r =
     (let q = ring_inner r;
          q = (if length q = ADMIN_EVENT_RING_CAPACITY then tl q else q)
      in r\<lparr>ring_inner := q @ [ev]\<rparr>)"

definition ring_snapshot :: "event_ring \<Rightarrow> event list" where
  "ring_snapshot r = ring_inner r"

text \<open>The filler's loop over what its receiver yields; the flag tells whether it has ended.\<close>

fun filler :: "event recv_result list \<Rightarrow> event_ring \<Rightarrow> event_ring \<times> bool" where
  "filler [] r = (r, False)"
| "filler (RecvOk ev # es) r = filler es (ring_push ev r)"
| "filler (RecvLagged n # es) r = filler es r"
| "filler (RecvClosed # es) r = (r, True)"

definition ring_ok :: "event_ring \<Rightarrow> bool" where
  "ring_ok r \<longleftrightarrow> length (ring_inner r) \<le> ADMIN_EVENT_RING_CAPACITY"

interpretation ring: bounded_log ring_push ring_snapshot "\<lambda>_. ADMIN_EVENT_RING_CAPACITY" ring_ok
  by unfold_locales
    (auto simp: ring_push_def ring_snapshot_def ring_ok_def Let_def ADMIN_EVENT_RING_CAPACITY_def)

lemma event_ring_new_ok [simp]: "ring_ok event_ring_new" "ring_snapshot event_ring_new = []"
  by (simp_all add: ring_ok_def event_ring_new_def ring_snapshot_def)

section \<open>Claiming the socket path\<close>

definition lock_path_for :: "string \<Rightarrow> string" where
  "lock_path_for socket_path = socket_path @ ''.lock''"

definition already_running :: "string \<Rightarrow> io_error" where
  "already_running socket_path =
     IoError IoAddrInUse (''admin socket '' @ socket_path @
       '' is already served by a live next-socks5 instance'')"

text \<open>\<open>socket_is_live\<close>, from what \<open>connect\<close> returned.\<close>

fun socket_is_live :: "(unit, io_error) result \<Rightarrow> (bool, io_error) result" where
  "socket_is_live (Inr u) = Inr True"
| "socket_is_live (Inl (IoError k text)) =
     (if k = IoConnectionRefused \<or> k = IoNotFound then Inr False else Inl (IoError k text))"

text \<open>The path's inode: a socket, bound by a process, or something else.\<close>

datatype node = NodeSock nat | NodeOther

record fs =
  fs_node :: "node option"
  fs_mode :: u32 \<comment> \<open>the inode's permission bits\<close>
  fs_listening :: "nat set" \<comment> \<open>processes whose bound socket is open\<close>
  fs_lock :: "nat option" \<comment> \<open>the process that holds the lock on the sidecar file\<close>

text \<open>\<open>flock\<close> with \<open>LOCK_NB\<close> on the sidecar file, once it has been opened.\<close>

definition acquire_lock :: "string \<Rightarrow> nat \<Rightarrow> (unit, io_error) result \<Rightarrow> fs \<Rightarrow> (unit, io_error) result \<times> fs" where
  "acquire_lock socket_path p opened f =
     (case opened of
        Inl e \<Rightarrow> (Inl e, f)
      | Inr _ \<Rightarrow>
          (case fs_lock f of
             None \<Rightarrow> (Inr (), f\<lparr>fs_lock := Some p\<rparr>)
           | Some q \<Rightarrow>
               (Inl (IoError IoWouldBlock
                  (''another next-socks5 instance already holds '' @ lock_path_for socket_path)), f)))"

definition unlink_if_socket :: "string \<Rightarrow> fs \<Rightarrow> (unit, io_error) result \<times> fs" where
  "unlink_if_socket path f =
     (case fs_node f of
        Some (NodeSock q) \<Rightarrow> (Inr (), f\<lparr>fs_node := None\<rparr>)
      | Some NodeOther \<Rightarrow> (Inl (IoError IoAlreadyExists (path @ '' exists and is not a socket'')), f)
      | None \<Rightarrow> (Inr (), f))"

text \<open>\<open>UnixListener::bind\<close>; the inode gets its mode from the process's umask.\<close>

definition bind_socket :: "nat \<Rightarrow> u32 \<Rightarrow> fs \<Rightarrow> (unit, io_error) result \<times> fs" where
  "bind_socket p umode f =
     (if fs_node f = None
      then (Inr (), f\<lparr>fs_node := Some (NodeSock p), fs_mode := umode, fs_listening := insert p (fs_listening f)\<rparr>)
      else (Inl (IoError IoAddrInUse ''Address already in use''), f))"

text \<open>\<open>ensure_parent_dir\<close>: \<open>parent\<close> is \<open>socket_path.parent()\<close>, \<open>dir\<close> the mode of that directory
  when it exists, \<open>created\<close> what \<open>create_dir_all\<close> returns, with the mode it gives, and
  \<open>chmod\<close> whether the change of mode succeeds.\<close>

definition ensure_parent_dir ::
  "string option \<Rightarrow> u32 option \<Rightarrow> (u32, io_error) result \<Rightarrow> bool \<Rightarrow> (unit, io_error) result \<times> u32 option" where
  "ensure_parent_dir parent dir created chmod =
     (case parent of
        None \<Rightarrow> (Inr (), dir)
      | Some d \<Rightarrow>
          if d \<noteq> '''' \<and> dir = None
          then case created of
                 Inl e \<Rightarrow> (Inl e, dir)
               | Inr mode \<Rightarrow> (Inr (), Some (if chmod then 0x1C0 else mode))
          else (Inr (), dir))"

text \<open>Where a process is in \<open>claim_socket\<close> and \<open>serve\<close>. \<open>Leaving\<close> stands for every way out (an
  error, the end of \<open>serve\<close>, the death of the process), on which the kernel closes the
  listener and releases the lock, in either order.\<close>

datatype claim_pc = Start | Probed | Locked | Reprobed | Cleared | Bound | Serving | Leaving

record world =
  w_fs :: fs
  w_pc :: "nat \<Rightarrow> claim_pc"

definition node_live :: "fs \<Rightarrow> bool" where
  "node_live f = (case fs_node f of Some (NodeSock q) \<Rightarrow> q \<in> fs_listening f | _ \<Rightarrow> False)"

text \<open>\<open>connect\<close> on the path: only a listening socket accepts, an absent path is reported as such,
  and anything else that is there refuses; any other error may come up.\<close>

fun connect_may :: "fs \<Rightarrow> (unit, io_error) result \<Rightarrow> bool" where
  "connect_may f (Inr u) = node_live f"
| "connect_may f (Inl (IoError k text)) =
     ((k = IoNotFound \<longrightarrow> fs_node f = None) \<and>
      (k = IoConnectionRefused \<longrightarrow> fs_node f \<noteq> None \<and> \<not> node_live f))"

definition goto :: "nat \<Rightarrow> claim_pc \<Rightarrow> fs \<Rightarrow> world \<Rightarrow> world" where
  "goto p pc f w = w\<lparr>w_fs := f, w_pc := (w_pc w)(p := pc)\<rparr>"

definition after_probe :: "(bool, io_error) result \<Rightarrow> claim_pc \<Rightarrow> claim_pc" where
  "after_probe live pc = (if live = Inr False then pc else Leaving)"

datatype claim_call =
    CallProbe "(unit, io_error) result"
  | CallLock "(unit, io_error) result"
  | CallReprobe "(unit, io_error) result"
  | CallUnlink
  | CallBind u32
  | CallChmod bool
  | CallRemove bool \<comment> \<open>the end of \<open>serve\<close>, whether the file could be removed\<close>
  | Die
  | CloseListener
  | ReleaseLock

text \<open>One system call of process \<open>p\<close>. A call that fails leaves the function by \<open>?\<close>.\<close>

inductive claim_step :: "string \<Rightarrow> world \<Rightarrow> nat \<times> claim_call \<Rightarrow> world \<Rightarrow> bool" for path where
  probe: "w_pc w p = Start \<Longrightarrow> connect_may (w_fs w) res \<Longrightarrow>
    claim_step path w (p, CallProbe res) (goto p (after_probe (socket_is_live res) Probed) (w_fs w) w)"
| lock: "w_pc w p = Probed \<Longrightarrow> acquire_lock path p opened (w_fs w) = (res, f) \<Longrightarrow>
    claim_step path w (p, CallLock opened) (goto p (if res = Inr () then Locked else Leaving) f w)"
| reprobe: "w_pc w p = Locked \<Longrightarrow> connect_may (w_fs w) res \<Longrightarrow>
    claim_step path w (p, CallReprobe res) (goto p (after_probe (socket_is_live res) Reprobed) (w_fs w) w)"
| unlink: "w_pc w p = Reprobed \<Longrightarrow> unlink_if_socket path (w_fs w) = (res, f) \<Longrightarrow>
    claim_step path w (p, CallUnlink) (goto p (if res = Inr () then Cleared else Leaving) f w)"
| bind: "w_pc w p = Cleared \<Longrightarrow> bind_socket p umode (w_fs w) = (res, f) \<Longrightarrow>
    claim_step path w (p, CallBind umode) (goto p (if res = Inr () then Bound else Leaving) f w)"
| chmod: "w_pc w p = Bound \<Longrightarrow>
    claim_step path w (p, CallChmod ok)
      (goto p (if ok then Serving else Leaving) (if ok then (w_fs w)\<lparr>fs_mode := 0x180\<rparr> else w_fs w) w)"
| remove: "w_pc w p = Serving \<Longrightarrow>
    claim_step path w (p, CallRemove ok)
      (goto p Leaving (if ok then (w_fs w)\<lparr>fs_node := None\<rparr> else w_fs w) w)"
| die: "claim_step path w (p, Die) (goto p Leaving (w_fs w) w)"
| close: "w_pc w p = Leaving \<Longrightarrow>
    claim_step path w (p, CloseListener)
      (goto p Leaving ((w_fs w)\<lparr>fs_listening := fs_listening (w_fs w) - {p}\<rparr>) w)"
| release: "w_pc w p = Leaving \<Longrightarrow> fs_lock (w_fs w) = Some p \<Longrightarrow>
    claim_step path w (p, ReleaseLock) (goto p Leaving ((w_fs w)\<lparr>fs_lock := None\<rparr>) w)"

inductive_simps claim_probe_simps:
  "claim_step path w (p, CallProbe res) w'" "claim_step path w (p, CallReprobe res) w'"

text \<open>Any number of processes start on a path where an earlier run may have left a socket or
  another file.\<close>

definition world_init :: "node option \<Rightarrow> u32 \<Rightarrow> world" where
  "world_init nd mode =
     \<lparr>w_fs = \<lparr>fs_node = nd, fs_mode = mode, fs_listening = {}, fs_lock = None\<rparr>, w_pc = (\<lambda>_. Start)\<rparr>"

text \<open>What a process at each point may rely on, whatever the others do.\<close>

fun proc_ok :: "fs \<Rightarrow> nat \<Rightarrow> claim_pc \<Rightarrow> bool" where
  "proc_ok f p Locked \<longleftrightarrow> fs_lock f = Some p"
| "proc_ok f p Reprobed \<longleftrightarrow> fs_lock f = Some p \<and> \<not> node_live f"
| "proc_ok f p Cleared \<longleftrightarrow> fs_lock f = Some p \<and> fs_node f = None"
| "proc_ok f p Bound \<longleftrightarrow>
     fs_lock f = Some p \<and> fs_node f = Some (NodeSock p) \<and> p \<in> fs_listening f"
| "proc_ok f p Serving \<longleftrightarrow>
     fs_lock f = Some p \<and> fs_node f = Some (NodeSock p) \<and> p \<in> fs_listening f \<and> fs_mode f = 0x180"
| "proc_ok f p _ \<longleftrightarrow> True"

definition claim_inv :: "world \<Rightarrow> bool" where
  "claim_inv w \<longleftrightarrow> (\<forall>p. proc_ok (w_fs w) p (w_pc w p))"

lemma claim_inv_init: "claim_inv (world_init nd mode)"
  by (simp add: claim_inv_def world_init_def)

lemma claim_inv_goto:
  assumes "claim_inv w" and "proc_ok f p pc"
    and "\<And>q pc. q \<noteq> p \<Longrightarrow> proc_ok (w_fs w) q pc \<Longrightarrow> proc_ok f q pc"
  shows "claim_inv (goto p pc f w)"
  using assms by (simp add: claim_inv_def goto_def)

lemma claim_inv_pc: "claim_inv w \<Longrightarrow> w_pc w p = pc \<Longrightarrow> proc_ok (w_fs w) p pc"
  by (auto simp: claim_inv_def)

text \<open>While one process holds the lock, what it does to the path does not concern the others.\<close>

lemma proc_ok_excluded: "fs_lock f = Some p \<Longrightarrow> q \<noteq> p \<Longrightarrow> proc_ok f q pc \<Longrightarrow> proc_ok f' q pc"
  by (cases pc) simp_all

lemma proc_ok_closed:
  "q \<noteq> p \<Longrightarrow> proc_ok f q pc \<Longrightarrow> proc_ok (f\<lparr>fs_listening := fs_listening f - {p}\<rparr>) q pc"
  by (cases pc) (auto simp: node_live_def split: option.splits node.splits)

lemma proc_ok_unlocked: "fs_lock f = None \<Longrightarrow> proc_ok f q pc \<Longrightarrow> proc_ok f' q pc"
  by (cases pc) simp_all

lemma socket_is_live_dead: "connect_may f res \<Longrightarrow> socket_is_live res = Inr False \<Longrightarrow> \<not> node_live f"
  by (induction res rule: socket_is_live.induct) (auto simp: node_live_def split: if_splits)

lemma claim_step_inv:
  assumes inv: "claim_inv w" and step: "claim_step path w e w'"
  shows "claim_inv w'"
  using step
proof cases
  case (probe p res)
  show ?thesis unfolding probe(2) by (rule claim_inv_goto [OF inv]) (simp_all add: after_probe_def)
next
  case (lock p opened res f)
  then show ?thesis unfolding lock(2)
    by (intro claim_inv_goto [OF inv])
      (auto simp: acquire_lock_def split: sum.splits option.splits intro: proc_ok_unlocked)
next
  case (reprobe p res)
  then show ?thesis unfolding reprobe(2)
    using socket_is_live_dead [of "w_fs w" res] claim_inv_pc [OF inv, of p Locked]
    by (intro claim_inv_goto [OF inv]) (auto simp: after_probe_def)
next
  case (unlink p res f)
  have "fs_lock (w_fs w) = Some p" "fs_lock f = Some p"
    using claim_inv_pc [OF inv unlink(3)] unlink(4) by (auto simp: unlink_if_socket_def split: option.splits node.splits)
  with unlink show ?thesis unfolding unlink(2)
    by (intro claim_inv_goto [OF inv])
      (auto simp: unlink_if_socket_def split: option.splits node.splits intro: proc_ok_excluded)
next
  case (bind p umode res f)
  have l: "fs_lock (w_fs w) = Some p" using claim_inv_pc [OF inv bind(3)] by simp
  with bind show ?thesis unfolding bind(2)
    by (intro claim_inv_goto [OF inv]) (auto simp: bind_socket_def split: if_splits intro: proc_ok_excluded)
next
  case (chmod p ok)
  have l: "proc_ok (w_fs w) p Bound" using claim_inv_pc [OF inv chmod(3)] .
  then show ?thesis unfolding chmod(2)
    by (intro claim_inv_goto [OF inv]) (auto intro: proc_ok_excluded)
next
  case (remove p ok)
  have l: "proc_ok (w_fs w) p Serving" using claim_inv_pc [OF inv remove(3)] .
  then show ?thesis unfolding remove(2)
    by (intro claim_inv_goto [OF inv]) (auto intro: proc_ok_excluded)
next
  case (die p)
  then show ?thesis unfolding die(2) by (intro claim_inv_goto [OF inv]) auto
next
  case (close p)
  then show ?thesis unfolding close(2) by (intro claim_inv_goto [OF inv]) (auto intro: proc_ok_closed)
next
  case (release p)
  then show ?thesis unfolding release(2)
    by (intro claim_inv_goto [OF inv]) (auto intro: proc_ok_excluded)
qed

lemma removal_owner:
  assumes inv: "claim_inv w" and node: "fs_node (w_fs w) = Some (NodeSock q)" and live: "q \<in> fs_listening (w_fs w)"
    and step: "claim_step path w e w'" and gone: "fs_node (w_fs w') \<noteq> Some (NodeSock q)"
  shows "e = (q, CallRemove True)"
  using step
proof cases
  case (lock p opened res f)
  then show ?thesis using gone node
    by (auto simp: goto_def acquire_lock_def split: sum.splits option.splits)
next
  case (unlink p res f)
  then show ?thesis using claim_inv_pc [OF inv unlink(3)] node live by (simp add: node_live_def)
next
  case (bind p umode res f)
  then show ?thesis using claim_inv_pc [OF inv bind(3)] node by simp
next
  case (remove p ok)
  then show ?thesis using claim_inv_pc [OF inv remove(3)] node gone by (auto simp: goto_def split: if_splits)
qed (use gone node in \<open>auto simp: goto_def split: if_splits\<close>)

text \<open>The calls of a process nobody disturbs on a path that is free or holds a dead socket.\<close>

definition dead_answer :: "fs \<Rightarrow> (unit, io_error) result" where
  "dead_answer f =
     Inl (if fs_node f = None then IoError IoNotFound ''No such file or directory''
          else IoError IoConnectionRefused ''Connection refused'')"

definition lone_bind :: "nat \<Rightarrow> u32 \<Rightarrow> fs \<Rightarrow> (nat \<times> claim_call) list" where
  "lone_bind p umode f =
     [(p, CallProbe (dead_answer f)), (p, CallLock (Inr ())), (p, CallReprobe (dead_answer f)), (p, CallUnlink),
      (p, CallBind umode)]"

lemma node_live_lock [simp]: "node_live (f\<lparr>fs_lock := x\<rparr>) = node_live f"
  by (simp add: node_live_def split: option.split node.split)

lemma lone_bind_runs:
  assumes "w_pc w p = Start" and "fs_lock (w_fs w) = None" and "\<not> node_live (w_fs w)"
    and "fs_node (w_fs w) \<noteq> Some NodeOther"
  shows "\<exists>w'. steps (claim_step path) w (lone_bind p umode (w_fs w)) w' \<and> w_pc w' p = Bound \<and>
    fs_node (w_fs w') = Some (NodeSock p) \<and> p \<in> fs_listening (w_fs w') \<and> fs_mode (w_fs w') = umode"
proof -
  let ?gone = "dead_answer (w_fs w)"
  have gone: "connect_may (w_fs w) ?gone" "connect_may ((w_fs w)\<lparr>fs_lock := Some p\<rparr>) ?gone" "socket_is_live ?gone = Inr False"
    using assms(3) by (simp_all add: dead_answer_def)
  define f1 where "f1 = (w_fs w)\<lparr>fs_lock := Some p\<rparr>"
  define f2 where "f2 = f1\<lparr>fs_node := None\<rparr>"
  define f3 where "f3 = f2\<lparr>fs_node := Some (NodeSock p), fs_mode := umode, fs_listening := insert p (fs_listening f2)\<rparr>"
  define w1 where "w1 = goto p Probed (w_fs w) w"
  define w2 where "w2 = goto p Locked f1 w1"
  define w3 where "w3 = goto p Reprobed f1 w2"
  define w4 where "w4 = goto p Cleared f2 w3"
  define w5 where "w5 = goto p Bound f3 w4"
  have pc: "w_pc w1 p = Probed" "w_fs w1 = w_fs w" "w_pc w2 p = Locked" "w_fs w2 = f1" "w_pc w3 p = Reprobed"
    "w_fs w3 = f1" "w_pc w4 p = Cleared" "w_fs w4 = f2"
    by (simp_all add: w1_def w2_def w3_def w4_def goto_def)
  have 1: "claim_step path w (p, CallProbe ?gone) w1"
    using claim_step.probe [of w p ?gone path] assms gone by (simp add: w1_def after_probe_def)
  have "acquire_lock path p (Inr ()) (w_fs w1) = (Inr (), f1)"
    using assms(2) pc by (simp add: acquire_lock_def f1_def)
  from claim_step.lock [OF pc(1) this] have 2: "claim_step path w1 (p, CallLock (Inr ())) w2"
    by (simp add: w2_def)
  have 3: "claim_step path w2 (p, CallReprobe ?gone) w3"
    using claim_step.reprobe [OF pc(3), of ?gone path] gone pc(4) by (simp add: w3_def after_probe_def f1_def)
  have "unlink_if_socket path (w_fs w3) = (Inr (), f2)"
    using assms(4) pc by (auto simp: unlink_if_socket_def f2_def f1_def split: option.splits node.splits)
  from claim_step.unlink [OF pc(5) this] have 4: "claim_step path w3 (p, CallUnlink) w4"
    by (simp add: w4_def)
  have "bind_socket p umode (w_fs w4) = (Inr (), f3)"
    using pc by (simp add: bind_socket_def f3_def f2_def)
  from claim_step.bind [OF pc(7) this, of path] have 5: "claim_step path w4 (p, CallBind umode) w5"
    by (simp add: w5_def)
  have "steps (claim_step path) w (lone_bind p umode (w_fs w)) w5"
    unfolding lone_bind_def
    using steps_Cons [where step = "claim_step path"] steps_Nil [of "claim_step path" w5] 1 2 3 4 5 by meson
  then show ?thesis by (auto simp: w5_def goto_def f3_def)
qed

lemma lone_claim_runs:
  assumes "w_pc w p = Start" and "fs_lock (w_fs w) = None" and "\<not> node_live (w_fs w)"
    and "fs_node (w_fs w) \<noteq> Some NodeOther"
  shows "\<exists>w'. steps (claim_step path) w (lone_bind p umode (w_fs w) @ [(p, CallChmod True)]) w' \<and> w_pc w' p = Serving"
proof -
  obtain w5 where w5: "steps (claim_step path) w (lone_bind p umode (w_fs w)) w5" "w_pc w5 p = Bound"
    using lone_bind_runs [OF assms] by blast
  from steps_snoc [OF w5(1) claim_step.chmod [OF w5(2), of path True]] show ?thesis
    by (auto simp: goto_def)
qed

text \<open>A call with nothing unexpected: the answer to a probe is one the state of the path decides,
  the lock file can be opened, the mode can be changed, and the process does not stop.\<close>

fun plain_call :: "claim_call \<Rightarrow> bool" where
  "plain_call (CallProbe res) \<longleftrightarrow> (case res of Inr u \<Rightarrow> True | Inl (IoError k text) \<Rightarrow> k \<in> {IoNotFound, IoConnectionRefused})"
| "plain_call (CallReprobe res) \<longleftrightarrow> (case res of Inr u \<Rightarrow> True | Inl (IoError k text) \<Rightarrow> k \<in> {IoNotFound, IoConnectionRefused})"
| "plain_call (CallLock opened) \<longleftrightarrow> opened = Inr ()"
| "plain_call (CallChmod ok) \<longleftrightarrow> ok"
| "plain_call (CallRemove ok) \<longleftrightarrow> False"
| "plain_call Die \<longleftrightarrow> False"
| "plain_call other \<longleftrightarrow> True"

definition claim_path :: "claim_pc list" where
  "claim_path = [Start, Probed, Locked, Reprobed, Cleared, Bound, Serving]"

text \<open>What the lone process has done after each call.\<close>

fun lone_at :: "nat \<Rightarrow> nat \<Rightarrow> fs \<Rightarrow> bool" where
  "lone_at p n f \<longleftrightarrow>
     (n < 5 \<longrightarrow> fs_node f \<noteq> Some NodeOther \<and> \<not> node_live f) \<and> (n < 2 \<longrightarrow> fs_lock f = None) \<and>
     (n = 4 \<longrightarrow> fs_node f = None)"

lemma plain_answer:
  "plain_call (CallProbe res) \<Longrightarrow> connect_may f res \<Longrightarrow> \<not> node_live f \<Longrightarrow> socket_is_live res = Inr False"
  "plain_call (CallReprobe res) \<Longrightarrow> connect_may f res \<Longrightarrow> \<not> node_live f \<Longrightarrow> socket_is_live res = Inr False"
  by (cases res rule: socket_is_live.cases; auto)+

lemma claim_path_nth [simp]:
  "claim_path ! 0 = Start" "claim_path ! Suc 0 = Probed" "claim_path ! 2 = Locked" "claim_path ! 3 = Reprobed"
  "claim_path ! 4 = Cleared" "claim_path ! 5 = Bound" "claim_path ! 6 = Serving"
  by (simp_all add: claim_path_def)

lemma claim_path_at:
  assumes "n \<le> 6"
  shows "(n, claim_path ! n) \<in> {(0, Start), (1, Probed), (2, Locked), (3, Reprobed), (4, Cleared), (5, Bound), (6, Serving)}"
proof -
  have "n = 0 \<or> n = 1 \<or> n = 2 \<or> n = 3 \<or> n = 4 \<or> n = 5 \<or> n = 6" using assms by arith
  then show ?thesis by (elim disjE) simp_all
qed

lemma lone_step:
  assumes st: "claim_step path w (p, cc) w'" and plain: "plain_call cc"
    and at: "w_pc w p = claim_path ! n" "n \<le> 6" "lone_at p n (w_fs w)"
  shows "n < 6 \<and> w_pc w' p = claim_path ! Suc n \<and> lone_at p (Suc n) (w_fs w')"
proof -
  have pcs: "claim_path ! n = Start \<longleftrightarrow> n = 0" "claim_path ! n = Probed \<longleftrightarrow> n = 1" "claim_path ! n = Locked \<longleftrightarrow> n = 2"
    "claim_path ! n = Reprobed \<longleftrightarrow> n = 3" "claim_path ! n = Cleared \<longleftrightarrow> n = 4" "claim_path ! n = Bound \<longleftrightarrow> n = 5"
    "claim_path ! n = Serving \<longleftrightarrow> n = 6" "claim_path ! n \<noteq> Leaving"
    using claim_path_at [OF at(2)] by auto
  from st show ?thesis
  proof cases
    case (probe res)
    then have "n = 0" using at(1) pcs by simp
    with probe show ?thesis using at plain plain_answer(1) [of res "w_fs w"] by (simp add: goto_def after_probe_def)
  next
    case (lock opened res f)
    then have n: "n = 1" using at(1) pcs by simp
    then have "claim_path ! Suc n = Locked" by (simp add: claim_path_def)
    with n lock show ?thesis using at plain by (auto simp: goto_def acquire_lock_def)
  next
    case (reprobe res)
    then have n: "n = 2" using at(1) pcs by simp
    then have "Suc n = 3" by simp
    with n reprobe show ?thesis using at plain plain_answer(2) [of res "w_fs w"] by (simp add: goto_def after_probe_def)
  next
    case (unlink res f)
    then have n: "n = 3" using at(1) pcs by simp
    then have "Suc n = 4" by simp
    with n unlink show ?thesis using at
      by (auto simp: goto_def unlink_if_socket_def node_live_def split: option.splits node.splits)
  next
    case (bind umode res f)
    then have n: "n = 4" using at(1) pcs by simp
    then have "Suc n = 5" by simp
    with n bind show ?thesis using at by (auto simp: goto_def bind_socket_def)
  next
    case (chmod ok)
    then have n: "n = 5" using at(1) pcs by simp
    then have "Suc n = 6" by simp
    with n chmod show ?thesis using plain by (simp add: goto_def)
  qed (use at(1) pcs plain in simp_all)
qed

lemma lone_run:
  assumes "steps (claim_step path) w es w'" and "list_all (\<lambda>e. fst e = p \<and> plain_call (snd e)) es"
    and "w_pc w p = Start" and "lone_at p 0 (w_fs w)"
  shows "length es \<le> 6 \<and> w_pc w' p = claim_path ! length es \<and> lone_at p (length es) (w_fs w')"
  using assms
proof (induction rule: steps.induct)
  case (steps_Nil w)
  then show ?case by (simp add: claim_path_def)
next
  case (steps_snoc w es v e u)
  obtain cc where e: "e = (p, cc)" "plain_call cc" using steps_snoc.prems(1) by (cases e) auto
  from steps_snoc.IH steps_snoc.prems have "length es \<le> 6" "w_pc v p = claim_path ! length es"
    "lone_at p (length es) (w_fs v)" by (simp_all del: lone_at.simps)
  from lone_step [OF steps_snoc.hyps(2) [unfolded e(1)] e(2) this(2,1,3)] show ?case by (simp del: lone_at.simps)
qed

section \<open>Properties of the claim\<close>

text \<open>C12: however the system calls of any number of starting, serving, exiting and dying
  processes interleave, at most one of them has the socket path; a process that serves owns
  the socket at the path, with its permissions set to the owner's only; a socket that is
  being listened on is removed by nobody but its owner's own shutdown; a process whose probe
  finds a server leaves; and a process that starts while the lock is free and the path absent
  or holding a dead socket gets to serve when the others let it: there is such a run of six
  calls, the probes being answered as the path has it (not found, or refused), and there is
  no other outcome: as long as only this process acts and none of its calls fails for a
  reason of its own, each call takes it one stage further, and the sixth has it serve.\<close>

theorem claim_exclusive:
  assumes "steps (claim_step path) (world_init nd mode) es w"
  shows "(\<forall>p q. w_pc w p \<in> {Bound, Serving} \<and> w_pc w q \<in> {Bound, Serving} \<longrightarrow> p = q) \<and>
    (\<forall>p. w_pc w p = Serving \<longrightarrow> fs_node (w_fs w) = Some (NodeSock p) \<and> p \<in> fs_listening (w_fs w) \<and>
       fs_mode (w_fs w) = 0x180) \<and>
    (\<forall>q e w'. fs_node (w_fs w) = Some (NodeSock q) \<and> q \<in> fs_listening (w_fs w) \<and> claim_step path w e w' \<and>
       fs_node (w_fs w') \<noteq> Some (NodeSock q) \<longrightarrow> e = (q, CallRemove True)) \<and>
    (\<forall>p res w'. node_live (w_fs w) \<and>
       (claim_step path w (p, CallProbe res) w' \<or> claim_step path w (p, CallReprobe res) w') \<longrightarrow> w_pc w' p = Leaving) \<and>
    (\<forall>p. w_pc w p = Start \<and> fs_lock (w_fs w) = None \<and> \<not> node_live (w_fs w) \<and>
       fs_node (w_fs w) \<noteq> Some NodeOther \<longrightarrow>
         (\<forall>umode. \<exists>w'. steps (claim_step path) w (lone_bind p umode (w_fs w) @ [(p, CallChmod True)]) w' \<and>
            w_pc w' p = Serving) \<and>
         (\<forall>calls w'. steps (claim_step path) w calls w' \<and> list_all (\<lambda>e. fst e = p \<and> plain_call (snd e)) calls \<longrightarrow>
            length calls \<le> 6 \<and> w_pc w' p = claim_path ! length calls))"
proof -
  have inv: "claim_inv w"
    using steps_invariant [of "claim_step path" _ _ _ claim_inv, OF assms claim_inv_init]
      claim_step_inv [of _ path] by blast
  have "p = q" if "w_pc w p \<in> {Bound, Serving}" "w_pc w q \<in> {Bound, Serving}" for p q
    using that claim_inv_pc [OF inv, of p] claim_inv_pc [OF inv, of q] by auto
  moreover have "fs_node (w_fs w) = Some (NodeSock p) \<and> p \<in> fs_listening (w_fs w) \<and> fs_mode (w_fs w) = 0x180"
    if "w_pc w p = Serving" for p using claim_inv_pc [OF inv that] by simp
  moreover have "w_pc w' p = Leaving"
    if "node_live (w_fs w)" "claim_step path w (p, CallProbe res) w' \<or> claim_step path w (p, CallReprobe res) w'" for p res w'
    using that socket_is_live_dead [of "w_fs w" res] by (auto simp: goto_def after_probe_def claim_probe_simps)
  moreover have "length calls \<le> 6 \<and> w_pc w' p = claim_path ! length calls"
    if "w_pc w p = Start" "fs_lock (w_fs w) = None" "\<not> node_live (w_fs w)" "fs_node (w_fs w) \<noteq> Some NodeOther"
      "steps (claim_step path) w calls w'" "list_all (\<lambda>e. fst e = p \<and> plain_call (snd e)) calls" for p calls w'
    using lone_run [OF that(5,6,1)] that(2-4) by simp
  ultimately show ?thesis using removal_owner [OF inv] lone_claim_runs [of w] by blast
qed

theorem claim_exclusive_witness:
  "(\<exists>w'. steps (claim_step ''/run/a.sock'') (world_init (Some (NodeSock 7)) 0x1FF)
      (lone_bind 3 0x1ED (w_fs (world_init (Some (NodeSock 7)) 0x1FF)) @ [(3, CallChmod True)]) w' \<and> w_pc w' 3 = Serving) \<and>
   (\<exists>w'. steps (claim_step ''/run/a.sock'') (world_init None 0)
      (lone_bind 3 0x1ED (w_fs (world_init None 0)) @ [(3, CallChmod True)]) w' \<and> w_pc w' 3 = Serving)"
proof -
  have start: "w_pc (world_init nd mode) 3 = Start \<and> fs_lock (w_fs (world_init nd mode)) = None \<and>
    \<not> node_live (w_fs (world_init nd mode)) \<and> fs_node (w_fs (world_init nd mode)) \<noteq> Some NodeOther"
    if "nd \<in> {None, Some (NodeSock 7)}" for nd mode using that by (auto simp: world_init_def node_live_def)
  have runs: "\<exists>w'. steps (claim_step ''/run/a.sock'') (world_init nd mode)
      (lone_bind 3 0x1ED (w_fs (world_init nd mode)) @ [(3, CallChmod True)]) w' \<and> w_pc w' 3 = Serving"
    if "nd \<in> {None, Some (NodeSock 7)}" for nd mode
    using claim_exclusive [OF steps_Nil, of nd mode "''/run/a.sock''"] start [OF that, of mode] by blast
  show ?thesis using runs [of None 0] runs [of "Some (NodeSock 7)" "0x1FF"] by simp
qed

text \<open>Until the mode is changed the socket accepts with the mode the umask gave it.\<close>

lemma chmod_window:
  "\<exists>w es. steps (claim_step path) (world_init None 0) es w \<and> w_pc w 1 = Bound \<and>
     node_live (w_fs w) \<and> fs_mode (w_fs w) = 0x1ED"
  using lone_bind_runs [of "world_init None 0" 1 path "0x1ED"]
  by (auto simp: world_init_def node_live_def)

section \<open>The accept loop and its clients\<close>

text \<open>The event bus is the history of what was sent on it; a receiver is a position in it.
  A receiver more than the channel's capacity behind is told so and moves to the oldest
  event still retained.\<close>

record attach_client =
  cl_sub :: nat \<comment> \<open>the length of the bus at \<open>events.subscribe()\<close>\<close>
  cl_fsub :: nat \<comment> \<open>the position of the ring's filler then\<close>
  cl_filled :: nat \<comment> \<open>the filler's position at \<open>ring.snapshot()\<close>\<close>
  cl_replay :: "event list"
  cl_pos :: nat
  cl_live :: "event list" \<comment> \<open>what \<open>events.recv()\<close> has returned\<close>

record admin =
  ad_bus :: "event list"
  ad_fpos :: nat
  ad_ring :: event_ring
  ad_accepting :: "(nat \<times> nat) option"
    \<comment> \<open>between subscribing for a client and copying the ring: the bus and the filler at the subscription\<close>
  ad_clients :: "attach_client list"
  ad_open :: bool

definition admin_init :: admin where
  "admin_init =
     \<lparr>ad_bus = [], ad_fpos = 0, ad_ring = event_ring_new, ad_accepting = None, ad_clients = [], ad_open = True\<rparr>"

datatype admin_event =
    BusSend event
  | Fill
  | FillLag
  | AcceptSubscribe
  | AcceptFailed
  | AcceptSpawn
  | Deliver nat
  | DeliverLag nat
  | ServeShutdown "bool option"

inductive serve_step :: "nat \<Rightarrow> admin \<Rightarrow> admin_event \<Rightarrow> admin \<Rightarrow> bool" for cap where
  bus_send: "serve_step cap a (BusSend ev) (a\<lparr>ad_bus := ad_bus a @ [ev]\<rparr>)"
| fill: "ad_fpos a < length (ad_bus a) \<Longrightarrow> length (ad_bus a) \<le> ad_fpos a + cap \<Longrightarrow>
    serve_step cap a Fill
      (a\<lparr>ad_ring := ring_push (ad_bus a ! ad_fpos a) (ad_ring a), ad_fpos := ad_fpos a + 1\<rparr>)"
| fill_lag: "ad_fpos a + cap < length (ad_bus a) \<Longrightarrow>
    serve_step cap a FillLag (a\<lparr>ad_fpos := length (ad_bus a) - cap\<rparr>)"
| accept_subscribe: "ad_open a \<Longrightarrow> ad_accepting a = None \<Longrightarrow>
    serve_step cap a AcceptSubscribe (a\<lparr>ad_accepting := Some (length (ad_bus a), ad_fpos a)\<rparr>)"
| accept_failed: "ad_open a \<Longrightarrow> ad_accepting a = None \<Longrightarrow> serve_step cap a AcceptFailed a"
| accept_spawn: "ad_accepting a = Some (n, f) \<Longrightarrow>
    serve_step cap a AcceptSpawn
      (a\<lparr>ad_accepting := None,
         ad_clients := ad_clients a @
           [\<lparr>cl_sub = n, cl_fsub = f, cl_filled = ad_fpos a, cl_replay = ring_snapshot (ad_ring a),
             cl_pos = n, cl_live = []\<rparr>]\<rparr>)"
| deliver: "k < length (ad_clients a) \<Longrightarrow> c = ad_clients a ! k \<Longrightarrow>
    cl_pos c < length (ad_bus a) \<Longrightarrow> length (ad_bus a) \<le> cl_pos c + cap \<Longrightarrow>
    serve_step cap a (Deliver k)
      (a\<lparr>ad_clients := (ad_clients a)
          [k := c\<lparr>cl_pos := cl_pos c + 1, cl_live := cl_live c @ [ad_bus a ! cl_pos c]\<rparr>]\<rparr>)"
| deliver_lag: "k < length (ad_clients a) \<Longrightarrow> c = ad_clients a ! k \<Longrightarrow>
    cl_pos c + cap < length (ad_bus a) \<Longrightarrow>
    serve_step cap a (DeliverLag k)
      (a\<lparr>ad_clients := (ad_clients a)[k := c\<lparr>cl_pos := length (ad_bus a) - cap\<rparr>]\<rparr>)"
| serve_shutdown: "ad_open a \<Longrightarrow> ad_accepting a = None \<Longrightarrow>
    serve_step cap a (ServeShutdown v) (a\<lparr>ad_open := (v = Some False)\<rparr>)"

fun lag_event :: "admin_event \<Rightarrow> bool" where
  "lag_event FillLag = True"
| "lag_event (DeliverLag k) = True"
| "lag_event _ = False"

definition newest :: "nat \<Rightarrow> 'a list \<Rightarrow> 'a list" where
  "newest n xs = drop (length xs - n) xs"

lemma newest_join:
  assumes "i \<le> j" and "j \<le> length xs"
  shows "newest n (take i xs) @ drop i (take j xs) = drop (i - n) (take j xs)"
proof -
  have t: "take j xs = take i xs @ drop i (take j xs)"
    using assms append_take_drop_id [of i "take j xs"] by (simp add: min.absorb1)
  have "drop (i - n) (take j xs) = drop (i - n) (take i xs) @ drop i (take j xs)"
    using assms by (subst t) simp
  then show ?thesis using assms by (simp add: newest_def)
qed

definition client_ok :: "event list \<Rightarrow> attach_client \<Rightarrow> bool" where
  "client_ok bus c \<longleftrightarrow>
     cl_sub c \<le> cl_pos c \<and> cl_pos c \<le> length bus \<and> cl_filled c \<le> length bus \<and> cl_fsub c \<le> cl_filled c \<and>
     cl_replay c = newest ADMIN_EVENT_RING_CAPACITY (take (cl_filled c) bus) \<and>
     cl_live c = drop (cl_sub c) (take (cl_pos c) bus)"

definition admin_ok :: "admin \<Rightarrow> bool" where
  "admin_ok a \<longleftrightarrow>
     ad_fpos a \<le> length (ad_bus a) \<and>
     ad_ring a = fold ring_push (take (ad_fpos a) (ad_bus a)) event_ring_new \<and>
     (\<forall>n f. ad_accepting a = Some (n, f) \<longrightarrow> n \<le> length (ad_bus a) \<and> f \<le> ad_fpos a) \<and>
     (\<forall>c \<in> set (ad_clients a). client_ok (ad_bus a) c)"

lemma client_ok_send: "client_ok bus c \<Longrightarrow> client_ok (bus @ [ev]) c"
  by (simp add: client_ok_def)

lemma client_ok_deliver:
  assumes "client_ok bus c" and "cl_pos c < length bus"
  shows "client_ok bus (c\<lparr>cl_pos := cl_pos c + 1, cl_live := cl_live c @ [bus ! cl_pos c]\<rparr>)"
  using assms by (simp add: client_ok_def take_Suc_conv_app_nth)

lemma ring_fold: "ring_snapshot (fold ring_push xs event_ring_new) = newest ADMIN_EVENT_RING_CAPACITY xs"
  using ring.entries_fold_empty [of event_ring_new xs] by (simp add: newest_def)

lemma serve_step_ok:
  assumes ok: "admin_ok a" and step: "serve_step cap a e a'" and "\<not> lag_event e"
  shows "admin_ok a'"
  using step
proof cases
  case (bus_send ev)
  then show ?thesis using ok by (auto simp: admin_ok_def client_ok_send)
next
  case fill
  then show ?thesis using ok by (auto simp: admin_ok_def take_Suc_conv_app_nth intro: le_SucI)
next
  case (accept_spawn n f)
  then show ?thesis using ok by (simp add: admin_ok_def client_ok_def ring_fold)
next
  case (deliver k c)
  have "client_ok (ad_bus a) (c\<lparr>cl_pos := cl_pos c + 1, cl_live := cl_live c @ [ad_bus a ! cl_pos c]\<rparr>)"
    using ok deliver by (intro client_ok_deliver) (simp_all add: admin_ok_def)
  then show ?thesis using ok deliver
    by (auto simp: admin_ok_def dest!: set_update_subset_insert [THEN subsetD])
qed (use ok assms(3) in \<open>auto simp: admin_ok_def\<close>)

lemma admin_init_ok: "admin_ok admin_init"
  by (simp add: admin_ok_def admin_init_def)

text \<open>C28: whatever the order of sends, fills, accepts and deliveries, as long as no receiver
  falls a channel's capacity behind, every attached client has been sent the (at most 500)
  newest events the ring's filler had seen when the ring was copied for it, oldest first, and
  then exactly the events sent since it subscribed, each once and in order. Because the
  subscription comes before the copy, nothing is lost between them: when the filler was up to
  date at the subscription, what the client has been sent is one gapless stretch of the
  history, except that the events filled between the subscription and the copy come twice,
  in the replay and again first among the live ones.\<close>

theorem serve_history:
  assumes "steps (serve_step cap) admin_init es a" and "list_all (\<lambda>e. \<not> lag_event e) es"
    and "c \<in> set (ad_clients a)"
  shows "cl_replay c = newest 500 (take (cl_filled c) (ad_bus a)) \<and>
    cl_live c = drop (cl_sub c) (take (cl_pos c) (ad_bus a)) \<and>
    (cl_fsub c = cl_sub c \<longrightarrow> cl_sub c \<le> cl_filled c \<and>
       cl_replay c @ drop (cl_filled c - cl_sub c) (cl_live c) =
         drop (cl_filled c - 500) (take (max (cl_filled c) (cl_pos c)) (ad_bus a)))"
proof -
  have "admin_ok a"
    using steps_invariant_on [of _ _ _ _ "\<lambda>e. \<not> lag_event e" admin_ok, OF assms(1,2) admin_init_ok]
      serve_step_ok by blast
  then have ok: "client_ok (ad_bus a) c" using assms(3) by (simp add: admin_ok_def)
  moreover have "cl_sub c \<le> cl_filled c \<and> cl_replay c @ drop (cl_filled c - cl_sub c) (cl_live c) =
      drop (cl_filled c - 500) (take (max (cl_filled c) (cl_pos c)) (ad_bus a))"
    if "cl_fsub c = cl_sub c"
  proof -
    have le: "cl_sub c \<le> cl_filled c" using ok that by (simp add: client_ok_def)
    then have "drop (cl_filled c - cl_sub c) (cl_live c) =
        drop (cl_filled c) (take (max (cl_filled c) (cl_pos c)) (ad_bus a))"
      using ok by (auto simp: client_ok_def max_def)
    with le show ?thesis using ok newest_join [of "cl_filled c" "max (cl_filled c) (cl_pos c)" "ad_bus a" 500]
      by (simp add: client_ok_def ADMIN_EVENT_RING_CAPACITY_def)
  qed
  ultimately show ?thesis by (simp add: client_ok_def ADMIN_EVENT_RING_CAPACITY_def)
qed

definition history_events :: "admin_event list" where
  "history_events = [BusSend (EvClosed 1), Fill, AcceptSubscribe, AcceptSpawn, BusSend (EvClosed 2), Deliver 0]"

lemma history_run:
  "\<exists>a. steps (serve_step 1024) admin_init history_events a \<and>
     ad_bus a = [EvClosed 1, EvClosed 2] \<and>
     ad_clients a = [\<lparr>cl_sub = 1, cl_fsub = 1, cl_filled = 1, cl_replay = [EvClosed 1], cl_pos = 2, cl_live = [EvClosed 2]\<rparr>]"
proof -
  define a1 where "a1 = admin_init\<lparr>ad_bus := [EvClosed 1]\<rparr>"
  define a2 where "a2 = a1\<lparr>ad_ring := ring_push (EvClosed 1) event_ring_new, ad_fpos := 1\<rparr>"
  define a3 where "a3 = a2\<lparr>ad_accepting := Some (1, 1)\<rparr>"
  define a4 where "a4 = a3\<lparr>ad_accepting := None, ad_clients :=
    [\<lparr>cl_sub = 1, cl_fsub = 1, cl_filled = 1, cl_replay = [EvClosed 1], cl_pos = 1, cl_live = []\<rparr>]\<rparr>"
  define a5 where "a5 = a4\<lparr>ad_bus := [EvClosed 1, EvClosed 2]\<rparr>"
  define a6 where "a6 = a5\<lparr>ad_clients :=
    [\<lparr>cl_sub = 1, cl_fsub = 1, cl_filled = 1, cl_replay = [EvClosed 1], cl_pos = 2, cl_live = [EvClosed 2]\<rparr>]\<rparr>"
  note d = a1_def a2_def a3_def a4_def a5_def a6_def admin_init_def
  have 1: "serve_step 1024 admin_init (BusSend (EvClosed 1)) a1"
    using serve_step.bus_send [of 1024 admin_init] by (simp add: a1_def admin_init_def)
  have 2: "serve_step 1024 a1 Fill a2" using serve_step.fill [of a1 1024] by (simp add: d)
  have 3: "serve_step 1024 a2 AcceptSubscribe a3" using serve_step.accept_subscribe [of a2 1024] by (simp add: d)
  have 4: "serve_step 1024 a3 AcceptSpawn a4" using serve_step.accept_spawn [of a3 1 1 1024]
    by (simp add: d ring_push_def event_ring_new_def ring_snapshot_def ADMIN_EVENT_RING_CAPACITY_def)
  have 5: "serve_step 1024 a4 (BusSend (EvClosed 2)) a5" using serve_step.bus_send [of 1024 a4] by (simp add: d)
  have 6: "serve_step 1024 a5 (Deliver 0) a6" using serve_step.deliver [of 0 a5 _ 1024] by (simp add: d numeral_2_eq_2)
  have "steps (serve_step 1024) admin_init history_events a6"
    unfolding history_events_def
    using steps_Cons [where step = "serve_step 1024"] steps_Nil [of "serve_step 1024" a6] 1 2 3 4 5 6 by meson
  then show ?thesis by (auto simp: d)
qed

theorem serve_history_witness:
  "\<exists>a. steps (serve_step 1024) admin_init history_events a \<and>
     list_all (\<lambda>c. cl_replay c @ cl_live c = ad_bus a) (ad_clients a)"
proof -
  obtain a where a: "steps (serve_step 1024) admin_init history_events a" "ad_bus a = [EvClosed 1, EvClosed 2]"
    "ad_clients a = [\<lparr>cl_sub = 1, cl_fsub = 1, cl_filled = 1, cl_replay = [EvClosed 1], cl_pos = 2, cl_live = [EvClosed 2]\<rparr>]"
    using history_run by blast
  have "list_all (\<lambda>e. \<not> lag_event e) history_events" by (simp add: history_events_def)
  from serve_history [OF a(1) this, of "hd (ad_clients a)"] a show ?thesis by auto
qed

end
