(* ===== verification/Mock.thy ===== *)
theory Mock
  imports Metrics Std_Net_Parse Std_F64
begin

text \<open>
  \<open>src/mock.rs\<close>: the generator of synthetic connections. It is a deterministic function of its
  pseudo-random state and of the platform's sine, whose precision the standard library does not
  fix: \<open>sine\<close> is a parameter. \<open>None\<close> is the panic of \<open>expect\<close>.
\<close>

section \<open>The pseudo-random numbers\<close>

text \<open>The result and the new state of the generator are the same word.\<close>

definition next_u64 :: "u64 \<Rightarrow> u64" where
  "next_u64 s =
     (let x = s XOR push_bit 13 s;
          x = x XOR drop_bit 7 x
      in x XOR push_bit 17 x)"

definition rng_below :: "u64 \<Rightarrow> u64 \<Rightarrow> u64 \<times> u64" where
  "rng_below n s = (let x = next_u64 s in (x mod max n 1, x))"

section \<open>The generator\<close>

definition MAX_ACTIVE :: usize where
  "MAX_ACTIVE = 12"

definition TARGETS :: "string list" where
  "TARGETS =
     [''example.com:443'', ''github.com:443'', ''api.ipify.org:443'', ''cdn.example.net:80'',
      ''db.internal:5432'', ''speed.example.com:443'']"

definition USERS :: "string list" where
  "USERS = [''alice'', ''bob'', ''carol'']"

record generator =
  gen_rng :: u64
  gen_active :: "(u64 \<times> conn_kind) list"
  gen_phase :: f64

definition generator_new :: generator where
  "generator_new = \<lparr>gen_rng = 0x9E3779B97F4A7C15, gen_active = [], gen_phase = 0\<rparr>"

text \<open>What a tick threads through: the generator's numbers, its connections, the metrics and
  the events sent.\<close>

type_synonym tick_state = "u64 \<times> (u64 \<times> conn_kind) list \<times> metrics \<times> event list"

definition synthetic_addr :: "u64 \<Rightarrow> u64 \<Rightarrow> u64 \<Rightarrow> string" where
  "synthetic_addr a b p =
     ''10.0.'' @ show_nat (unat a) @ ''.'' @ show_nat (unat b) @ '':'' @ show_nat (unat (1024 + p))"

definition open_one :: "tick_state \<Rightarrow> tick_state option" where
  "open_one = (\<lambda>(g, held, m, es).
     (let (k, g) = rng_below 100 g;
          kind = (if k < 75 then KindConnect else KindUdp);
          (a, g) = rng_below 256 g;
          (b, g) = rng_below 256 g;
          (p, g) = rng_below 60000 g
      in case parse_sock (synthetic_addr a b p) of
           None \<Rightarrow> None
         | Some addr \<Rightarrow>
             (let (t, g) = rng_below (of_nat (length TARGETS)) g;
                  target = TARGETS ! unat t;
                  (i, m) = register m addr target kind;
                  es = es @ [EvConnect i addr target kind];
                  held = held @ [(i, kind)];
                  (auth, g) = rng_below 100 g
              in if auth < 30
                 then let (roll, g) = rng_below 100 g;
                          (u, g) = rng_below (of_nat (length USERS)) g
                      in Some (g, held, m, es @ [EvAuth (roll < 85) (USERS ! unat u)])
                 else Some (g, held, m, es))))"

definition maybe_open :: "tick_state \<Rightarrow> tick_state option" where
  "maybe_open = (\<lambda>(g, held, m, es).
     if length held < MAX_ACTIVE
     then let (roll, g) = rng_below 100 g
          in if roll < 40 then open_one (g, held, m, es) else Some (g, held, m, es)
     else Some (g, held, m, es))"

fun push_bytes :: "u64 \<Rightarrow> (u64 \<times> conn_kind) list \<Rightarrow> u64 \<times> metrics \<Rightarrow> u64 \<times> metrics" where
  "push_bytes budget [] gm = gm"
| "push_bytes budget ((i, kind) # rest) (g, m) =
     (let (u, g) = rng_below (budget div 8 + 1) g;
          (d, g) = rng_below (budget + 1) g
      in push_bytes budget rest
           (g, add_down (add_up m i (u + budget div 16)) i (d + budget div 4)))"

definition remove_at :: "nat \<Rightarrow> 'a list \<Rightarrow> 'a list" where
  "remove_at i xs = take i xs @ drop (Suc i) xs"

definition maybe_close :: "tick_state \<Rightarrow> tick_state" where
  "maybe_close = (\<lambda>(g, held, m, es).
     if held \<noteq> []
     then let (roll, g) = rng_below 100 g
          in if roll < 30
             then let (i, g) = rng_below (of_nat (length held)) g;
                      conn = fst (held ! unat i)
                  in (g, remove_at (unat i) held, record_success (unregister m conn), es @ [EvClosed conn])
             else (g, held, m, es)
     else (g, held, m, es))"

definition maybe_error :: "tick_state \<Rightarrow> tick_state" where
  "maybe_error = (\<lambda>(g, held, m, es).
     let (roll, g) = rng_below 100 g
     in if roll < 12
        then let (c, g) = rng_below 8 g;
                 code = 1 + ucast c :: u8
             in (g, held, record_error m code,
                 es @ [EvError code (''synthetic error 0x'' @ pad2 (show_hex (unat code)))])
        else (g, held, m, es))"

text \<open>The phase's step, the literal \<open>0.15\<close>, the wave and the byte budget drawn from it.\<close>

definition gen_advance :: "f64 \<Rightarrow> f64" where
  "gen_advance phase = f64_add phase (f64_round (15 / 100))"

definition gen_wave :: "(f64 \<Rightarrow> f64) \<Rightarrow> f64 \<Rightarrow> f64" where
  "gen_wave sine phase = f64_add (f64_mul (sine phase) (1 / 2)) (1 / 2)"

definition gen_budget :: "f64 \<Rightarrow> u64" where
  "gen_budget wave = as_u64 (f64_mul wave 100000)"

definition gen_step ::
  "(f64 \<Rightarrow> f64) \<Rightarrow> generator \<Rightarrow> metrics \<Rightarrow> (generator \<times> metrics \<times> event list) option" where
  "gen_step sine gen m =
     (let phase = gen_advance (gen_phase gen);
          wave = gen_wave sine phase
      in case maybe_open (gen_rng gen, gen_active gen, m, []) of
           None \<Rightarrow> None
         | Some (g, held, m, es) \<Rightarrow>
             (let (g, m) = push_bytes (gen_budget wave) held (g, m);
                  (g, held, m, es) = maybe_error (maybe_close (g, held, m, es))
              in Some (\<lparr>gen_rng = g, gen_active = held, gen_phase = phase\<rparr>, m, es)))"

definition gen_drain :: "generator \<Rightarrow> metrics \<Rightarrow> generator \<times> metrics" where
  "gen_drain gen m = (gen\<lparr>gen_active := []\<rparr>, fold (\<lambda>(i, kind) m. unregister m i) (gen_active gen) m)"

text \<open>The loop of \<open>run\<close>: \<open>None\<close> is a tick, \<open>Some\<close> a change of the shutdown flag. The result has the
  events sent and whether the loop has ended.\<close>

fun mock_loop ::
  "(f64 \<Rightarrow> f64) \<Rightarrow> bool option option list \<Rightarrow> generator \<Rightarrow> metrics \<Rightarrow> event list
   \<Rightarrow> (generator \<times> metrics \<times> event list \<times> bool) option" where
  "mock_loop sine [] gen m out = Some (gen, m, out, False)"
| "mock_loop sine (None # es) gen m out =
     (case gen_step sine gen m of
        None \<Rightarrow> None
      | Some (gen, m, sent) \<Rightarrow> mock_loop sine es gen m (out @ sent))"
| "mock_loop sine (Some v # es) gen m out =
     (if v = Some False then mock_loop sine es gen m out
      else case gen_drain gen m of (gen, m) \<Rightarrow> Some (gen, m, out, True))"

definition mock_run ::
  "(f64 \<Rightarrow> f64) \<Rightarrow> bool option option list \<Rightarrow> metrics
   \<Rightarrow> (generator \<times> metrics \<times> event list \<times> bool) option" where
  "mock_run sine es m =
     mock_loop sine es generator_new m [EvLog ''mock data generator running'']"

section \<open>Facts\<close>

lemma rng_below_less: "rng_below n s = (x, s') \<Longrightarrow> 0 < n \<Longrightarrow> x < n"
  by (auto simp: rng_below_def Let_def max_def word_mod_less_divisor split: if_splits)

lemma parse_sock_v4: "parse_sock (show_ipv4 ip @ '':'' @ show_nat (unat p)) = Some (SockV4 ip p)"
proof -
  have td: "take_digits 10 0 0 (show_nat (unat p) @ []) = (unat p, length (show_nat (unat p)), [])"
    using take_digits_base [of 0 0 "unat p" "[]"] take_digits_stop [of "[]"] by (simp add: show_nat_def stops_simps)
  have "length (show_nat (unat p)) \<noteq> 0" by (simp add: show_nat_def)
  with td have "read_number 10 None True 65536 (show_nat (unat p)) = Some (unat p, [])"
    by (simp add: read_number_def Let_def not_le)
  moreover have "read_ipv4_addr (show_ipv4 ip @ '':'' @ show_nat (unat p)) = Some (ip, '':'' @ show_nat (unat p))"
    by (rule read_ipv4_show) (simp add: stops_simps)
  ultimately show ?thesis
    by (simp add: parse_sock_def parse_whole_def read_socket_addr_v4_def read_port_def)
qed

lemma parse_synthetic:
  assumes "a < 256" and "b < 256" and "p < 60000"
  shows "parse_sock (synthetic_addr a b p) = Some (SockV4 (Ipv4 10 0 (ucast a) (ucast b)) (ucast (1024 + p)))"
proof -
  have ab: "unat (ucast a :: u8) = unat a" "unat (ucast b :: u8) = unat b"
    using assms by (simp_all add: word_less_nat_alt unsigned_ucast_eq take_bit_eq_mod)
  have p: "unat (ucast (1024 + p) :: u16) = unat (1024 + p)"
    using assms(3) unat_plus_if' [of 1024 p] by (simp add: word_less_nat_alt unsigned_ucast_eq take_bit_eq_mod split: if_splits)
  have "show_nat 10 = ''10''" "show_nat 0 = ''0''" by code_simp+
  then have "synthetic_addr a b p = show_ipv4 (Ipv4 10 0 (ucast a) (ucast b)) @ '':'' @ show_nat (unat (ucast (1024 + p) :: u16))"
    unfolding synthetic_addr_def by (simp add: ab p)
  then show ?thesis by (simp only: parse_sock_v4)
qed

text \<open>\<open>L\<close> are the connections of the rest of the program.\<close>

definition gen_inv :: "u64 set \<Rightarrow> (u64 \<times> conn_kind) list \<Rightarrow> metrics \<Rightarrow> bool" where
  "gen_inv L held m \<longleftrightarrow>
     metrics_ok m \<and> distinct (map fst held) \<and> length held \<le> MAX_ACTIVE \<and>
     set (map fst held) \<inter> L = {} \<and> live_ids m = L \<union> set (map fst held)"

lemma gen_inv_register:
  assumes "gen_inv L held m" and "ids_left m" and "length held < MAX_ACTIVE" and "register m addr target kind = (i, m')"
  shows "gen_inv L (held @ [(i, kind)]) m' \<and> next_id m' = next_id m + 1"
proof -
  have r: "(\<lambda>(src, target, kind) m. register m src target kind) (addr, target, kind) m = (i, m')" using assms(4) by simp
  have ok: "metrics_ok m" using assms(1) by (simp add: gen_inv_def)
  show ?thesis
    using conns.reg_fresh [OF ok assms(2) r] conns.reg_live [OF ok assms(2) r] conns.reg_valid [OF ok assms(2) r] assms
    by (auto simp: gen_inv_def register_def Let_def)
qed

lemma open_one_ok:
  assumes "gen_inv L held m" and "ids_left m" and "length held < MAX_ACTIVE"
  shows "\<exists>g' held' m' es'. open_one (g, held, m, es) = Some (g', held', m', es') \<and> gen_inv L held' m' \<and>
    next_id m' = next_id m + 1"
proof -
  obtain k g1 where k: "rng_below 100 g = (k, g1)" by fastforce
  obtain a g2 where a: "rng_below 256 g1 = (a, g2)" by fastforce
  obtain b g3 where b: "rng_below 256 g2 = (b, g3)" by fastforce
  obtain p g4 where p: "rng_below 60000 g3 = (p, g4)" by fastforce
  define addr where "addr = SockV4 (Ipv4 10 0 (ucast a) (ucast b)) (ucast (1024 + p))"
  have parse: "parse_sock (synthetic_addr a b p) = Some addr"
    unfolding addr_def using rng_below_less [OF a] rng_below_less [OF b] rng_below_less [OF p] by (intro parse_synthetic) simp_all
  obtain t g5 where t: "rng_below (of_nat (length TARGETS)) g4 = (t, g5)" by fastforce
  define kind where "kind = (if k < 75 then KindConnect else KindUdp)"
  obtain i m' where r: "register m addr (TARGETS ! unat t) kind = (i, m')" by fastforce
  note inv = gen_inv_register [OF assms r]
  show ?thesis using inv k a b p parse t r
    by (auto simp: open_one_def Let_def kind_def split: prod.splits)
qed

lemma maybe_open_ok:
  assumes "gen_inv L held m" and "ids_left m"
  shows "\<exists>g' held' m' es'. maybe_open (g, held, m, es) = Some (g', held', m', es') \<and> gen_inv L held' m' \<and>
    (next_id m' = next_id m \<or> next_id m' = next_id m + 1)"
proof -
  obtain roll g1 where r: "rng_below 100 g = (roll, g1)" by fastforce
  show ?thesis using open_one_ok [OF assms, of g1 es] assms(1) r by (auto simp: maybe_open_def)
qed

lemma next_id_add [simp]: "next_id (add_up m i n) = next_id m" "next_id (add_down m i n) = next_id m"
  by (auto simp: add_up_def add_down_def Let_def split: option.split)

lemma push_bytes_ok:
  "metrics_ok m \<Longrightarrow> push_bytes budget held (g, m) = (g', m') \<Longrightarrow>
     metrics_ok m' \<and> live_ids m' = live_ids m \<and> next_id m' = next_id m"
  by (induction budget held "(g, m)" arbitrary: g m rule: push_bytes.induct)
    (auto simp: metrics_ok_add split: prod.splits)

lemma set_remove_at:
  assumes "k < length xs" and "distinct (map f xs)"
  shows "set (map f (remove_at k xs)) = set (map f xs) - {f (xs ! k)}" "distinct (map f (remove_at k xs))"
    "length (remove_at k xs) \<le> length xs"
proof -
  have xs: "xs = take k xs @ xs ! k # drop (Suc k) xs" using assms(1) by (rule id_take_nth_drop)
  have d: "distinct (map f (take k xs @ xs ! k # drop (Suc k) xs))" using assms(2) xs by simp
  have s: "set (map f xs) = set (map f (take k xs @ xs ! k # drop (Suc k) xs))" using xs by simp
  show "set (map f (remove_at k xs)) = set (map f xs) - {f (xs ! k)}"
    unfolding s using d by (auto simp: remove_at_def simp del: append_take_drop_id)
  show "distinct (map f (remove_at k xs))" using d by (simp add: remove_at_def)
  show "length (remove_at k xs) \<le> length xs" by (simp add: remove_at_def)
qed

lemma gen_inv_close:
  assumes "gen_inv L held m" and "k < length held"
  shows "gen_inv L (remove_at k held) (record_success (unregister m (fst (held ! k))))"
proof -
  have d: "distinct (map fst held)" using assms(1) by (simp add: gen_inv_def)
  have "fst (held ! k) \<in> set (map fst held)" using assms(2) by simp
  then have "fst (held ! k) \<notin> L" using assms(1) unfolding gen_inv_def by blast
  then show ?thesis using assms(1) set_remove_at [OF assms(2) d]
    by (auto simp: gen_inv_def live_unregister metrics_ok_unregister metrics_ok_record)
qed

lemma maybe_close_ok:
  assumes inv: "gen_inv L held m" and c: "maybe_close (g, held, m, es) = (g', held', m', es')"
  shows "gen_inv L held' m' \<and> next_id m' = next_id m"
proof -
  obtain roll g1 where r: "rng_below 100 g = (roll, g1)" by fastforce
  obtain i g2 where i: "rng_below (of_nat (length held)) g1 = (i, g2)" by fastforce
  have len: "length held \<le> 12" using inv by (simp add: gen_inv_def MAX_ACTIVE_def)
  have "unat i < length held" if "held \<noteq> []"
  proof -
    have u: "unat (of_nat (length held) :: u64) = length held" using len by (simp add: unsigned_of_nat take_bit_eq_mod)
    have "0 < (of_nat (length held) :: u64)" using that u by (metis length_greater_0_conv unat_gt_0 word_gt_0)
    then have "i < of_nat (length held)" using rng_below_less [OF i] by blast
    then show ?thesis using u by (simp add: word_less_nat_alt)
  qed
  then show ?thesis using gen_inv_close [OF inv, of "unat i"] inv c r i
    by (auto simp: maybe_close_def Let_def unregister_def record_success_def split: if_splits)
qed

lemma maybe_error_ok:
  assumes "gen_inv L held m" and "maybe_error (g, held, m, es) = (g', held', m', es')"
  shows "gen_inv L held' m' \<and> next_id m' = next_id m"
proof -
  have "next_id (record_error m c) = next_id m" for c by (simp add: record_error_def Let_def)
  moreover have "gen_inv L held (record_error m c)" for c
    using assms(1) by (simp add: gen_inv_def metrics_ok_record)
  ultimately show ?thesis using assms
    by (auto simp: maybe_error_def Let_def split: prod.splits if_splits)
qed

lemma gen_step_ok:
  assumes inv: "gen_inv L (gen_active gen) m" and left: "ids_left m"
  shows "\<exists>gen' m' es. gen_step sine gen m = Some (gen', m', es) \<and> gen_inv L (gen_active gen') m' \<and>
    (next_id m' = next_id m \<or> next_id m' = next_id m + 1)"
proof -
  obtain g1 h1 m1 e1 where 1: "maybe_open (gen_rng gen, gen_active gen, m, []) = Some (g1, h1, m1, e1)"
    "gen_inv L h1 m1" "next_id m1 = next_id m \<or> next_id m1 = next_id m + 1"
    using maybe_open_ok [OF inv left, of "gen_rng gen" "[]"] by blast
  obtain g2 m2 where 2: "push_bytes (gen_budget (gen_wave sine (gen_advance (gen_phase gen)))) h1 (g1, m1) = (g2, m2)" by fastforce
  have inv2: "gen_inv L h1 m2" "next_id m2 = next_id m1"
    using push_bytes_ok [OF _ 2] 1(2) by (auto simp: gen_inv_def)
  obtain g3 h3 m3 e3 where 3: "maybe_close (g2, h1, m2, e1) = (g3, h3, m3, e3)" by (metis prod_cases4)
  note inv3 = maybe_close_ok [OF inv2(1) 3]
  obtain g4 h4 m4 e4 where 4: "maybe_error (g3, h3, m3, e3) = (g4, h4, m4, e4)" by (metis prod_cases4)
  note inv4 = maybe_error_ok [OF conjunct1 [OF inv3] 4]
  show ?thesis using 1 2 3 4 inv2 inv3 inv4 by (simp add: gen_step_def Let_def)
qed

lemma drain_fold:
  "metrics_ok m \<Longrightarrow> metrics_ok (fold (\<lambda>(i, kind) m. unregister m i) held m) \<and>
     live_ids (fold (\<lambda>(i, kind) m. unregister m i) held m) = live_ids m - set (map fst held)"
proof (induction held arbitrary: m)
  case (Cons c held)
  have "metrics_ok (unregister m (fst c))" using Cons.prems by (rule metrics_ok_unregister)
  from Cons.IH [OF this] show ?case
    by (cases c) (simp add: live_unregister, metis Diff_insert2)
qed simp

lemma gen_drain_ok:
  assumes "gen_inv L (gen_active gen) m" and "gen_drain gen m = (gen', m')"
  shows "gen_active gen' = [] \<and> metrics_ok m' \<and> live_ids m' = L"
  using assms drain_fold [of m "gen_active gen"] by (auto simp: gen_drain_def gen_inv_def)

lemma mock_loop_ok:
  assumes "gen_inv L (gen_active gen) m" and "unat (next_id m) + length es < 2 ^ 64 - 1"
  shows "\<exists>gen' m' out' ended. mock_loop sine es gen m out = Some (gen', m', out', ended) \<and>
    gen_inv L (gen_active gen') m' \<and> (ended \<longrightarrow> gen_active gen' = []) \<and>
    (\<not> ended \<longleftrightarrow> list_all (\<lambda>e. e = None \<or> e = Some (Some False)) es)"
  using assms
proof (induction es arbitrary: gen m out)
  case (Cons e es)
  show ?case
  proof (cases e)
    case None
    have "unat (next_id m) < 2 ^ 64 - 1" using Cons.prems(2) by simp
    moreover have "unat (- 1 :: u64) = 2 ^ 64 - 1" by (simp add: unsigned_minus_1_eq_mask mask_eq_exp_minus_1)
    ultimately have left: "ids_left m" unfolding ids_left_def by (metis less_irrefl)
    obtain gen' m' sent where s: "gen_step sine gen m = Some (gen', m', sent)"
      "gen_inv L (gen_active gen') m'" "next_id m' = next_id m \<or> next_id m' = next_id m + 1"
      using gen_step_ok [OF Cons.prems(1) left] by blast
    have "unat (next_id m') + length es < 2 ^ 64 - 1"
      using s(3) Cons.prems(2) unat_u64_Suc [of "next_id m"] left by (auto simp: ids_left_def)
    from Cons.IH [OF s(2) this] show ?thesis using None s(1) by simp
  next
    case (Some v)
    show ?thesis
    proof (cases "v = Some False")
      case True
      then show ?thesis using Cons.IH [OF Cons.prems(1)] Cons.prems(2) Some by simp
    next
      case False
      obtain gen' m' where d: "gen_drain gen m = (gen', m')" by fastforce
      then show ?thesis using gen_drain_ok [OF Cons.prems(1) d] False Some
        by (auto simp: gen_inv_def MAX_ACTIVE_def)
    qed
  qed
qed auto

lemma as_u64_le: "x \<le> of_nat n \<Longrightarrow> n < 2 ^ 64 \<Longrightarrow> unat (as_u64 x) \<le> n"
proof -
  assume x: "x \<le> of_nat n" and n: "n < 2 ^ 64"
  have "\<lfloor>x\<rfloor> \<le> int n" using floor_mono [OF x] by simp
  then have "min (nat \<lfloor>x\<rfloor>) (2 ^ 64 - 1) \<le> n" by linarith
  then show ?thesis unfolding as_u64_def using n by (simp add: unsigned_of_nat take_bit_eq_mod)
qed

text \<open>The budget stays within a hundred thousand bytes.\<close>

lemma gen_budget_bound:
  assumes "sine phase \<le> 1"
  shows "unat (gen_budget (gen_wave sine phase)) \<le> 100000"
proof -
  have e: "f64_round (1 / 2) = 1 / 2" "f64_round 1 = 1" "f64_round 100000 = 100000"
    using f64_round_two_powi [of "- 1"] f64_round_int [of 1] f64_round_int [of 100000] by simp_all
  have "f64_mul (sine phase) (1 / 2) \<le> 1 / 2"
    unfolding f64_mul_def by (rule f64_round_le) (use assms e in simp_all)
  then have w: "gen_wave sine phase \<le> 1"
    unfolding gen_wave_def f64_add_def by (intro f64_round_le) (use e in simp_all)
  have "f64_mul (gen_wave sine phase) 100000 \<le> 100000"
    unfolding f64_mul_def by (rule f64_round_le) (use w e in simp_all)
  then show ?thesis unfolding gen_budget_def by (intro as_u64_le) simp_all
qed

section \<open>Properties\<close>

text \<open>The demo generator never panics (the addresses it makes up always parse, its indices
  are in range) and keeps to itself: over any run of ticks, short of exhausting the 64-bit
  ids, at most twelve of its connections are registered at a time, next to those of the
  rest of the program, and when it is told to stop it leaves the registry exactly as it
  found it.\<close>

theorem mock_cleans_up:
  assumes "metrics_ok m" and "unat (next_id m) + length es < 2 ^ 64 - 1"
  shows "\<exists>gen' m' out ended. mock_run sine es m = Some (gen', m', out, ended) \<and> metrics_ok m' \<and>
    length (gen_active gen') \<le> 12 \<and> live_ids m' = live_ids m \<union> set (map fst (gen_active gen')) \<and>
    (ended \<longrightarrow> live_ids m' = live_ids m) \<and> (\<not> ended \<longleftrightarrow> list_all (\<lambda>e. e = None \<or> e = Some (Some False)) es)"
proof -
  have "gen_inv (live_ids m) (gen_active generator_new) m"
    using assms(1) by (simp add: gen_inv_def generator_new_def)
  from mock_loop_ok [OF this assms(2), of sine "[EvLog ''mock data generator running'']"]
  show ?thesis unfolding mock_run_def by (auto simp: gen_inv_def MAX_ACTIVE_def)
qed

theorem mock_cleans_up_witness:
  "\<exists>gen' m' out. mock_run (\<lambda>x. 0) [None, None, Some None] metrics_new = Some (gen', m', out, True) \<and>
     live_ids m' = {}"
  using mock_cleans_up [of metrics_new "[None, None, Some None]" "\<lambda>x. 0"] metrics_ok_new(1)
  by (auto simp: live_ids_def metrics_new_def)

end
