(* ===== verification/Startup.thy ===== *)
theory Startup
  imports Config Dns Metrics
begin

text \<open>
  \<open>src/main.rs\<close>: the choice of what to run, the start of the server's parts, and the way down.
  The clap parser, the file read, the TOML deserializer, the resolver package and the bind
  are parameters. From the moment the front end runs, the program is a transition system
  over the holders of the event channel's sender, the headless printer and the wait for the
  accept loop; an event carries the time it happens at, and \<open>main_timed\<close> lets no time pass
  beyond the deadline of the wait.
\<close>

section \<open>Starting\<close>

datatype front_end = FrontDashboard | FrontPrinter

record startup =
  su_cfg :: config
  su_listen_str :: string
  su_auth_str :: string
  su_admin :: "string option" \<comment> \<open>the attach endpoint's path, when it is started\<close>
  su_mock :: bool
  su_front :: front_end

datatype ('p, 'e) main_start =
    StartAttach string
  | StartAttachUnsupported
  | StartHelp
  | StartConfigError "'p config_error"
  | StartDnsError 'e
  | StartBindError io_error
  | StartServing bool startup \<comment> \<open>whether the note on the missing \<open>serve\<close> is printed\<close>

definition startup_of :: "bool \<Rightarrow> cli \<Rightarrow> config \<Rightarrow> socket_addr option \<Rightarrow> startup" where
  "startup_of tui c cfg local =
     \<lparr>su_cfg = cfg,
      su_listen_str = (case local of Some a \<Rightarrow> show_sock a | None \<Rightarrow> listen cfg),
      su_auth_str = (case auth_method (auth cfg) of AuthNone \<Rightarrow> ''none'' | AuthPassword \<Rightarrow> ''password''),
      su_admin = (if enabled (admin cfg)
        then Some (case socket (admin cfg) of Some p \<Rightarrow> p | None \<Rightarrow> DEFAULT_ADMIN_SOCKET) else None),
      su_mock = mock c,
      su_front = (if tui \<and> \<not> no_tui c then FrontDashboard else FrontPrinter)\<rparr>"

text \<open>\<open>tui\<close> is the build feature, \<open>argc\<close> the number of arguments with the program's name, \<open>bind_listener\<close>
  gives the listener's \<open>local_addr().ok()\<close>.\<close>

definition main_start ::
  "bool \<Rightarrow> cli \<Rightarrow> nat \<Rightarrow> (config, 'p config_error) result \<Rightarrow> (dns_config \<Rightarrow> 'e + 'r dns_resolver)
   \<Rightarrow> (string \<Rightarrow> (socket_addr option, io_error) result) \<Rightarrow> ('p, 'e) main_start" where
  "main_start tui c argc loaded resolver bind_listener =
     (case cli_command c of
        Some (Attach sock) \<Rightarrow>
          if tui then StartAttach (case sock of Some p \<Rightarrow> p | None \<Rightarrow> DEFAULT_ADMIN_SOCKET)
          else StartAttachUnsupported
      | cmd \<Rightarrow>
          if cmd = None \<and> argc \<le> 1 then StartHelp
          else
            (case loaded of
               Inl e \<Rightarrow> StartConfigError e
             | Inr cfg \<Rightarrow>
                 (case resolver (dns cfg) of
                    Inl e \<Rightarrow> StartDnsError e
                  | Inr res \<Rightarrow>
                      (case bind_listener (listen cfg) of
                         Inl e \<Rightarrow> StartBindError e
                       | Inr local \<Rightarrow> StartServing (cmd = None) (startup_of tui c cfg local)))))"

section \<open>Running and shutting down\<close>

definition SHUTDOWN_GRACE :: duration where
  "SHUTDOWN_GRACE = from_secs 5"

text \<open>Who holds a sender of the event channel: \<open>main\<close> itself, the accept loop, the tasks it
  spawned, the attach endpoint and the demo generator.\<close>

datatype sender = TxMain | TxServer | TxTask nat | TxAdmin | TxMock

datatype main_phase =
    FrontUi
  | HeadlessWait \<comment> \<open>\<open>run_headless\<close> waits for Ctrl-C\<close>
  | HeadlessDrain \<comment> \<open>\<open>run_headless\<close> waits for its printer\<close>
  | Grace instant \<comment> \<open>\<open>main\<close> waits for the accept loop until then\<close>
  | MainDone

record main_state =
  mn_phase :: main_phase
  mn_senders :: "sender set"
  mn_queue :: "event list" \<comment> \<open>sent and not yet received by the front end\<close>
  mn_printed :: "string list"
  mn_printer_done :: bool
  mn_shutdown :: bool
  mn_server_done :: bool

definition main_init :: "startup \<Rightarrow> main_state" where
  "main_init su =
     \<lparr>mn_phase = (if su_front su = FrontPrinter then HeadlessWait else FrontUi),
      mn_senders = {TxMain, TxServer} \<union> (if su_admin su = None then {} else {TxAdmin}) \<union>
        (if su_mock su then {TxMock} else {}),
      mn_queue = (if su_front su = FrontPrinter then []
        else [EvLog (''listening on '' @ su_listen_str su), EvLog (''auth: '' @ su_auth_str su), EvLog ''press q to quit'']),
      mn_printed = (if su_front su = FrontPrinter
        then [''next-socks5 listening on '' @ su_listen_str su @ '' (auth: '' @ su_auth_str su @ '', headless)''] else []),
      mn_printer_done = False, mn_shutdown = False, mn_server_done = False\<rparr>"

datatype main_event =
    CtrlC
  | UiReturned
  | Sent sender event
  | TaskSpawned nat
  | SenderGone sender
  | PrinterRecv
  | PrinterLagged u64
  | PrinterClosed
  | PrinterJoined
  | ServerReturned
  | GraceServer
  | GraceTimeout

definition main_finish :: "main_state \<Rightarrow> main_state" where
  "main_finish s =
     s\<lparr>mn_phase := MainDone, mn_printed := mn_printed s @ [''shutdown complete''],
       mn_senders := mn_senders s - {TxMain}\<rparr>"

definition printing :: "main_state \<Rightarrow> bool" where
  "printing s \<longleftrightarrow> mn_phase s \<in> {HeadlessWait, HeadlessDrain} \<and> \<not> mn_printer_done s"

text \<open>Only the end of \<open>main\<close> drops its own sender.\<close>

inductive main_step :: "main_state \<Rightarrow> instant \<times> main_event \<Rightarrow> main_state \<Rightarrow> bool" where
  ctrl_c: "mn_phase s = HeadlessWait \<Longrightarrow>
    main_step s (t, CtrlC) (s\<lparr>mn_phase := HeadlessDrain, mn_shutdown := True\<rparr>)"
| ui_returned: "mn_phase s = FrontUi \<Longrightarrow>
    main_step s (t, UiReturned) (s\<lparr>mn_phase := Grace (t + SHUTDOWN_GRACE), mn_shutdown := True\<rparr>)"
| sent: "tx \<in> mn_senders s \<Longrightarrow> main_step s (t, Sent tx ev) (s\<lparr>mn_queue := mn_queue s @ [ev]\<rparr>)"
| task_spawned: "TxServer \<in> mn_senders s \<Longrightarrow>
    main_step s (t, TaskSpawned k) (s\<lparr>mn_senders := insert (TxTask k) (mn_senders s)\<rparr>)"
| sender_gone: "tx \<in> mn_senders s \<Longrightarrow> tx \<noteq> TxMain \<Longrightarrow>
    main_step s (t, SenderGone tx) (s\<lparr>mn_senders := mn_senders s - {tx}\<rparr>)"
| printer_recv: "printing s \<Longrightarrow> mn_queue s = ev # q \<Longrightarrow>
    main_step s (t, PrinterRecv) (s\<lparr>mn_queue := q, mn_printed := mn_printed s @ [format_event ev]\<rparr>)"
| printer_lagged: "printing s \<Longrightarrow> 0 < unat n \<Longrightarrow> unat n \<le> length (mn_queue s) \<Longrightarrow>
    main_step s (t, PrinterLagged n)
      (s\<lparr>mn_queue := drop (unat n) (mn_queue s),
         mn_printed := mn_printed s @ [''dropped '' @ show_nat (unat n) @ '' events'']\<rparr>)"
| printer_closed: "printing s \<Longrightarrow> mn_senders s = {} \<Longrightarrow> mn_queue s = [] \<Longrightarrow>
    main_step s (t, PrinterClosed) (s\<lparr>mn_printer_done := True\<rparr>)"
| printer_joined: "mn_phase s = HeadlessDrain \<Longrightarrow> mn_printer_done s \<Longrightarrow>
    main_step s (t, PrinterJoined) (s\<lparr>mn_phase := Grace (t + SHUTDOWN_GRACE), mn_shutdown := True\<rparr>)"
| server_returned: "main_step s (t, ServerReturned) (s\<lparr>mn_server_done := True\<rparr>)"
| grace_server: "mn_phase s = Grace d \<Longrightarrow> mn_server_done s \<Longrightarrow> main_step s (t, GraceServer) (main_finish s)"
| grace_timeout: "mn_phase s = Grace d \<Longrightarrow> d \<le> t \<Longrightarrow> main_step s (t, GraceTimeout) (main_finish s)"

text \<open>\<open>timeout\<close> ends the wait when its time is up, so nothing happens past the deadline while
  \<open>main\<close> still waits, and nothing at all once it has returned.\<close>

definition in_time :: "main_state \<Rightarrow> instant \<Rightarrow> instant \<Rightarrow> bool" where
  "in_time s now t \<longleftrightarrow> now \<le> t \<and>
     (case mn_phase s of Grace d \<Rightarrow> t \<le> d | MainDone \<Rightarrow> False | _ \<Rightarrow> True)"

inductive main_timed :: "instant \<times> main_state \<Rightarrow> instant \<times> main_event \<Rightarrow> instant \<times> main_state \<Rightarrow> bool" where
  in_time: "in_time s now t \<Longrightarrow> main_step s (t, e) s' \<Longrightarrow> main_timed (now, s) (t, e) (t, s')"

inductive_cases main_timedE: "main_timed (now, s) (t, e) u"

section \<open>Facts\<close>

text \<open>In headless mode \<open>main\<close> holds its sender for as long as \<open>run_headless\<close> runs, so the printer
  never sees the channel closed.\<close>

definition headless_inv :: "main_state \<Rightarrow> bool" where
  "headless_inv s \<longleftrightarrow> TxMain \<in> mn_senders s \<and> \<not> mn_printer_done s \<and> mn_phase s \<in> {HeadlessWait, HeadlessDrain}"

lemma headless_step: "headless_inv s \<Longrightarrow> main_step s e s' \<Longrightarrow> headless_inv s'"
  by (erule main_step.cases) (auto simp: headless_inv_def)

text \<open>How far the dashboard's \<open>main\<close> is: \<open>es\<close> is what has happened up to \<open>now\<close>.\<close>

definition ui_stage :: "(instant \<times> main_event) list \<Rightarrow> instant \<Rightarrow> main_state \<Rightarrow> bool" where
  "ui_stage es now s \<longleftrightarrow> (mn_server_done s \<longrightarrow> ServerReturned \<in> snd ` set es) \<and>
     (case mn_phase s of
        FrontUi \<Rightarrow> UiReturned \<notin> snd ` set es
      | Grace d \<Rightarrow> now \<le> d \<and> mn_shutdown s \<and> UiReturned \<in> snd ` set es \<and>
          (\<forall>t. (t, UiReturned) \<in> set es \<longrightarrow> d = t + SHUTDOWN_GRACE)
      | MainDone \<Rightarrow> mn_shutdown s \<and> UiReturned \<in> snd ` set es \<and> last (mn_printed s) = ''shutdown complete'' \<and>
          (\<forall>t. (t, UiReturned) \<in> set es \<longrightarrow> now \<le> t + SHUTDOWN_GRACE \<and>
             (now = t + SHUTDOWN_GRACE \<or> ServerReturned \<in> snd ` set es))
      | _ \<Rightarrow> False)"

lemma ui_stage_step:
  assumes "ui_stage es now s" and "main_step s (t, e) s'" and "in_time s now t"
  shows "ui_stage (es @ [(t, e)]) t s'"
  using assms(2,1,3)
  by cases (auto simp: ui_stage_def in_time_def main_finish_def printing_def image_iff split: main_phase.splits)

lemma ui_run_stage:
  assumes "steps main_timed (t0, main_init su) es u" and "su_front su = FrontDashboard"
  shows "ui_stage es (fst u) (snd u)"
  using assms
proof (induction "(t0, main_init su)" es u rule: steps.induct)
  case steps_Nil
  then show ?case by (simp add: ui_stage_def main_init_def)
next
  case (steps_snoc es u e v)
  from steps_snoc(3) show ?case
  proof cases
    case (in_time s now t e' s')
    then show ?thesis using ui_stage_step steps_snoc(2,4) by simp
  qed
qed

section \<open>Properties\<close>

text \<open>C32: the two front ends end differently. Until the dashboard returns, \<open>main\<close> waits for it and
  it may return at any time. When it has returned at \<open>t\<close>, shutdown is requested and \<open>main\<close> is
  over at the latest five seconds later, whatever the accept loop and the other tasks do in
  between: no event of a run is later than that, the wait ends exactly then if nothing ended
  it before, and it ends before only if the accept loop has returned. In headless mode \<open>main\<close> keeps a
  sender of the channel its printer waits on, so after Ctrl-C \<open>run_headless\<close> never returns: the
  bounded wait for the accept loop is never reached, even when the server and every other
  sender are gone.\<close>

theorem main_shutdown:
  assumes "steps main_timed (t0, main_init su) es (now, s)"
  shows "(su_front su = FrontDashboard \<longrightarrow>
      (if UiReturned \<in> snd ` set es then
         \<forall>t. (t, UiReturned) \<in> set es \<longrightarrow> mn_shutdown s \<and> now \<le> t + 5000000000 \<and>
           (mn_phase s = Grace (t + 5000000000) \<and>
              main_timed (now, s) (t + 5000000000, GraceTimeout) (t + 5000000000, main_finish s) \<or>
            mn_phase s = MainDone \<and> last (mn_printed s) = ''shutdown complete'' \<and>
              (now = t + 5000000000 \<or> ServerReturned \<in> snd ` set es))
       else mn_phase s = FrontUi \<and> (\<forall>t \<ge> now. \<exists>s'. main_timed (now, s) (t, UiReturned) (t, s')))) \<and>
    (su_front su = FrontPrinter \<longrightarrow> mn_phase s \<in> {HeadlessWait, HeadlessDrain} \<and> \<not> mn_printer_done s)"
proof (intro conjI impI)
  have grace: "SHUTDOWN_GRACE = 5000000000" by (simp add: SHUTDOWN_GRACE_def from_secs_def)
  assume "su_front su = FrontDashboard"
  from ui_run_stage [OF assms this] have st: "ui_stage es now s" by simp
  show "if UiReturned \<in> snd ` set es then
         \<forall>t. (t, UiReturned) \<in> set es \<longrightarrow> mn_shutdown s \<and> now \<le> t + 5000000000 \<and>
           (mn_phase s = Grace (t + 5000000000) \<and>
              main_timed (now, s) (t + 5000000000, GraceTimeout) (t + 5000000000, main_finish s) \<or>
            mn_phase s = MainDone \<and> last (mn_printed s) = ''shutdown complete'' \<and>
              (now = t + 5000000000 \<or> ServerReturned \<in> snd ` set es))
       else mn_phase s = FrontUi \<and> (\<forall>t \<ge> now. \<exists>s'. main_timed (now, s) (t, UiReturned) (t, s'))"
  proof (cases "mn_phase s")
    case FrontUi
    then show ?thesis using st main_timed.in_time [OF _ main_step.ui_returned [OF FrontUi]]
      by (auto simp: ui_stage_def in_time_def)
  next
    case (Grace d)
    then have "main_timed (now, s) (d, GraceTimeout) (d, main_finish s)"
      using st by (intro main_timed.in_time main_step.grace_timeout [OF Grace]) (simp_all add: ui_stage_def in_time_def)
    then show ?thesis using st Grace by (auto simp: ui_stage_def grace)
  qed (use st in \<open>auto simp: ui_stage_def grace\<close>)
next
  let ?I = "\<lambda>u. headless_inv (snd u)"
  assume "su_front su = FrontPrinter"
  then have i: "?I (t0, main_init su)" by (simp add: headless_inv_def main_init_def)
  have step: "?I v" if "?I u" "main_timed u e v" for u e v
    using that(2,1) by cases (use headless_step in auto)
  from steps_invariant [where I = ?I, OF assms i step] have "headless_inv s" by simp
  then show "mn_phase s \<in> {HeadlessWait, HeadlessDrain}" "\<not> mn_printer_done s"
    by (simp_all add: headless_inv_def)
qed

definition sample_startup :: startup where
  "sample_startup = (startup_of False \<lparr>cli_command = Some Serve, cli_config = None, cli_listen = None, no_tui = False,
     no_admin = True, admin_socket = None, mock = False\<rparr> default_config None)\<lparr>su_admin := None\<rparr>"

theorem main_shutdown_witness:
  "(\<exists>s. steps main_timed (0, main_init (sample_startup\<lparr>su_front := FrontDashboard\<rparr>)) [(3, UiReturned), (4, TaskSpawned 0)] (4, s) \<and>
      main_timed (4, s) (5000000003, GraceTimeout) (5000000003, main_finish s)) \<and>
   (\<exists>s. steps main_timed (0, main_init sample_startup) [(7, CtrlC), (8, SenderGone TxServer)] (8, s) \<and>
     mn_senders s = {TxMain} \<and> mn_phase s \<in> {HeadlessWait, HeadlessDrain} \<and> \<not> mn_printer_done s)"
proof
  have f: "su_front sample_startup = FrontPrinter" "su_admin sample_startup = None" "\<not> su_mock sample_startup"
    by (simp_all add: sample_startup_def startup_of_def)
  {
    let ?su = "sample_startup\<lparr>su_front := FrontDashboard\<rparr>"
    let ?s0 = "main_init ?su"
    define s1 where "s1 = ?s0\<lparr>mn_phase := Grace (3 + SHUTDOWN_GRACE), mn_shutdown := True\<rparr>"
    define s2 where "s2 = s1\<lparr>mn_senders := insert (TxTask 0) (mn_senders s1)\<rparr>"
    have 1: "main_timed (0, ?s0) (3, UiReturned) (3, s1)" unfolding s1_def
      by (intro main_timed.in_time main_step.ui_returned) (simp_all add: in_time_def main_init_def)
    have 2: "main_timed (3, s1) (4, TaskSpawned 0) (4, s2)" unfolding s2_def
      by (intro main_timed.in_time main_step.task_spawned)
        (simp_all add: in_time_def s1_def main_init_def SHUTDOWN_GRACE_def from_secs_def)
    have run: "steps main_timed (0, ?s0) [(3, UiReturned), (4, TaskSpawned 0)] (4, s2)"
      using steps_Cons [of main_timed, OF 1 steps_one [of main_timed, OF 2]] .
    have "mn_phase s2 \<noteq> MainDone" by (simp add: s2_def s1_def)
    with main_shutdown [OF run] have "main_timed (4, s2) (5000000003, GraceTimeout) (5000000003, main_finish s2)" by simp
    with run show "\<exists>s. steps main_timed (0, ?s0) [(3, UiReturned), (4, TaskSpawned 0)] (4, s) \<and>
      main_timed (4, s) (5000000003, GraceTimeout) (5000000003, main_finish s)" by blast
  }
  let ?s0 = "main_init sample_startup"
  define s1 where "s1 = ?s0\<lparr>mn_phase := HeadlessDrain, mn_shutdown := True\<rparr>"
  define s2 where "s2 = s1\<lparr>mn_senders := mn_senders s1 - {TxServer}\<rparr>"
  have 1: "main_timed (0, ?s0) (7, CtrlC) (7, s1)" unfolding s1_def
    using f by (intro main_timed.in_time main_step.ctrl_c) (simp_all add: in_time_def main_init_def)
  have 2: "main_timed (7, s1) (8, SenderGone TxServer) (8, s2)" unfolding s2_def
    by (intro main_timed.in_time main_step.sender_gone) (simp_all add: in_time_def s1_def main_init_def)
  have run: "steps main_timed (0, ?s0) [(7, CtrlC), (8, SenderGone TxServer)] (8, s2)"
    using steps_Cons [of main_timed, OF 1 steps_one [of main_timed, OF 2]] .
  moreover have "mn_senders s2 = {TxMain}" using f by (auto simp: s2_def s1_def main_init_def)
  ultimately show "\<exists>s. steps main_timed (0, ?s0) [(7, CtrlC), (8, SenderGone TxServer)] (8, s) \<and>
     mn_senders s = {TxMain} \<and> mn_phase s \<in> {HeadlessWait, HeadlessDrain} \<and> \<not> mn_printer_done s"
    using main_shutdown [OF run] f(1) by blast
qed

end
