(* ===== verification/Spec2Isabelle.thy ===== *)
theory Spec2Isabelle
  imports Bus Atomics Sources Terminal Admin_Server Mock Startup
begin

text \<open>
  A model of next-socks5, a SOCKS5 proxy (RFC 1928, RFC 1929) in Rust, and the theorems that
  make it correct. File names below are relative to \<open>src/src/\<close>.

  \<^bold>\<open>The program.\<close> \<open>main.rs\<close> parses the command line, loads the configuration (\<open>config.rs\<close>), builds the
  resolver (\<open>dns.rs\<close>), and starts the accept loop (\<open>server/mod.rs\<close>), the attach endpoint
  (\<open>admin/\<close>) and a front end: the dashboard (\<open>tui/\<close>) or a printer. The loop admits a connection
  within the caps of \<open>server/admission.rs\<close> and gives it a task, which negotiates
  (\<open>server/connection.rs\<close>, with the codecs of \<open>protocol/\<close> and the check of \<open>auth.rs\<close>) and then runs the
  CONNECT handler (\<open>server/connect.rs\<close>) or the UDP ASSOCIATE handler (\<open>server/udp.rs\<close>). The handlers
  report to \<open>metrics.rs\<close> and to a broadcast channel of events; the attach endpoint streams both to
  dashboards in other processes.

  \<^bold>\<open>The theories\<close>, in the order they build on each other:

  \<^item> \<open>Prelude\<close>, \<open>Std_Text\<close>, \<open>Std_Net\<close>, \<open>Std_Net_Parse\<close>: what the source uses of Rust and its standard
    library. Machine integers are words (\<open>usize\<close> is \<open>nat\<close>), strings are lists of UTF-8 bytes, \<open>Err\<close> is
    \<open>Inl\<close>, slices carry their bounds, addresses print and parse as in \<open>std::net\<close>.
  \<^item> \<open>Interfaces\<close>: the contracts the components give each other, as locales. A self-delimiting codec
    (\<open>prefix_codec\<close>) and the weaker \<open>incremental_parser\<close> (a sublocale relation gives one from the
    other); \<open>bounded_log\<close>, \<open>id_registry\<close>, \<open>permit_pool\<close>; runs of a transition system (\<open>steps\<close>) and
    \<open>simulation\<close>. Each is interpreted on the model's own definitions: the codecs in \<open>Address\<close>,
    \<open>Handshake\<close>, \<open>Request_Reply\<close>; the logs in \<open>Admin_Server\<close> and \<open>Widgets\<close>; the registry in
    \<open>Metrics\<close>; the pool in \<open>Admission\<close>; the simulation in \<open>Server\<close>.
  \<^item> \<open>Errors\<close> (\<open>error.rs\<close>), \<open>Address\<close> (\<open>protocol/address.rs\<close>), \<open>Handshake\<close> (\<open>protocol/handshake.rs\<close>),
    \<open>Request_Reply\<close> (\<open>protocol/request.rs\<close>, \<open>protocol/reply.rs\<close>), \<open>Udp_Codec\<close> (\<open>protocol/udp.rs\<close>): parsers and
    encoders are inverse to each other, need more bytes exactly on proper prefixes, and give each
    malformed input its error.
  \<^item> \<open>Config\<close> (\<open>config.rs\<close>), \<open>Auth\<close> (\<open>auth.rs\<close>), \<open>Metrics\<close> (\<open>metrics.rs\<close>), \<open>Admission\<close>
    (\<open>server/admission.rs\<close>): the egress policy as address blocks, constant-time comparison against plain
    equality, counters and the registry over every history of calls, the counters of the caps
    against the multiset of live permits.
  \<^item> \<open>Tcp\<close>: a connection as the handlers see it. What the peer sends is a list of arrivals, the writes
    follow a script of outcomes, and the facts relate each read to the byte stream alone.
  \<^item> \<open>Negotiation\<close> (\<open>server/connection.rs\<close>): \<open>negotiate\<close> with its one buffer. A request is served only after
    a greeting and, where required, valid credentials; the result does not depend on how the
    bytes are cut; well-formed sessions are served; each kind of bad session gets its reply.
  \<^item> \<open>Dns\<close> (\<open>dns.rs\<close>), \<open>Establish\<close>, \<open>Relay\<close>, \<open>Connect\<close> (\<open>server/connect.rs\<close>): a lookup per family; the search for
    an upstream as a loop over timed events, which dials no blocked address, tries every
    candidate and ends by its deadline; the two copy loops, which conserve bytes and share an
    idle timer; the handler, which reports every failure and unregisters what it registered.
  \<^item> \<open>Udp_Relay\<close> (\<open>server/udp.rs\<close>): the port scan and the association loop. Only the client's datagrams
    go out, only known targets' come back, nothing goes to a blocked address, and the rate and
    target limits hold.
  \<^item> \<open>Server\<close> (\<open>handle\<close> of \<open>server/connection.rs\<close>, \<open>server/mod.rs\<close>): one connection from the first byte to the
    end, with the replies, events and counts a client that was let in is promised on every
    outcome of its command (\<open>connect_served\<close>, \<open>udp_served\<close>, \<open>failed_with\<close>), and the accept loop with its
    tasks as a transition system that simulates an abstract server knowing only the addresses
    being served; the shutdown drains in at most two events per task.
  \<^item> \<open>System\<close>: the accept loop, the handlers and the metrics they share, composed. A handler is shown
    to touch the metrics only by calls a small state machine allows and to report just those on the
    event bus, whatever happens; the system is the interleaving of the loop's steps with those
    calls of all tasks, and the registry and counters are exact in every state it reaches.
  \<^item> \<open>Atomics\<close>: the same system with every atomic operation of a metrics call as a step of its own, so
    that calls overlap. It follows \<open>System\<close>, and the metrics are off by no more than the operations
    still to come.
  \<^item> \<open>Bus\<close>: the same system with the sends on the event bus as steps of their own. A subscriber's view
    of the open sessions is the registry up to the sends still outstanding.
  \<^item> \<open>Admin_Proto\<close> (\<open>admin/mod.rs\<close>, \<open>admin/client.rs\<close>, \<open>handle_client\<close>), \<open>Admin_Server\<close> (\<open>admin/ring.rs\<close>,
    \<open>admin/server.rs\<close>): frames, both ends of an attach session and their composition; the claim of
    the socket path as system calls of any number of processes interleaved; the event bus with
    its receivers.
  \<^item> \<open>Std_F64\<close>, \<open>Figures\<close> (the floating-point functions of \<open>tui/widgets.rs\<close>): a finite \<open>f64\<close> is the
    rational it stands for, and an operation rounds the exact result to 53 bits, ties to even.
    Throughput, percentages and byte counts are compared with the exact figures, and no result
    leaves the range of zero and the normal numbers.
  \<^item> \<open>Widgets\<close> (\<open>tui/widgets.rs\<close>), \<open>Dashboard\<close> (\<open>tui/mod.rs\<close>), \<open>Render\<close> (\<open>render\<close> of \<open>tui/widgets.rs\<close>),
    \<open>Terminal\<close> (\<open>run\<close> of \<open>tui/mod.rs\<close>): sorting, scrolling, logs, the event loop, what the panels and
    the chart show, and entering and leaving the terminal around the loop.
  \<^item> \<open>Sources\<close>: \<open>MetricsSource\<close> as a locale, interpreted on the server's metrics and on the state an
    attached client decodes; a dashboard on either shows the same.
  \<^item> \<open>Mock\<close> (\<open>mock.rs\<close>), \<open>Startup\<close> (\<open>main.rs\<close>): the demo generator, and what is started and how it ends.

  \<^bold>\<open>State and time.\<close> A handler is a function of its state and of a script of what the network does: a
  list of timed events for a \<open>select!\<close> loop, arrivals and write outcomes for a stream. Every
  statement is about all scripts, so about every interleaving. Mutex-protected and atomic
  operations are single steps; a call on the metrics, which makes several of them, is a single step
  except in \<open>Atomics\<close>, which justifies it. Where several processes or tasks share state (accept loop, socket
  claim, event bus, shutdown) the model is an inductive step relation and the statements are
  about all its runs. A future still pending at the end of its script is a value of its own
  (\<open>Pending\<close>, \<open>Waiting\<close>, \<open>RunRelaying\<close>, \<open>None\<close>), so no theorem is true for want of a result.

  \<^bold>\<open>Bounds.\<close> There is no fuel: recursion is structural in the script or has a measure (bytes left in
  the arrivals, bytes left to read). Counters wrap as the source's do; the statements that need
  the 64-bit connection ids not to be exhausted say so (\<open>ids_left\<close>).

  \<^bold>\<open>Parameters.\<close> The hickory resolver, the TOML deserializer, postcard, clap's result, the operating
  system's answers, the four operations of the terminal library, the height its layout gives the
  scrolling panels, and the platform's sine are arguments of the definitions that use them. Two
  laws are assumed: \<open>codec_ok\<close>, postcard decodes what it encoded, and a body is shorter than 4 GiB
  (\<open>write_frame\<close> casts its length to 32 bits); and \<open>tty_ok\<close>, entering or leaving a terminal mode
  changes that mode when it succeeds and nothing otherwise.

  \<^bold>\<open>Not modelled.\<close> The layout and painting of ratatui; infinities, NaN and subnormal numbers, which the
  range theorems exclude; socket options; the pause after an accept error; the scheduling of
  tokio beyond which branch fires when; \<open>lib.rs\<close> and the module files, which only declare modules;
  the unit tests.

  \<^bold>\<open>Found on the way.\<close> Headless mode does not end on Ctrl-C (\<open>main_shutdown\<close>): \<open>main\<close> holds a sender of the
  channel its printer waits on. The UDP port scan skips ports when its 32-bit cursor wraps
  (\<open>bind_cursor_wrap_skips\<close>). The attach socket has the umask's mode between bind and chmod
  (\<open>chmod_window\<close>). When the alternate screen cannot be entered the terminal stays in raw mode, and a
  failed draw leaves the reader thread running (\<open>terminal_restored\<close>).
\<close>

section \<open>The server and its dashboard\<close>

text \<open>C9: from the accept loop to the screen. At any moment of a run of the whole server, a tick of
  its dashboard that reads the metrics between two of their calls gives a state whose table lists exactly the sessions open then, each once,
  whatever order the registry lists them in; the number of rows is the one the title shows
  as active, and within the configured cap; and the ages shown are of those sessions only.\<close>

theorem dashboard_shows_sessions:
  assumes "steps system_step (system_init cfg) es s" and "length es < 2 ^ 64 - 1"
    and "source_connections (LocalMetrics (sy_metrics s)) cs"
    and "ui_tick now (source_snapshot (LocalMetrics (sy_metrics s))) cs queued height ui = Some ui'"
    and "st = ui_state ui'"
  shows "mset (map ci_id (ds_connections st)) = mset (session_ids (sy_phases s)) \<and>
    sn_active_conns (ds_snapshot st) = of_nat (length (ds_connections st)) \<and>
    (\<forall>n. max_connections (limits cfg) = Some n \<longrightarrow> length (ds_connections st) \<le> n) \<and>
    fset (fmdom (ds_first_seen st)) = set (session_ids (sy_phases s))"
proof -
  let ?m = "sy_metrics s" and ?ids = "session_ids (sy_phases s)"
  note facts = system_sessions [OF assms(1,2)]
  have "source_valid (LocalMetrics ?m)" using facts(4) by (simp add: source_valid_def)
  from src.listing_ids [OF this assms(3)] have dist: "distinct (map ci_id cs)" .
  have "ci_id ` set cs = live_ids ?m"
    using assms(3) listed_ids [OF facts(4)] by (simp add: fset_of_list_iff)
  then have set: "set (map ci_id cs) = set ?ids" using facts(1) by simp
  then have perm: "mset (map ci_id cs) = mset ?ids"
    using set_eq_iff_mset_eq_distinct [OF dist facts(2)] by blast
  obtain r added where d: "drain_events queued (ds_log (ui_state ui)) = (r, added)" by fastforce
  note f = ui_tick_fields [OF assms(4) refl assms(5) d]
  have sorted: "mset (ds_connections st) = mset cs" using f(4) by (simp add: sort_connections_key)
  then have ids: "mset (map ci_id (ds_connections st)) = mset ?ids" using perm by (metis mset_map)
  then have len: "length (ds_connections st) = length ?ids" by (metis length_map size_mset)
  have snap: "ds_snapshot st = metrics_snapshot ?m"
    using assms(4,5) by (auto simp: ui_tick_def Let_def split: prod.splits option.splits)
  have "length ?ids \<le> n" if "max_connections (limits cfg) = Some n" for n
    using sessions_within_cap [OF facts(5)] facts(6) that by simp
  moreover have "fset (fmdom (ds_first_seen st)) = set ?ids"
    using f(3) set by (simp add: track_seen_dom)
  ultimately show ?thesis using ids len snap facts(3) by (simp add: metrics_snapshot_def)
qed

theorem dashboard_shows_sessions_witness:
  "\<exists>ui'. ui_tick 7 (source_snapshot (LocalMetrics (sy_metrics one_session))) [one_session_info] [] (Some 40) sample_ui = Some ui' \<and>
     mset (map ci_id (ds_connections (ui_state ui'))) = {#1#}"
proof -
  let ?src = "LocalMetrics (sy_metrics one_session)"
  have cs: "source_connections ?src [one_session_info]"
    by (auto simp: one_session_def one_session_info_def register_def Let_def connections_def metrics_new_def
        fmlookup_ran_iff split: if_splits)
  obtain ui' where t: "ui_tick 7 (source_snapshot ?src) [one_session_info] [] (Some 40) sample_ui = Some ui'"
    using ui_tick_total by blast
  from dashboard_shows_sessions [OF one_session_run _ cs t refl] t show ?thesis
    by (simp add: one_session_def session_ids_def)
qed

end
